(* ===== verification/Prelude.thy ===== *)
theory Prelude
  imports Main "HOL-Library.Word"
begin

text \<open>
  What every component shares: the C integer constants of hash-list.h, the truncated
  division and remainder of C, and reachability along a next-pointer function, with its behaviour under
  the two pointer updates a sorted list ever sees, inserting a node between two neighbours
  and bypassing a node.
\<close>

named_theorems stab_intros \<open>assertions that survive the steps of the other threads\<close>
named_theorems rdefs \<open>field updates of the machine that the proofs unfold\<close>

subsection \<open>C integers\<close>

type_synonym val_t = int

definition LIST_VAL_MIN :: int where
  "LIST_VAL_MIN = - (2 ^ 31)"

definition LIST_VAL_MAX :: int where
  "LIST_VAL_MAX = 2 ^ 31 - 1"

definition MAX_BUCKETS :: nat where
  "MAX_BUCKETS = 1000"

definition NR_NUMA_NODES :: nat where
  "NR_NUMA_NODES = 4"

definition ENOENT :: int where "ENOENT = 2"

lemma LIST_VAL_MIN_less_MAX [simp]: "LIST_VAL_MIN < LIST_VAL_MAX"
  by (simp add: LIST_VAL_MIN_def LIST_VAL_MAX_def)

text \<open>The remainder of C truncates towards zero: its sign is the sign of the dividend.\<close>

definition c_rem :: "int \<Rightarrow> int \<Rightarrow> int" where
  "c_rem a b = (if a < 0 then - ((- a) mod \<bar>b\<bar>) else a mod \<bar>b\<bar>)"

definition c_div :: "int \<Rightarrow> int \<Rightarrow> int" where
  "c_div a b = sgn a * sgn b * (\<bar>a\<bar> div \<bar>b\<bar>)"

lemma c_div_mod: "b \<noteq> 0 \<Longrightarrow> c_div a b * b + c_rem a b = a"
proof -
  assume b: "b \<noteq> 0"
  have s: "sgn b * b = \<bar>b\<bar>" by (simp add: abs_if sgn_if)
  have "c_div a b * b = sgn a * (\<bar>a\<bar> div \<bar>b\<bar> * \<bar>b\<bar>)"
    unfolding c_div_def s[symmetric] by (simp only: ac_simps)
  moreover have "\<bar>a\<bar> div \<bar>b\<bar> * \<bar>b\<bar> + \<bar>a\<bar> mod \<bar>b\<bar> = \<bar>a\<bar>" by simp
  moreover have "c_rem a b = sgn a * (\<bar>a\<bar> mod \<bar>b\<bar>)" by (auto simp: c_rem_def sgn_if abs_if)
  ultimately have "c_div a b * b + c_rem a b = sgn a * \<bar>a\<bar>" by (metis distrib_left)
  then show ?thesis by (simp add: abs_if sgn_if split: if_splits)
qed

lemma c_rem_nonneg: "0 \<le> a \<Longrightarrow> 0 < b \<Longrightarrow> 0 \<le> c_rem a b \<and> c_rem a b < b"
  by (simp add: c_rem_def)

lemma c_rem_eq_mod: "0 \<le> a \<Longrightarrow> 0 < b \<Longrightarrow> c_rem a b = a mod b"
  by (simp add: c_rem_def)

lemma c_rem_neg: "a < 0 \<Longrightarrow> b \<noteq> 0 \<Longrightarrow> c_rem a b \<le> 0"
  by (simp add: c_rem_def)

text \<open>A \<open>long\<close> narrowed to an \<open>int\<close>, and the sum of two \<open>int\<close>s that wraps.\<close>

definition to_int32 :: "int \<Rightarrow> int" where
  "to_int32 x = (x + 2 ^ 31) mod 2 ^ 32 - 2 ^ 31"

lemma to_int32_id: "- (2 ^ 31) \<le> x \<Longrightarrow> x < 2 ^ 31 \<Longrightarrow> to_int32 x = x"
  by (simp add: to_int32_def)

subsection \<open>Reachability along a next-pointer function\<close>

type_synonym ptr = nat

definition NULL :: ptr where
  "NULL = 0"

inductive reach :: "(ptr \<Rightarrow> ptr) \<Rightarrow> ptr \<Rightarrow> ptr \<Rightarrow> bool" for nx where
  here: "reach nx p p"
| there: "nx p \<noteq> NULL \<Longrightarrow> reach nx (nx p) q \<Longrightarrow> reach nx p q"

lemmas reach_refl [simp, intro!] = reach.here

lemma reach_trans:
  assumes "reach nx p q" "reach nx q r"
  shows "reach nx p r"
  using assms by (induction rule: reach.induct) (auto intro: reach.there)

lemma reach_snoc: "reach nx p q \<Longrightarrow> nx q \<noteq> NULL \<Longrightarrow> reach nx p (nx q)"
  by (blast intro: reach_trans reach.there)

lemma reach_cases: "reach nx p q \<longleftrightarrow> p = q \<or> (nx p \<noteq> NULL \<and> reach nx (nx p) q)"
  by (auto elim: reach.cases intro: reach.there)

text \<open>What a node reaches is linearly ordered.\<close>

lemma reach_linear:
  assumes "reach nx p q" "reach nx p r"
  shows "reach nx q r \<or> reach nx r q"
  using assms
proof (induction rule: reach.induct)
  case (here p)
  then show ?case by simp
next
  case (there p q)
  show ?case
  proof (cases "p = r")
    case True
    with there.hyps show ?thesis by (auto intro: reach.there)
  next
    case False
    with there.prems have "reach nx (nx p) r" by (auto elim: reach.cases)
    with there.IH show ?thesis by blast
  qed
qed

text \<open>A predicate closed under the next pointer holds of everything reachable.\<close>

lemma reach_closed:
  assumes "reach nx p q" "P p" "\<And>x. P x \<Longrightarrow> nx x \<noteq> NULL \<Longrightarrow> P (nx x)"
  shows "P q"
  using assms by (induction rule: reach.induct) auto

text \<open>Two next functions that agree on what a node reaches give the same reachability.\<close>

lemma reach_cong:
  assumes "reach nx p q" "\<And>x. reach nx p x \<Longrightarrow> nx' x = nx x"
  shows "reach nx' p q"
  using assms
proof (induction rule: reach.induct)
  case (here p)
  then show ?case by simp
next
  case (there p q)
  have "nx' p = nx p" using there.prems by simp
  moreover have "reach nx' (nx p) q"
    using there.IH there.prems there.hyps(1) by (meson reach.there)
  ultimately show ?case using there.hyps(1) by (metis reach.there)
qed

text \<open>Inserting \<open>x\<close> after \<open>a\<close>: nothing is lost, and only \<open>x\<close> is new.\<close>

lemma reach_insert_mono:
  assumes "reach nx p q" "nx' a = x" "nx' x = nx a" "x \<noteq> NULL"
    and "\<And>z. z \<noteq> a \<Longrightarrow> z \<noteq> x \<Longrightarrow> nx' z = nx z" "nx x = nx a"
  shows "reach nx' p q"
  using assms(1)
proof (induction rule: reach.induct)
  case (here p)
  then show ?case by simp
next
  case (there p q)
  then show ?case
    using assms(2-) by (metis reach.there)
qed

lemma reach_insert_inv:
  assumes "reach nx' p q" "nx' a = x" "nx' x = nx a"
    and "\<And>z. z \<noteq> a \<Longrightarrow> z \<noteq> x \<Longrightarrow> nx' z = nx z" "nx x = nx a"
  shows "reach nx p q \<or> (q = x \<and> reach nx p a)"
  using assms(1)
proof (induction rule: reach.induct)
  case (here p)
  then show ?case by simp
next
  case (there p q)
  then show ?case
    using assms(2-) by (metis reach.simps)
qed

text \<open>Bypassing \<open>y\<close>: everything but \<open>y\<close> stays reachable, and nothing is new.\<close>

lemma reach_bypass_mono:
  assumes "reach nx p q" "nx a = y" "nx y = n" "n \<noteq> NULL" "q \<noteq> y" "y \<noteq> a"
    and "nx' a = n" "\<And>z. z \<noteq> a \<Longrightarrow> nx' z = nx z"
  shows "reach nx' p q"
  using assms(1,5)
proof (induction rule: reach.induct)
  case (here p)
  then show ?case by simp
next
  case (there p q)
  show ?case
  proof (cases "p = a")
    case True
    then have "reach nx' y q" using there assms by simp
    then have "reach nx' n q"
      using assms there.prems by (auto elim: reach.cases)
    with True assms show ?thesis by (auto intro: reach.there)
  next
    case False
    with there assms(8) show ?thesis by (auto intro: reach.there)
  qed
qed

lemma reach_bypass_inv:
  assumes "reach nx' p q" "nx a = y" "nx y = n" "n \<noteq> NULL" "y \<noteq> NULL"
    and "nx' a = n" "\<And>z. z \<noteq> a \<Longrightarrow> nx' z = nx z"
  shows "reach nx p q"
  using assms(1)
proof (induction rule: reach.induct)
  case (here p)
  then show ?case by simp
next
  case (there p q)
  then show ?case
    using assms(2-) by (metis reach.there)
qed

end
