(* ===== verification/Prog.thy ===== *)
theory Prog
  imports Prelude
begin

text \<open>
  Programs as trees of atomic actions of one thread on a state of any type, their execution by one thread
  alone, and the loops the source uses. The other threads may run between any two actions.
\<close>

type_synonym tid = nat

subsection \<open>Programs\<close>

text \<open>
  A program returns, faults (a dereference of NULL or of freed memory, a double free, an index
  out of bounds), has run out of the fuel of a loop, or performs one action: blocked until its guard
  holds, it updates the machine and continues, both depending on the thread that runs it.
\<close>

datatype ('s, 'a) proc =
    Ret 'a
  | Fault
  | Diverge
  | Act "tid \<Rightarrow> 's \<Rightarrow> bool" "tid \<Rightarrow> 's \<Rightarrow> 's" "tid \<Rightarrow> 's \<Rightarrow> ('s, 'a) proc"

lemma prog_induct [case_names Ret Fault Diverge Act]:
  assumes "\<And>a. P (Ret a)" "P Fault" "P Diverge"
    "\<And>b u n. (\<And>t m. P (n t m)) \<Longrightarrow> P (Act b u n)"
  shows "P c"
  using assms by (induction c) (metis rangeI)+

primrec bind :: "('s, 'a) proc \<Rightarrow> ('a \<Rightarrow> ('s, 'b) proc) \<Rightarrow> ('s, 'b) proc" where
  "bind (Ret a) k = k a"
| "bind Fault k = Fault"
| "bind Diverge k = Diverge"
| "bind (Act b u n) k = Act b u (\<lambda>t m. bind (n t m) k)"

text \<open>One thread alone: the execution without interference.\<close>

datatype ('s, 'a) result = Returned 'a 's | Faulted | Diverged | Blocked

primrec run :: "tid \<Rightarrow> ('s, 'a) proc \<Rightarrow> 's \<Rightarrow> ('s, 'a) result" where
  "run t (Ret a) m = Returned a m"
| "run t Fault m = Faulted"
| "run t Diverge m = Diverged"
| "run t (Act b u n) m = (if b t m then run t (n t m) (u t m) else Blocked)"

fun result_bind :: "('s, 'a) result \<Rightarrow> ('a \<Rightarrow> 's \<Rightarrow> ('s, 'b) result) \<Rightarrow> ('s, 'b) result" where
  "result_bind (Returned a m) k = k a m"
| "result_bind Faulted k = Faulted"
| "result_bind Diverged k = Diverged"
| "result_bind Blocked k = Blocked"

lemma run_bind: "run t (bind c k) m = result_bind (run t c m) (\<lambda>a m'. run t (k a) m')"
  by (induction c arbitrary: m rule: prog_induct) auto

lemma bind_assoc: "bind (bind c f) g = bind c (\<lambda>x. bind (f x) g)"
  by (induction c rule: prog_induct) auto

subsection \<open>Actions\<close>

text \<open>An action that is never blocked, from a function that gives \<open>None\<close> on a fault.\<close>

definition atomic :: "(tid \<Rightarrow> 's \<Rightarrow> ('a \<times> 's) option) \<Rightarrow> ('s, 'a) proc" where
  "atomic f = Act (\<lambda>t m. True)
     (\<lambda>t m. case f t m of Some (a, m') \<Rightarrow> m' | None \<Rightarrow> m)
     (\<lambda>t m. case f t m of Some (a, m') \<Rightarrow> Ret a | None \<Rightarrow> Fault)"

lemma run_atomic: "run t (atomic f) m =
    (case f t m of Some (a, m') \<Rightarrow> Returned a m' | None \<Rightarrow> Faulted)"
  by (auto simp: atomic_def split: option.splits)

text \<open>Reads of per-thread and constant data of the machine.\<close>

definition get :: "(tid \<Rightarrow> 's \<Rightarrow> 'a) \<Rightarrow> ('s, 'a) proc" where
  "get f = atomic (\<lambda>t m. Some (f t m, m))"

subsection \<open>Loops\<close>

fun for_each :: "'a list \<Rightarrow> ('a \<Rightarrow> ('s, unit) proc) \<Rightarrow> ('s, unit) proc" where
  "for_each [] f = Ret ()"
| "for_each (x # xs) f = bind (f x) (\<lambda>_. for_each xs f)"

text \<open>A busy-wait: repeat a test until it is false.\<close>

fun spin_while :: "nat \<Rightarrow> ('s, bool) proc \<Rightarrow> ('s, unit) proc" where
  "spin_while 0 c = Diverge"
| "spin_while (Suc f) c = bind c (\<lambda>b. if b then spin_while f c else Ret ())"

end
