(* ===== verification/Logic.thy ===== *)
theory Logic
  imports Prog
begin

text \<open>
  Reasoning about programs under interference. \<open>wp D R G t c Q m\<close>: started by thread \<open>t\<close> in
  state \<open>m\<close>, with the other threads changing the state only as \<open>R\<close> allows, \<open>c\<close> never faults,
  each of its own actions satisfies \<open>G\<close>, and if it returns then \<open>Q\<close> holds then and keeps
  holding; the mode \<open>D\<close> says whether it may run out of fuel and whether it may find an action
  blocked. The locale \<open>rg_thread\<close> derives the proof
  rules for one thread, the locale \<open>rg_system\<close> composes threads whose guarantees imply the
  others' relies into a statement about every interleaving.
\<close>

subsection \<open>Weakest preconditions under interference\<close>

type_synonym 's step_rel = "'s \<Rightarrow> 's \<Rightarrow> bool"

record mode =
  may_diverge :: bool
  may_block :: bool

primrec wp :: "mode \<Rightarrow> 's step_rel \<Rightarrow> 's step_rel \<Rightarrow> tid \<Rightarrow> ('s, 'a) proc \<Rightarrow> ('a \<Rightarrow> 's \<Rightarrow> bool) \<Rightarrow> 's \<Rightarrow> bool" where
  "wp D R G t (Ret a) Q m = (\<forall>m'. R m m' \<longrightarrow> Q a m')"
| "wp D R G t Fault Q m = False"
| "wp D R G t Diverge Q m = may_diverge D"
| "wp D R G t (Act b u n) Q m = (\<forall>m'. R m m' \<longrightarrow>
     (b t m' \<longrightarrow> G m' (u t m') \<and> wp D R G t (n t m') Q (u t m')) \<and> (b t m' \<or> may_block D))"

definition hoare :: "mode \<Rightarrow> 's step_rel \<Rightarrow> 's step_rel \<Rightarrow> tid \<Rightarrow> ('s \<Rightarrow> bool) \<Rightarrow> ('s, 'a) proc \<Rightarrow>
    ('a \<Rightarrow> 's \<Rightarrow> bool) \<Rightarrow> bool" where
  "hoare D R G t P c Q \<longleftrightarrow> (\<forall>m. P m \<longrightarrow> wp D R G t c Q m)"

definition stab :: "'s step_rel \<Rightarrow> ('s \<Rightarrow> bool) \<Rightarrow> bool" where
  "stab R P \<longleftrightarrow> (\<forall>m m'. P m \<longrightarrow> R m m' \<longrightarrow> P m')"

text \<open>A relation that allows nothing: the thread is the only one running.\<close>

definition alone :: "'s step_rel \<Rightarrow> bool" where
  "alone R \<longleftrightarrow> (\<forall>m m'. R m m' \<longrightarrow> m' = m)"

lemma stab_conj [stab_intros]: "stab R P \<Longrightarrow> stab R Q \<Longrightarrow> stab R (\<lambda>m. P m \<and> Q m)"
  by (auto simp: stab_def)

lemma stab_const [stab_intros]: "stab R (\<lambda>m. c)"
  by (simp add: stab_def)

lemma stab_ex [stab_intros]: "(\<And>x. stab R (P x)) \<Longrightarrow> stab R (\<lambda>m. \<exists>x. P x m)"
  by (auto simp: stab_def)

lemma stab_imp_const [stab_intros]: "(b \<Longrightarrow> stab R P) \<Longrightarrow> stab R (\<lambda>m. b \<longrightarrow> P m)"
  by (auto simp: stab_def)

lemma stab_disj [stab_intros]: "stab R P \<Longrightarrow> stab R Q \<Longrightarrow> stab R (\<lambda>m. P m \<or> Q m)"
  by (auto simp: stab_def)

lemma stab_if [stab_intros]:
  "(b \<Longrightarrow> stab R P) \<Longrightarrow> (\<not> b \<Longrightarrow> stab R Q) \<Longrightarrow> stab R (\<lambda>m. if b then P m else Q m)"
  by (auto simp: stab_def)

lemma wp_mono_post:
  "wp D R G t c Q m \<Longrightarrow> (\<And>a m. Q a m \<Longrightarrow> Q' a m) \<Longrightarrow> wp D R G t c Q' m"
  by (induction c arbitrary: m rule: prog_induct) auto

lemma wp_mono_rel:
  assumes "wp D R G t c Q m" "\<And>m m'. R' m m' \<Longrightarrow> R m m'" "\<And>m m'. G m m' \<Longrightarrow> G' m m'"
  shows "wp D R' G' t c Q m"
  using assms by (induction c arbitrary: m rule: prog_induct) auto

lemma wp_map:
  "wp D R G t c Q m \<Longrightarrow> wp D R G t (bind c (\<lambda>a. Ret (g a))) (\<lambda>x m. \<exists>a. x = g a \<and> Q a m) m"
  by (induction c arbitrary: m rule: prog_induct) auto

lemma hoare_map:
  "hoare D R G t P c Q \<Longrightarrow> hoare D R G t P (bind c (\<lambda>a. Ret (g a))) (\<lambda>x m. \<exists>a. x = g a \<and> Q a m)"
  unfolding hoare_def by (blast intro: wp_map)

text \<open>A fact that neither the others' steps nor the own ones destroy can be added.\<close>

lemma wp_frame:
  assumes "wp D R G t c Q m" "F m" "\<And>m m'. F m \<Longrightarrow> R m m' \<Longrightarrow> F m'" "\<And>m m'. F m \<Longrightarrow> G m m' \<Longrightarrow> F m'"
  shows "wp D R G t c (\<lambda>a m. Q a m \<and> F m) m"
  using assms(1,2)
proof (induction c arbitrary: m rule: prog_induct)
  case (Act b u n)
  have "wp D R G t (n t m') (\<lambda>a m. Q a m \<and> F m) (u t m')" if r: "R m m'" "b t m'" for m'
  proof (rule Act.IH)
    show "wp D R G t (n t m') Q (u t m')" using Act.prems(1) r by simp
    have "F m'" using assms(3) Act.prems(2) r(1) by blast
    then show "F (u t m')" by (rule assms(4)) (use Act.prems(1) r in simp)
  qed
  then show ?case using Act.prems(1) by simp
qed (use assms(3) in auto)

lemma hoare_frame:
  assumes "hoare D R G t P c Q" "\<And>m m'. F m \<Longrightarrow> R m m' \<Longrightarrow> F m'" "\<And>m m'. F m \<Longrightarrow> G m m' \<Longrightarrow> F m'"
  shows "hoare D R G t (\<lambda>m. P m \<and> F m) c (\<lambda>a m. Q a m \<and> F m)"
  unfolding hoare_def
proof (intro allI impI)
  fix m assume "P m \<and> F m"
  then have "wp D R G t c Q m" "F m" using assms(1) by (auto simp: hoare_def)
  then show "wp D R G t c (\<lambda>a m. Q a m \<and> F m) m" by (rule wp_frame) (use assms(2,3) in blast)+
qed

text \<open>Without interference and without a limit on its own actions, \<open>wp\<close> is about \<open>run\<close>.\<close>

lemma wp_run:
  assumes "wp D R G t c Q m" "\<And>m. R m m"
  shows "case run t c m of Returned a m' \<Rightarrow> Q a m' | Faulted \<Rightarrow> False | Diverged \<Rightarrow> may_diverge D
    | Blocked \<Rightarrow> may_block D"
  using assms by (induction c arbitrary: m rule: prog_induct) (auto, blast)

subsection \<open>One thread\<close>

locale rg_thread =
  fixes R G :: "'s step_rel" and t :: tid
  assumes R_refl: "R m m"
    and R_trans: "R m m' \<Longrightarrow> R m' m'' \<Longrightarrow> R m m''"
    and G_refl: "G m m"
begin

lemma wp_stable: "wp D R G t c Q m \<Longrightarrow> R m m' \<Longrightarrow> wp D R G t c Q m'"
  by (cases c) (auto intro: R_trans)

lemma wp_bind: "wp D R G t c (\<lambda>a. wp D R G t (k a) Q) m \<Longrightarrow> wp D R G t (bind c k) Q m"
  by (induction c arbitrary: m rule: prog_induct) (auto intro: R_refl)

lemma hoare_bind:
  assumes "hoare D R G t P c Q" "\<And>a. hoare D R G t (Q a) (k a) Q'"
  shows "hoare D R G t P (bind c k) Q'"
  using assms unfolding hoare_def by (blast intro: wp_bind wp_mono_post)

lemma hoare_ret:
  "stab R P \<Longrightarrow> (\<And>m. P m \<Longrightarrow> Q a m) \<Longrightarrow> hoare D R G t P (Ret a) Q"
  by (auto simp: hoare_def stab_def)

lemma hoare_atomic:
  assumes "stab R P" "\<And>a. stab R (Q a)"
    and "\<And>m. P m \<Longrightarrow> \<exists>a m'. f t m = Some (a, m') \<and> G m m' \<and> Q a m'"
  shows "hoare D R G t P (atomic f) Q"
proof -
  have "wp D R G t (atomic f) Q m" if "P m" for m
  proof -
    have "G m' (case f t m' of Some (a, m'') \<Rightarrow> m'' | None \<Rightarrow> m')
        \<and> wp D R G t (case f t m' of Some (a, m'') \<Rightarrow> Ret a | None \<Rightarrow> Fault) Q
            (case f t m' of Some (a, m'') \<Rightarrow> m'' | None \<Rightarrow> m')" if "R m m'" for m'
    proof -
      have "P m'" using assms(1) \<open>P m\<close> that by (auto simp: stab_def)
      then obtain a m'' where "f t m' = Some (a, m'')" "G m' m''" "Q a m''"
        using assms(3) by blast
      then show ?thesis using assms(2) by (auto simp: stab_def)
    qed
    then show ?thesis by (simp add: atomic_def)
  qed
  then show ?thesis by (simp add: hoare_def)
qed

lemma hoare_get:
  assumes "stab R P" "\<And>a. stab R (Q a)" "\<And>m. P m \<Longrightarrow> Q (f t m) m"
  shows "hoare D R G t P (get f) Q"
  unfolding get_def by (rule hoare_atomic) (use assms G_refl in \<open>fastforce+\<close>)

lemma hoare_conseq:
  assumes "hoare D R G t P' c Q'" "\<And>m. P m \<Longrightarrow> P' m" "\<And>a m. Q' a m \<Longrightarrow> Q a m"
  shows "hoare D R G t P c Q"
proof -
  have "wp D R G t c Q m" if "P m" for m
  proof (rule wp_mono_post)
    show "wp D R G t c Q' m" using assms(1,2) that by (simp add: hoare_def)
  qed (rule assms(3))
  then show ?thesis by (simp add: hoare_def)
qed

lemma hoare_pre: "hoare D R G t P' c Q \<Longrightarrow> (\<And>m. P m \<Longrightarrow> P' m) \<Longrightarrow> hoare D R G t P c Q"
  by (auto simp: hoare_def)

lemma hoare_diverge: "may_diverge D \<Longrightarrow> hoare D R G t P Diverge Q"
  by (simp add: hoare_def)

lemma hoare_if:
  assumes "b \<Longrightarrow> hoare D R G t P c Q" "\<not> b \<Longrightarrow> hoare D R G t P d Q"
  shows "hoare D R G t P (if b then c else d) Q"
  using assms by simp

lemma hoare_pull: "(b \<Longrightarrow> hoare D R G t P c Q) \<Longrightarrow> (\<And>m. P m \<Longrightarrow> b) \<Longrightarrow> hoare D R G t P c Q"
  by (auto simp: hoare_def)

lemma hoare_ex: "(\<And>x. hoare D R G t (P x) c Q) \<Longrightarrow> hoare D R G t (\<lambda>m. \<exists>x. P x m) c Q"
  by (auto simp: hoare_def)

lemma hoare_for_each:
  assumes "stab R P" "\<And>x. x \<in> set xs \<Longrightarrow> hoare D R G t P (f x) (\<lambda>_. P)"
  shows "hoare D R G t P (for_each xs f) (\<lambda>_. P)"
  using assms
proof (induction xs)
  case Nil
  then show ?case by (auto intro: hoare_ret)
next
  case (Cons x xs)
  have "hoare D R G t P (f x) (\<lambda>_. P)" "hoare D R G t P (for_each xs f) (\<lambda>_. P)"
    using Cons by auto
  then show ?case by (auto intro: hoare_bind)
qed

end

subsection \<open>All interleavings of several threads\<close>

text \<open>
  A system is a program per running thread and the shared machine. One step is one action of
  one thread whose guard holds.
\<close>

type_synonym ('s, 'r) system = "tid \<Rightarrow> ('s, 'r) proc option"

inductive sys_step :: "('s, 'r) system \<times> 's \<Rightarrow> ('s, 'r) system \<times> 's \<Rightarrow> bool" where
  sys_act: "pool t = Some (Act b u n) \<Longrightarrow> b t m \<Longrightarrow>
    sys_step (pool, m) (pool(t \<mapsto> n t m), u t m)"

inductive_cases sys_stepE [elim!]: "sys_step (pool, m) s'"

inductive sys_reach :: "('s, 'r) system \<times> 's \<Rightarrow> ('s, 'r) system \<times> 's \<Rightarrow> bool" for s0 where
  sys_start: "sys_reach s0 s0"
| sys_more: "sys_reach s0 s \<Longrightarrow> sys_step s s' \<Longrightarrow> sys_reach s0 s'"

text \<open>The executable step, for concrete schedules.\<close>

definition sys_exec1 :: "tid \<Rightarrow> ('s, 'r) system \<times> 's \<Rightarrow> ('s, 'r) system \<times> 's" where
  "sys_exec1 t s = (case fst s t of
     Some (Act b u n) \<Rightarrow> if b t (snd s) then ((fst s)(t \<mapsto> n t (snd s)), u t (snd s)) else s
   | _ \<Rightarrow> s)"

fun sys_exec :: "tid list \<Rightarrow> ('s, 'r) system \<times> 's \<Rightarrow> ('s, 'r) system \<times> 's" where
  "sys_exec [] s = s"
| "sys_exec (t # ts) s = sys_exec ts (sys_exec1 t s)"

lemma sys_exec1_step: "sys_exec1 t s = s \<or> sys_step s (sys_exec1 t s)"
  by (cases s) (auto simp: sys_exec1_def intro: sys_step.sys_act split: option.splits proc.splits)

lemma sys_exec_reach: "sys_reach s0 s \<Longrightarrow> sys_reach s0 (sys_exec ts s)"
proof (induction ts arbitrary: s)
  case Nil
  then show ?case by simp
next
  case (Cons t ts)
  then have "sys_reach s0 (sys_exec1 t s)"
    using sys_exec1_step[of t s] by (auto intro: sys_reach.sys_more)
  then show ?case using Cons.IH by simp
qed

text \<open>What one thread does in one go is reachable.\<close>

lemma run_reach:
  assumes "run t c m = Returned a m'" "sys_reach s0 (pool, m)" "pool t = Some c"
  shows "sys_reach s0 (pool(t \<mapsto> Ret a), m')"
  using assms
proof (induction c arbitrary: m pool rule: prog_induct)
  case (Ret b)
  then have "pool(t \<mapsto> Ret a) = pool" by (simp add: fun_upd_idem)
  then show ?case using Ret by simp
next
  case (Act b u n)
  then have b: "b t m" "run t (n t m) (u t m) = Returned a m'" by (simp_all split: if_splits)
  have "sys_step (pool, m) (pool(t \<mapsto> n t m), u t m)"
    by (rule sys_act[of pool t b u n m]) (fact Act.prems(3), fact b(1))
  then have "sys_reach s0 (pool(t \<mapsto> n t m), u t m)" by (rule sys_more[OF Act.prems(2)])
  then have "sys_reach s0 ((pool(t \<mapsto> n t m))(t \<mapsto> Ret a), m')" by (rule Act.IH[OF b(2)]) simp
  then show ?case by (simp only: fun_upd_upd)
qed simp_all

locale rg_system =
  fixes R G :: "tid \<Rightarrow> 's step_rel"
  assumes sys_R_refl: "R t m m"
    and sys_R_trans: "R t m m' \<Longrightarrow> R t m' m'' \<Longrightarrow> R t m m''"
    and sys_G_refl: "G t m m"
    and compat: "s \<noteq> t \<Longrightarrow> G t m m' \<Longrightarrow> R s m m'"
begin

sublocale thread: rg_thread "R t" "G t" t for t
  by unfold_locales (auto intro: sys_R_refl sys_R_trans sys_G_refl)

text \<open>
  Every reachable system state is one in which every thread is still on course from the
  current machine state.
\<close>

lemma reach_wp:
  assumes "sys_reach (pool, m) s'"
    and "\<And>t c. pool t = Some c \<Longrightarrow> wp D (R t) (G t) t c (Q t) m"
  shows "\<forall>t c. fst s' t = Some c \<longrightarrow> wp D (R t) (G t) t c (Q t) (snd s')"
  using assms(1)
proof (induction rule: sys_reach.induct)
  case sys_start
  then show ?case using assms(2) by simp
next
  case (sys_more s s')
  obtain pl ms where s: "s = (pl, ms)" by (cases s)
  from sys_more.hyps(2) obtain t b u n where st: "pl t = Some (Act b u n)" "b t ms"
      "s' = (pl(t \<mapsto> n t ms), u t ms)"
    unfolding s by (auto elim: sys_step.cases)
  have w: "wp D (R t) (G t) t (Act b u n) (Q t) ms"
    using sys_more.IH st(1) by (metis fst_conv s snd_conv)
  then have g: "G t ms (u t ms)" and n: "wp D (R t) (G t) t (n t ms) (Q t) (u t ms)"
    using sys_R_refl st(2) by auto
  have "wp D (R t') (G t') t' c (Q t') (u t ms)" if "t' \<noteq> t" "pl t' = Some c" for t' c
  proof (rule thread.wp_stable)
    show "R t' ms (u t ms)" by (rule compat[OF that(1) g])
    show "wp D (R t') (G t') t' c (Q t') ms" using that(2) sys_more.IH by (simp add: s)
  qed
  with n show ?case by (auto simp: st(3))
qed

lemma reach_step_inv:
  assumes "sys_reach (pool, m) s'"
    and "\<And>t c. pool t = Some c \<Longrightarrow> wp D (R t) (G t) t c (Q t) m"
    and "J m" "\<And>t m m'. G t m m' \<Longrightarrow> J m \<Longrightarrow> J m'"
  shows "J (snd s')"
  using assms(1)
proof (induction rule: sys_reach.induct)
  case sys_start
  then show ?case using assms(3) by simp
next
  case (sys_more s s')
  obtain pl ms where s: "s = (pl, ms)" by (cases s)
  from sys_more.hyps(2) obtain t b u n where st: "pl t = Some (Act b u n)" "b t ms"
      "s' = (pl(t \<mapsto> n t ms), u t ms)"
    unfolding s by (auto elim: sys_step.cases)
  have "wp D (R t) (G t) t (Act b u n) (Q t) ms"
    using reach_wp[OF sys_more.hyps(1) assms(2)] st(1) by (metis fst_conv s snd_conv)
  then have "G t ms (u t ms)" using sys_R_refl st(2) by auto
  with sys_more.IH assms(4) show ?case by (simp add: s st(3))
qed

lemma finished:
  assumes "sys_reach (pool, m) (pool', m')"
    and "\<And>t c. pool t = Some c \<Longrightarrow> wp D (R t) (G t) t c (Q t) m"
    and "pool' t = Some (Ret a)"
  shows "Q t a m'"
  using reach_wp[OF assms(1,2)] assms(3) sys_R_refl by fastforce

lemma no_fault:
  assumes "sys_reach (pool, m) (pool', m')"
    and "\<And>t c. pool t = Some c \<Longrightarrow> wp D (R t) (G t) t c (Q t) m"
  shows "pool' t \<noteq> Some Fault"
  using reach_wp[OF assms] by fastforce

text \<open>In a mode without blocking, a thread that has not finished can always take its next step.\<close>

lemma never_blocked:
  assumes "sys_reach (pool, m) (pool', m')"
    and "\<And>t c. pool t = Some c \<Longrightarrow> wp D (R t) (G t) t c (Q t) m" "\<not> may_block D"
    and "pool' t = Some (Act b u n)"
  shows "b t m'"
  using reach_wp[OF assms(1,2)] assms(3,4) sys_R_refl by fastforce

lemma no_diverge:
  assumes "sys_reach (pool, m) (pool', m')"
    and "\<And>t c. pool t = Some c \<Longrightarrow> wp D (R t) (G t) t c (Q t) m" "\<not> may_diverge D"
  shows "pool' t \<noteq> Some Diverge"
  using reach_wp[OF assms(1,2)] assms(3) by fastforce

end

end
