(* ===== verification/RtmDebug.thy ===== *)
theory RtmDebug
  imports Prelude
begin

unbundle bit_operations_syntax

text \<open>
  rtm.h and rtm_debug.c: the status word of a hardware transaction, the per-CPU abort
  counters and the report over all CPUs. A status is an \<open>int\<close> of C read through bit tests
  only, so it is a 32-bit word here; counters and statistics are \<open>unsigned long\<close>, so
  64-bit words whose sums and products wrap.
\<close>

subsection \<open>Status words (rtm.h)\<close>

type_synonym status = "32 word"

definition XBEGIN_STARTED :: status where "XBEGIN_STARTED = NOT 0"
definition XABORT_EXPLICIT :: status where "XABORT_EXPLICIT = push_bit 0 1"
definition XABORT_RETRY :: status where "XABORT_RETRY = push_bit 1 1"
definition XABORT_CONFLICT :: status where "XABORT_CONFLICT = push_bit 2 1"
definition XABORT_CAPACITY :: status where "XABORT_CAPACITY = push_bit 3 1"
definition XABORT_DEBUG :: status where "XABORT_DEBUG = push_bit 4 1"
definition XABORT_NESTED :: status where "XABORT_NESTED = push_bit 5 1"

definition XABORT_CODE :: "status \<Rightarrow> status" where
  "XABORT_CODE x = (drop_bit 24 x) AND 0xff"

text \<open>
  The status that \<open>_xbegin\<close> returns after \<open>_xabort(code)\<close>: the explicit bit, and the
  8-bit code in the top byte.
\<close>

definition xabort_status :: "8 word \<Rightarrow> status" where
  "xabort_status code = push_bit 24 (ucast code) OR XABORT_EXPLICIT"

lemmas status_defs = XBEGIN_STARTED_def XABORT_EXPLICIT_def XABORT_RETRY_def XABORT_CONFLICT_def
  XABORT_CAPACITY_def XABORT_DEBUG_def XABORT_NESTED_def XABORT_CODE_def xabort_status_def

subsection \<open>Abort reasons (rtm\_debug.h)\<close>

definition ABORT_RTM_EXPLICIT :: nat where "ABORT_RTM_EXPLICIT = 0"
definition ABORT_RTM_RETRY :: nat where "ABORT_RTM_RETRY = 1"
definition ABORT_RTM_CONFLICT :: nat where "ABORT_RTM_CONFLICT = 2"
definition ABORT_RTM_CAPACITY :: nat where "ABORT_RTM_CAPACITY = 3"
definition ABORT_RTM_DEBUG :: nat where "ABORT_RTM_DEBUG = 4"
definition ABORT_RTM_NESTED :: nat where "ABORT_RTM_NESTED = 5"
definition ABORT_DOUBLE_FREE :: nat where "ABORT_DOUBLE_FREE = 6"
definition ABORT_CONFLICT :: nat where "ABORT_CONFLICT = 7"
definition ABORT_LF_CONFLICT :: nat where "ABORT_LF_CONFLICT = 8"
definition NR_ABORT_REASONS :: nat where "NR_ABORT_REASONS = 9"

lemmas reason_defs = ABORT_RTM_EXPLICIT_def ABORT_RTM_RETRY_def ABORT_RTM_CONFLICT_def
  ABORT_RTM_CAPACITY_def ABORT_RTM_DEBUG_def ABORT_RTM_NESTED_def ABORT_DOUBLE_FREE_def
  ABORT_CONFLICT_def ABORT_LF_CONFLICT_def NR_ABORT_REASONS_def

record rtm_abort_cnt =
  counts :: "64 word list"
  nr_aborts :: "64 word"

definition zero_abort_cnt :: rtm_abort_cnt where
  "zero_abort_cnt = \<lparr>counts = replicate NR_ABORT_REASONS 0, nr_aborts = 0\<rparr>"

definition bump :: "nat \<Rightarrow> bool \<Rightarrow> rtm_abort_cnt \<Rightarrow> rtm_abort_cnt" where
  "bump i b cnt = (if b then cnt\<lparr>counts := (counts cnt)[i := counts cnt ! i + 1]\<rparr> else cnt)"

definition record_abort_cnt :: "status \<Rightarrow> rtm_abort_cnt \<Rightarrow> rtm_abort_cnt" where
  "record_abort_cnt stat cnt =
    (let cnt = cnt\<lparr>nr_aborts := nr_aborts cnt + 1\<rparr>;
         cnt = bump ABORT_RTM_EXPLICIT (stat AND XABORT_EXPLICIT \<noteq> 0) cnt;
         cnt = bump ABORT_RTM_RETRY (stat AND XABORT_RETRY \<noteq> 0) cnt;
         cnt = bump ABORT_RTM_CONFLICT (stat AND XABORT_CONFLICT \<noteq> 0) cnt;
         cnt = bump ABORT_RTM_CAPACITY (stat AND XABORT_CAPACITY \<noteq> 0) cnt;
         cnt = bump ABORT_RTM_DEBUG (stat AND XABORT_DEBUG \<noteq> 0) cnt;
         cnt = bump ABORT_RTM_NESTED (stat AND XABORT_NESTED \<noteq> 0) cnt;
         cnt = bump ABORT_DOUBLE_FREE (XABORT_CODE stat = of_nat ABORT_DOUBLE_FREE) cnt;
         cnt = bump ABORT_CONFLICT (XABORT_CODE stat = of_nat ABORT_CONFLICT) cnt
     in bump ABORT_LF_CONFLICT (XABORT_CODE stat = of_nat ABORT_LF_CONFLICT) cnt)"

subsection \<open>The report\<close>

record result_stat =
  duration_ms :: "64 word"
  nr_issued_ops :: "64 word"
  nr_succ_ops :: "64 word"
  nr_upd :: "64 word"

definition str_abort_reasons :: "string list" where
  "str_abort_reasons = [''rtm_explicit'', ''rtm_retry'', ''rtm_conflict'', ''rtm_capa'',
     ''rtm_dbg'', ''rtm_nest'', ''double free'', ''conflict'', ''lfconflict'']"

fun sum_aborts :: "nat list \<Rightarrow> (nat \<Rightarrow> rtm_abort_cnt) \<Rightarrow> 64 word list \<Rightarrow> 64 word \<Rightarrow>
    64 word list \<times> 64 word" where
  "sum_aborts [] abort_cnt sums tot = (sums, tot)"
| "sum_aborts (cpu # cpus) abort_cnt sums tot =
     sum_aborts cpus abort_cnt
       (map (\<lambda>i. sums ! i + counts (abort_cnt cpu) ! i) [0..<NR_ABORT_REASONS])
       (tot + nr_aborts (abort_cnt cpu))"

definition at_least_one :: "64 word \<Rightarrow> 64 word" where
  "at_least_one x = (if x = 0 then 1 else x)"

definition pr_abort_stat :: "nat list \<Rightarrow> (nat \<Rightarrow> rtm_abort_cnt) \<Rightarrow> result_stat \<Rightarrow>
    (string \<times> 64 word) list \<times> result_stat" where
  "pr_abort_stat online abort_cnt stat =
    (let (sums, nr_total_aborts) = sum_aborts online abort_cnt (replicate NR_ABORT_REASONS 0) 0;
         stat = stat\<lparr>duration_ms := at_least_one (duration_ms stat)\<rparr>;
         stat = stat\<lparr>nr_issued_ops := at_least_one (nr_issued_ops stat)\<rparr>;
         stat = stat\<lparr>nr_succ_ops := at_least_one (nr_succ_ops stat)\<rparr>;
         stat = stat\<lparr>nr_upd := at_least_one (nr_upd stat)\<rparr>
     in ([(''aborts_per_sec'', nr_total_aborts * 1000 div duration_ms stat),
          (''aborts_per_1000issued'', nr_total_aborts * 1000 div nr_issued_ops stat),
          (''aborts_per_1000succ'', nr_total_aborts * 1000 div nr_succ_ops stat),
          (''aborts_per_1000upd'', nr_total_aborts * 1000 div nr_upd stat),
          (''nr_total_aborts'', nr_total_aborts)]
         @ map (\<lambda>i. (str_abort_reasons ! i, sums ! i)) [0..<NR_ABORT_REASONS],
         stat))"

subsection \<open>What the counters mean\<close>

lemma bump_length [simp]: "length (counts (bump i b cnt)) = length (counts cnt)"
  by (simp add: bump_def)

lemma bump_nr_aborts [simp]: "nr_aborts (bump i b cnt) = nr_aborts cnt"
  by (simp add: bump_def)

lemma bump_nth: "j < length (counts cnt) \<Longrightarrow>
  counts (bump i b cnt) ! j = counts cnt ! j + (if i = j \<and> b then 1 else 0)"
  by (auto simp: bump_def nth_list_update)

lemma and_push_bit_one: "w AND push_bit n 1 \<noteq> 0 \<longleftrightarrow> bit w n" for w :: status
  by (simp add: push_bit_of_1 and_exp_eq_0_iff_not_bit)

lemma record_abort_nth:
  assumes "length (counts cnt) = NR_ABORT_REASONS" "j < NR_ABORT_REASONS"
  shows "counts (record_abort_cnt stat cnt) ! j = counts cnt ! j +
    of_bool ((j < 6 \<and> bit stat j) \<or> (6 \<le> j \<and> XABORT_CODE stat = of_nat j))"
proof -
  have "j \<in> {0,1,2,3,4,5,6,7,8}" using assms(2) by (auto simp: reason_defs)
  then show ?thesis
    using assms(1)
    unfolding record_abort_cnt_def Let_def XABORT_EXPLICIT_def XABORT_RETRY_def
      XABORT_CONFLICT_def XABORT_CAPACITY_def XABORT_DEBUG_def XABORT_NESTED_def and_push_bit_one
    by (elim insertE emptyE) (simp_all add: bump_nth reason_defs)
qed

lemma record_abort_length:
  "length (counts (record_abort_cnt stat cnt)) = length (counts cnt)"
  by (simp add: record_abort_cnt_def Let_def)

lemma record_abort_reason_nth:
  assumes "length (counts cnt) = NR_ABORT_REASONS" "j < NR_ABORT_REASONS" "reason < 2 ^ 24"
  shows "counts (record_abort_cnt (of_nat reason) cnt) ! j =
    counts cnt ! j + of_bool (j < 6 \<and> bit reason j)"
proof -
  have s: "unat (of_nat reason :: status) = reason"
    using assms(3) by (simp add: unat_of_nat take_bit_nat_eq_self)
  have "drop_bit 24 reason = 0" using assms(3) by (simp add: drop_bit_eq_div)
  then have "drop_bit 24 (of_nat reason :: status) = 0"
    using s by (simp add: unat_eq_zero[symmetric] unat_drop_bit_eq)
  then have c: "XABORT_CODE (of_nat reason) = 0" by (simp add: XABORT_CODE_def)
  have b: "bit (of_nat reason :: status) j = bit reason j" if "j < 6" for j
    using that by (simp add: bit_of_nat_iff)
  have "(of_nat j :: status) \<noteq> 0" if "6 \<le> j"
    using that assms(2) by (auto simp: reason_defs unat_eq_zero[symmetric] unat_of_nat take_bit_nat_eq_self)
  then show ?thesis using record_abort_nth[OF assms(1,2)] b[of j] c by auto
qed

lemma xabort_code: "XABORT_CODE (xabort_status code) = ucast code"
proof (rule bit_word_eqI)
  fix n assume n: "n < LENGTH(32)"
  have m: "(0xff :: status) = mask 8" by (simp add: mask_eq_exp_minus_1)
  have "bit (XABORT_CODE (xabort_status code)) n \<longleftrightarrow> n < 8 \<and> bit (xabort_status code) (24 + n)"
    unfolding XABORT_CODE_def m using n
    by (auto simp: bit_and_iff bit_drop_bit_eq bit_mask_iff simp del: mask_numeral)
  also have "\<dots> \<longleftrightarrow> n < 8 \<and> bit code n"
    by (auto simp: xabort_status_def XABORT_EXPLICIT_def bit_or_iff bit_push_bit_iff bit_ucast_iff bit_1_iff)
  also have "\<dots> \<longleftrightarrow> bit (ucast code :: status) n"
    using n bit_imp_le_length[of code n] by (auto simp: bit_ucast_iff)
  finally show "bit (XABORT_CODE (xabort_status code)) n \<longleftrightarrow> bit (ucast code :: status) n" .
qed

lemma sum_aborts_sum:
  assumes "length sums = NR_ABORT_REASONS"
  shows "sum_aborts cpus cnts sums tot =
    (map (\<lambda>i. sums ! i + (\<Sum>c\<leftarrow>cpus. counts (cnts c) ! i)) [0..<NR_ABORT_REASONS],
     tot + (\<Sum>c\<leftarrow>cpus. nr_aborts (cnts c)))"
  using assms
proof (induction cpus arbitrary: sums tot)
  case Nil
  then show ?case by (auto intro: nth_equalityI)
next
  case (Cons c cpus)
  then show ?case by (simp add: add.assoc)
qed

end
