(* ===== verification/Machine.thy ===== *)
theory Machine
  imports RtmDebug Logic
begin

text \<open>
  The machine the C code runs on: the memory of hash-list.h's structures, the kernel
  primitives the code calls (spinlocks, RCU, kmalloc/kfree/kfree\_rcu, per-CPU data, the clock),
  and hardware transactions, as programs of \<open>Prog\<close>. Every shared
  access of the source is one action, so the other threads may run between any two of them;
  a hardware transaction is a single action. Nondeterministic answers of the environment (which
  address kmalloc returns, when the hardware aborts a transaction, the time) are parameters of
  the machine, read from the fields \<open>kalloc\<close>, \<open>kjunk\<close>, \<open>ljunk\<close>, \<open>htm\<close> and \<open>ktime\<close>.
\<close>

subsection \<open>The structures of hash-list.h\<close>

type_synonym spinlock = "tid option"   \<comment> \<open>\<open>None\<close>: unlocked; \<open>Some t\<close>: held, taken by \<open>t\<close>\<close>

record node_t =
  val :: val_t
  p_next :: ptr
  removed :: int
  pnode_locks :: "nat \<Rightarrow> int"        \<comment> \<open>the byte at \<open>128 * nodeid\<close>\<close>
  pnd_slocks :: "nat \<Rightarrow> spinlock"
  global_lock :: spinlock
  global_htmlock :: int

record list_t =
  p_head :: ptr
  rcuspin :: spinlock

record hash_list_t =
  n_buckets :: int
  buckets :: "int \<Rightarrow> ptr"

record timespec =
  tv_sec :: int
  tv_nsec :: int

subsection \<open>Machine states\<close>

text \<open>
  \<open>own\<close> and \<open>hist\<close> are ghost fields: no program reads them. \<open>own\<close> says of an allocated
  node whether it is private to the thread that allocated it or published in a list, and \<open>hist\<close> logs
  each insertion and each removal at the instant its pointer write takes effect.
\<close>

datatype owner = Priv tid | Pub ptr
datatype upd = Ins val_t | Del val_t

record mach =
  mem :: "ptr \<Rightarrow> node_t option"
  lists :: "ptr \<Rightarrow> list_t option"
  g_hash_list :: "hash_list_t option"
  own :: "ptr \<Rightarrow> owner"
  hist :: "(tid \<times> ptr \<times> upd) list"
  live :: "ptr list"
  llive :: "ptr list"
  kalloc :: "ptr list \<Rightarrow> nat \<Rightarrow> ptr"
  kjunk :: "nat \<Rightarrow> node_t"
  ljunk :: "nat \<Rightarrow> list_t"
  kcnt :: nat
  rcu_nest :: "tid \<Rightarrow> int"
  rcu_cbs :: "ptr list"
  htm :: "nat \<Rightarrow> status"
  hcnt :: nat
  cpu_of :: "tid \<Rightarrow> nat"
  node_of :: "tid \<Rightarrow> nat"
  nodes_with_cpus :: "nat list"
  abort_cnt :: "nat \<Rightarrow> rtm_abort_cnt"
  ktime :: "nat \<Rightarrow> timespec"
  tcnt :: nat
  bench_start_time :: timespec
  duration :: int

definition nxt :: "mach \<Rightarrow> ptr \<Rightarrow> ptr" where
  "nxt m p = (case mem m p of Some n \<Rightarrow> p_next n | None \<Rightarrow> NULL)"

definition vl :: "mach \<Rightarrow> ptr \<Rightarrow> val_t" where
  "vl m p = (case mem m p of Some n \<Rightarrow> val n | None \<Rightarrow> 0)"

definition hd_of :: "mach \<Rightarrow> ptr \<Rightarrow> ptr" where
  "hd_of m l = (case lists m l of Some L \<Rightarrow> p_head L | None \<Rightarrow> NULL)"

subsection \<open>Actions on the memory\<close>

type_synonym 'a prog = "(mach, 'a) proc"
type_synonym mrel = "mach step_rel"
type_synonym 'r pool = "(mach, 'r) system"

text \<open>Reading and writing a field of a node.\<close>

definition rd :: "ptr \<Rightarrow> (node_t \<Rightarrow> 'a) \<Rightarrow> 'a prog" where
  "rd p f = atomic (\<lambda>t m. case mem m p of Some n \<Rightarrow> Some (f n, m) | None \<Rightarrow> None)"

definition set_node :: "ptr \<Rightarrow> node_t \<Rightarrow> mach \<Rightarrow> mach" where
  "set_node p n m = m\<lparr>mem := (mem m)(p := Some n)\<rparr>"

definition wr :: "ptr \<Rightarrow> (node_t \<Rightarrow> node_t) \<Rightarrow> unit prog" where
  "wr p f = atomic (\<lambda>t m. case mem m p of
      Some n \<Rightarrow> Some ((), set_node p (f n) m) | None \<Rightarrow> None)"

text \<open>
  \<open>rcu_assign_pointer(p->p_next, q)\<close>: the pointer write, with its ghost bookkeeping. Writing the
  address of a private node into a published one publishes it in the same list and logs the
  insertion; writing a published address logs the removal of the node bypassed.
\<close>

definition assign_next :: "tid \<Rightarrow> ptr \<Rightarrow> ptr \<Rightarrow> mach \<Rightarrow> mach" where
  "assign_next t p q m =
    (case mem m p of None \<Rightarrow> m | Some n \<Rightarrow>
      (let m' = set_node p (n\<lparr>p_next := q\<rparr>) m in
       case own m p of
         Priv _ \<Rightarrow> m'
       | Pub l \<Rightarrow>
           if own m q = Priv t
           then m'\<lparr>own := (own m)(q := Pub l), hist := hist m @ [(t, l, Ins (vl m q))]\<rparr>
           else m'\<lparr>hist := hist m @ [(t, l, Del (vl m (p_next n)))]\<rparr>))"

definition rcu_assign_next :: "ptr \<Rightarrow> ptr \<Rightarrow> unit prog" where
  "rcu_assign_next p q = atomic (\<lambda>t m.
     if mem m p = None then None else Some ((), assign_next t p q m))"

definition head_of :: "ptr \<Rightarrow> ptr prog" where
  "head_of l = atomic (\<lambda>t m. case lists m l of Some L \<Rightarrow> Some (p_head L, m) | None \<Rightarrow> None)"

definition set_list :: "ptr \<Rightarrow> (list_t \<Rightarrow> list_t) \<Rightarrow> unit prog" where
  "set_list l f = atomic (\<lambda>t m. case lists m l of
      Some L \<Rightarrow> Some ((), m\<lparr>lists := (lists m)(l := Some (f L))\<rparr>) | None \<Rightarrow> None)"

text \<open>Writing the head of a list publishes a private head node and its successor, the two sentinels
  of a new list.\<close>

definition publish :: "tid \<Rightarrow> ptr \<Rightarrow> ptr \<Rightarrow> mach \<Rightarrow> mach" where
  "publish t l q m =
    (if own m q = Priv t then m\<lparr>own := (own m)(q := Pub l, nxt m q := Pub l)\<rparr> else m)"

definition set_head :: "ptr \<Rightarrow> ptr \<Rightarrow> unit prog" where
  "set_head l q = atomic (\<lambda>t m. case lists m l of
      Some L \<Rightarrow> Some ((), publish t l q (m\<lparr>lists := (lists m)(l := Some (L\<lparr>p_head := q\<rparr>))\<rparr>))
    | None \<Rightarrow> None)"

definition numa_node_id :: "nat prog" where
  "numa_node_id = get (\<lambda>t m. node_of m t)"

subsection \<open>Spinlocks\<close>

datatype lockref = RcuSpin ptr | Global ptr | Pnd ptr nat

fun lock_get :: "mach \<Rightarrow> lockref \<Rightarrow> spinlock option" where
  "lock_get m (RcuSpin l) = map_option rcuspin (lists m l)"
| "lock_get m (Global p) = map_option global_lock (mem m p)"
| "lock_get m (Pnd p i) =
     (if i < NR_NUMA_NODES then map_option (\<lambda>n. pnd_slocks n i) (mem m p) else None)"

fun lock_set :: "lockref \<Rightarrow> spinlock \<Rightarrow> mach \<Rightarrow> mach" where
  "lock_set (RcuSpin l) s m =
     m\<lparr>lists := (lists m)(l := map_option (\<lambda>L. L\<lparr>rcuspin := s\<rparr>) (lists m l))\<rparr>"
| "lock_set (Global p) s m =
     m\<lparr>mem := (mem m)(p := map_option (\<lambda>n. n\<lparr>global_lock := s\<rparr>) (mem m p))\<rparr>"
| "lock_set (Pnd p i) s m =
     m\<lparr>mem := (mem m)(p := map_option (\<lambda>n. n\<lparr>pnd_slocks := (pnd_slocks n)(i := s)\<rparr>) (mem m p))\<rparr>"

definition spin_lock :: "lockref \<Rightarrow> unit prog" where
  "spin_lock k = Act (\<lambda>t m. lock_get m k = None \<or> lock_get m k = Some None)
     (\<lambda>t m. if lock_get m k = None then m else lock_set k (Some t) m)
     (\<lambda>t m. if lock_get m k = None then Fault else Ret ())"

definition spin_unlock :: "lockref \<Rightarrow> unit prog" where
  "spin_unlock k = atomic (\<lambda>t m.
     if lock_get m k = None then None else Some ((), lock_set k None m))"

definition spin_trylock :: "lockref \<Rightarrow> bool prog" where
  "spin_trylock k = atomic (\<lambda>t m. case lock_get m k of
      None \<Rightarrow> None
    | Some None \<Rightarrow> Some (True, lock_set k (Some t) m)
    | Some (Some _) \<Rightarrow> Some (False, m))"

definition spin_is_locked :: "lockref \<Rightarrow> bool prog" where
  "spin_is_locked k = atomic (\<lambda>t m. case lock_get m k of
      None \<Rightarrow> None | Some s \<Rightarrow> Some (s \<noteq> None, m))"

text \<open>\<open>while (spin_is_locked(lock)) ;\<close>, which only reads: the action is the read that ends it.\<close>

definition wait_unlocked :: "lockref \<Rightarrow> unit prog" where
  "wait_unlocked k = Act (\<lambda>t m. lock_get m k = None \<or> lock_get m k = Some None)
     (\<lambda>t m. m) (\<lambda>t m. if lock_get m k = None then Fault else Ret ())"

subsection \<open>RCU and allocation\<close>

definition rcu_read_lock :: "unit prog" where
  "rcu_read_lock = atomic (\<lambda>t m.
     Some ((), m\<lparr>rcu_nest := (rcu_nest m)(t := rcu_nest m t + 1)\<rparr>))"

definition rcu_read_unlock :: "unit prog" where
  "rcu_read_unlock = atomic (\<lambda>t m.
     Some ((), m\<lparr>rcu_nest := (rcu_nest m)(t := rcu_nest m t - 1)\<rparr>))"

text \<open>
  \<open>kmalloc\<close> of a node: the allocator proposes an address; one that is NULL or in use means
  that the allocation fails. The content of a new object is arbitrary.
\<close>

definition fresh_node :: "mach \<Rightarrow> ptr" where
  "fresh_node m = (let a = kalloc m (live m) (kcnt m) in if mem m a = None then a else NULL)"

definition kmalloc_node :: "ptr prog" where
  "kmalloc_node = atomic (\<lambda>t m. let a = fresh_node m in
     Some (a, if a = NULL then m\<lparr>kcnt := kcnt m + 1\<rparr>
       else m\<lparr>mem := (mem m)(a := Some (kjunk m (kcnt m))), own := (own m)(a := Priv t),
              live := a # live m, kcnt := kcnt m + 1\<rparr>))"

definition fresh_list :: "mach \<Rightarrow> ptr" where
  "fresh_list m = (let a = kalloc m (llive m) (kcnt m) in if lists m a = None then a else NULL)"

definition kmalloc_list :: "ptr prog" where
  "kmalloc_list = atomic (\<lambda>t m. let a = fresh_list m in
     Some (a, if a = NULL then m\<lparr>kcnt := kcnt m + 1\<rparr>
       else m\<lparr>lists := (lists m)(a := Some (ljunk m (kcnt m))), llive := a # llive m,
              kcnt := kcnt m + 1\<rparr>))"

text \<open>\<open>kfree(NULL)\<close> does nothing; freeing what is not allocated is a fault.\<close>

definition kfree_node :: "ptr \<Rightarrow> unit prog" where
  "kfree_node p = atomic (\<lambda>t m.
     if p = NULL then Some ((), m)
     else if mem m p = None then None
     else Some ((), m\<lparr>mem := (mem m)(p := None), live := removeAll p (live m)\<rparr>))"

definition kfree_list :: "ptr \<Rightarrow> unit prog" where
  "kfree_list l = atomic (\<lambda>t m.
     if l = NULL then Some ((), m)
     else if lists m l = None then None
     else Some ((), m\<lparr>lists := (lists m)(l := None), llive := removeAll l (llive m)\<rparr>))"

text \<open>\<open>kfree_rcu\<close> queues the node until a grace period has passed.\<close>

definition kfree_rcu :: "ptr \<Rightarrow> unit prog" where
  "kfree_rcu p = atomic (\<lambda>t m.
     if mem m p = None then None else Some ((), m\<lparr>rcu_cbs := rcu_cbs m @ [p]\<rparr>))"

subsection \<open>Hardware transactions\<close>

text \<open>
  The body of a transaction is a program that returns \<open>None\<close> to commit or \<open>Some code\<close> for
  \<open>_xabort(code)\<close>. If the hardware starts the transaction (its answer is \<open>_XBEGIN_STARTED\<close>), the
  body runs in isolation and either commits as a whole or leaves no effect; a fault inside
  aborts with status 0. The result is what \<open>_xbegin\<close> returns in the end.
\<close>

definition xrun :: "tid \<Rightarrow> 8 word option prog \<Rightarrow> mach \<Rightarrow> status \<times> mach" where
  "xrun t c m =
    (let s = htm m (hcnt m); m1 = m\<lparr>hcnt := hcnt m + 1\<rparr> in
     if s = XBEGIN_STARTED
     then (case run t c m1 of
             Returned None m' \<Rightarrow> (XBEGIN_STARTED, m')
           | Returned (Some code) m' \<Rightarrow> (xabort_status code, m1)
           | _ \<Rightarrow> (0, m1))
     else (s, m1))"

definition xact :: "8 word option prog \<Rightarrow> status prog" where
  "xact c = atomic (\<lambda>t m. Some (xrun t c m))"

text \<open>\<open>record_abort\<close> of rtm\_debug.c works on the counters of the CPU it runs on.\<close>

definition record_abort :: "status \<Rightarrow> unit prog" where
  "record_abort stat = atomic (\<lambda>t m. Some ((), m\<lparr>abort_cnt := (abort_cnt m)
     (cpu_of m t := record_abort_cnt stat (abort_cnt m (cpu_of m t)))\<rparr>))"

end
