(* ===== verification/RcuList.thy ===== *)
theory RcuList
  imports Machine
begin

text \<open>
  rcu-hash-list.c, function by function: the sorted list with its two sentinels, the
  coarse-grained lock of \<open>rcu_list_add\<close>, its try-and-fail version, the fine-grained locking of
  \<open>rcu_list_fg_add\<close> and its NUMA version, and the hash table over them. \<open>w\<close> bounds the
  iterations of a list walk and \<open>f\<close> the retries of a \<open>goto retry\<close>; a bound that is used up
  gives \<open>Diverge\<close>. Arguments called \<open>val\<close> in the source are \<open>key\<close> here, since \<open>val\<close> is the field.
\<close>


subsection \<open>Nodes and lists\<close>

definition pnd_init :: "ptr \<Rightarrow> nat \<Rightarrow> unit prog" where
  "pnd_init p nodeid =
    (if nodeid < NR_NUMA_NODES then wr p (\<lambda>n. n\<lparr>pnd_slocks := (pnd_slocks n)(nodeid := None)\<rparr>)
     else Fault)"

definition rcu_new_node :: "ptr prog" where
  "rcu_new_node =
    bind kmalloc_node (\<lambda>p_new_node.
    if p_new_node = NULL then Ret NULL else
    bind (wr p_new_node (\<lambda>n. n\<lparr>removed := 0\<rparr>)) (\<lambda>_.
    bind (get (\<lambda>t m. nodes_with_cpus m)) (\<lambda>nodeids.
    bind (for_each nodeids (pnd_init p_new_node)) (\<lambda>_.
    bind (wr p_new_node (\<lambda>n. n\<lparr>global_lock := None\<rparr>)) (\<lambda>_.
    Ret p_new_node)))))"

definition rcu_free_node :: "ptr \<Rightarrow> unit prog" where
  "rcu_free_node p_node = kfree_rcu p_node"

definition set_val :: "ptr \<Rightarrow> val_t \<Rightarrow> unit prog" where
  "set_val p v = wr p (\<lambda>n. n\<lparr>val := v\<rparr>)"

definition set_next :: "ptr \<Rightarrow> ptr \<Rightarrow> unit prog" where
  "set_next p q = wr p (\<lambda>n. n\<lparr>p_next := q\<rparr>)"

definition set_removed :: "ptr \<Rightarrow> unit prog" where
  "set_removed p = wr p (\<lambda>n. n\<lparr>removed := 1\<rparr>)"

definition rcu_new_list :: "ptr prog" where
  "rcu_new_list =
    bind kmalloc_list (\<lambda>p_list.
    if p_list = NULL then Ret NULL else
    bind rcu_new_node (\<lambda>p_max_node.
    bind (set_val p_max_node LIST_VAL_MAX) (\<lambda>_.
    bind (set_next p_max_node NULL) (\<lambda>_.
    bind rcu_new_node (\<lambda>p_min_node.
    bind (set_val p_min_node LIST_VAL_MIN) (\<lambda>_.
    bind (set_next p_min_node p_max_node) (\<lambda>_.
    bind (set_head p_list p_min_node) (\<lambda>_.
    bind (set_list p_list (\<lambda>L. L\<lparr>rcuspin := None\<rparr>)) (\<lambda>_.
    Ret p_list)))))))))"

fun list_size_loop :: "nat \<Rightarrow> ptr \<Rightarrow> int \<Rightarrow> int prog" where
  "list_size_loop 0 p_node sz = Diverge"
| "list_size_loop (Suc w) p_node sz =
    bind (rd p_node p_next) (\<lambda>q.
    if q \<noteq> NULL
    then bind (rd p_node p_next) (\<lambda>p_node. list_size_loop w p_node (sz + 1))
    else Ret sz)"

definition list_size :: "nat \<Rightarrow> ptr \<Rightarrow> int prog" where
  "list_size w p_list =
    bind (head_of p_list) (\<lambda>h.
    bind (rd h p_next) (\<lambda>p_node.
    list_size_loop w p_node 0))"

text \<open>The walk that every list operation of the source repeats.\<close>

fun search :: "nat \<Rightarrow> val_t \<Rightarrow> ptr \<Rightarrow> ptr \<Rightarrow> (ptr \<times> ptr \<times> val_t) prog" where
  "search 0 key prev next = Diverge"
| "search (Suc w) key prev next =
    bind (rd next val) (\<lambda>v.
    if key \<le> v then Ret (prev, next, v)
    else bind (rd next p_next) (\<lambda>q. search w key next q))"

definition find_pos :: "nat \<Rightarrow> ptr \<Rightarrow> val_t \<Rightarrow> (ptr \<times> ptr \<times> val_t) prog" where
  "find_pos w p_list key =
    bind (head_of p_list) (\<lambda>prev.
    bind (rd prev p_next) (\<lambda>next.
    search w key prev next))"

definition rcu_list_contains :: "nat \<Rightarrow> ptr \<Rightarrow> val_t \<Rightarrow> int prog" where
  "rcu_list_contains w p_list key =
    bind rcu_read_lock (\<lambda>_.
    bind (find_pos w p_list key) (\<lambda>(prev, next, v).
    bind rcu_read_unlock (\<lambda>_.
    Ret (of_bool (v = key)))))"

subsection \<open>One lock per list\<close>

definition insert_after :: "ptr \<Rightarrow> ptr \<Rightarrow> val_t \<Rightarrow> unit prog" where
  "insert_after prev next key =
    bind rcu_new_node (\<lambda>p_new_node.
    bind (set_val p_new_node key) (\<lambda>_.
    bind (set_next p_new_node next) (\<lambda>_.
    rcu_assign_next prev p_new_node)))"

definition rcu_list_add :: "nat \<Rightarrow> ptr \<Rightarrow> val_t \<Rightarrow> int prog" where
  "rcu_list_add w p_list key =
    bind (spin_lock (RcuSpin p_list)) (\<lambda>_.
    bind (find_pos w p_list key) (\<lambda>(prev, next, v).
    bind (if v \<noteq> key then insert_after prev next key else Ret ()) (\<lambda>_.
    bind (spin_unlock (RcuSpin p_list)) (\<lambda>_.
    Ret 0))))"

definition rcu_list_try_add :: "nat \<Rightarrow> ptr \<Rightarrow> val_t \<Rightarrow> int prog" where
  "rcu_list_try_add w p_list key =
    bind (spin_trylock (RcuSpin p_list)) (\<lambda>b.
    if \<not> b then Ret 2 else
    bind (find_pos w p_list key) (\<lambda>(prev, next, v).
    bind (if v \<noteq> key then insert_after prev next key else Ret ()) (\<lambda>_.
    bind (spin_unlock (RcuSpin p_list)) (\<lambda>_.
    Ret 0))))"

text \<open>Removal tests \<open>p_node->val\<close> again after the walk.\<close>

definition rcu_list_remove :: "nat \<Rightarrow> ptr \<Rightarrow> val_t \<Rightarrow> int prog" where
  "rcu_list_remove w p_list key =
    bind (spin_lock (RcuSpin p_list)) (\<lambda>_.
    bind (find_pos w p_list key) (\<lambda>(prev, next, _).
    bind (rd next val) (\<lambda>v.
    if v = key then
      bind (rd next p_next) (\<lambda>n.
      bind (rcu_assign_next prev n) (\<lambda>_.
      bind (spin_unlock (RcuSpin p_list)) (\<lambda>_.
      bind (rcu_free_node next) (\<lambda>_.
      Ret 0))))
    else
      bind (spin_unlock (RcuSpin p_list)) (\<lambda>_.
      Ret 0))))"

definition rcu_list_try_remove :: "nat \<Rightarrow> ptr \<Rightarrow> val_t \<Rightarrow> int prog" where
  "rcu_list_try_remove w p_list key =
    bind (spin_trylock (RcuSpin p_list)) (\<lambda>b.
    if \<not> b then Ret 2 else
    bind (find_pos w p_list key) (\<lambda>(prev, next, _).
    bind (rd next val) (\<lambda>v.
    if v = key then
      bind (rd next p_next) (\<lambda>n.
      bind (rcu_assign_next prev n) (\<lambda>_.
      bind (spin_unlock (RcuSpin p_list)) (\<lambda>_.
      bind (rcu_free_node next) (\<lambda>_.
      Ret 0))))
    else
      bind (spin_unlock (RcuSpin p_list)) (\<lambda>_.
      Ret 0))))"

subsection \<open>Fine-grained locking\<close>

text \<open>The short-circuit tests \<open>a->removed || b->removed\<close> and \<open>a->p_next != b || b->p_next != c\<close>.\<close>

fun any_removed :: "ptr list \<Rightarrow> bool prog" where
  "any_removed [] = Ret False"
| "any_removed (p # ps) =
    bind (rd p removed) (\<lambda>r. if r \<noteq> 0 then Ret True else any_removed ps)"

fun any_moved :: "(ptr \<times> ptr) list \<Rightarrow> bool prog" where
  "any_moved [] = Ret False"
| "any_moved ((p, q) # ps) =
    bind (rd p p_next) (\<lambda>x. if x \<noteq> q then Ret True else any_moved ps)"

fun rcu_list_fg_add :: "nat \<Rightarrow> nat \<Rightarrow> ptr \<Rightarrow> val_t \<Rightarrow> int prog" where
  "rcu_list_fg_add w 0 p_list key = Diverge"
| "rcu_list_fg_add w (Suc f) p_list key =
    bind (find_pos w p_list key) (\<lambda>(prev, next, v).
    if v \<noteq> key then
      bind rcu_new_node (\<lambda>p_new_node.
      bind (set_val p_new_node key) (\<lambda>_.
      bind (set_next p_new_node next) (\<lambda>_.
      bind (spin_lock (Global prev)) (\<lambda>_.
      bind (spin_lock (Global next)) (\<lambda>_.
      bind (any_moved [(prev, next)]) (\<lambda>moved.
      bind (if moved then Ret True else any_removed [prev, next]) (\<lambda>conflict.
      if \<not> conflict then
        bind (rcu_assign_next prev p_new_node) (\<lambda>_.
        bind (spin_unlock (Global next)) (\<lambda>_.
        bind (spin_unlock (Global prev)) (\<lambda>_.
        Ret 1)))
      else
        bind (spin_unlock (Global next)) (\<lambda>_.
        bind (spin_unlock (Global prev)) (\<lambda>_.
        bind (kfree_node p_new_node) (\<lambda>_.
        rcu_list_fg_add w f p_list key))))))))))
    else Ret 0)"

fun rcu_list_fg_remove :: "nat \<Rightarrow> nat \<Rightarrow> ptr \<Rightarrow> val_t \<Rightarrow> int prog" where
  "rcu_list_fg_remove w 0 p_list key = Diverge"
| "rcu_list_fg_remove w (Suc f) p_list key =
    bind (find_pos w p_list key) (\<lambda>(prev, next, _).
    bind (rd next val) (\<lambda>v.
    if v = key then
      bind (rd next p_next) (\<lambda>n.
      bind (spin_lock (Global prev)) (\<lambda>_.
      bind (spin_lock (Global next)) (\<lambda>_.
      bind (spin_lock (Global n)) (\<lambda>_.
      bind (any_removed [prev, next, n]) (\<lambda>gone.
      bind (if gone then Ret True else any_moved [(prev, next), (next, n)]) (\<lambda>conflict.
      if \<not> conflict then
        bind (rcu_assign_next prev n) (\<lambda>_.
        bind (set_removed next) (\<lambda>_.
        bind (rcu_free_node next) (\<lambda>_.
        bind (spin_unlock (Global n)) (\<lambda>_.
        bind (spin_unlock (Global next)) (\<lambda>_.
        bind (spin_unlock (Global prev)) (\<lambda>_.
        Ret 1))))))
      else
        bind (spin_unlock (Global n)) (\<lambda>_.
        bind (spin_unlock (Global next)) (\<lambda>_.
        bind (spin_unlock (Global prev)) (\<lambda>_.
        rcu_list_fg_remove w f p_list key)))))))))
    else Ret 0))"

subsection \<open>NUMA-aware fine-grained locking\<close>

definition pnd_lock :: "ptr \<Rightarrow> unit prog" where
  "pnd_lock p = bind numa_node_id (\<lambda>i. spin_lock (Pnd p i))"

definition pnd_unlock :: "ptr \<Rightarrow> unit prog" where
  "pnd_unlock p = bind numa_node_id (\<lambda>i. spin_unlock (Pnd p i))"

fun rcu_list_numa_add :: "nat \<Rightarrow> nat \<Rightarrow> ptr \<Rightarrow> val_t \<Rightarrow> int prog" where
  "rcu_list_numa_add w 0 p_list key = Diverge"
| "rcu_list_numa_add w (Suc f) p_list key =
    bind (find_pos w p_list key) (\<lambda>(prev, next, v).
    if v \<noteq> key then
      bind rcu_new_node (\<lambda>p_new_node.
      bind (set_val p_new_node key) (\<lambda>_.
      bind (set_next p_new_node next) (\<lambda>_.
      bind (pnd_lock prev) (\<lambda>_.
      bind (pnd_lock next) (\<lambda>_.
      bind (spin_lock (Global prev)) (\<lambda>_.
      bind (spin_lock (Global next)) (\<lambda>_.
      bind (any_moved [(prev, next)]) (\<lambda>moved.
      bind (if moved then Ret True else any_removed [prev, next]) (\<lambda>conflict.
      if \<not> conflict then
        bind (rcu_assign_next prev p_new_node) (\<lambda>_.
        bind (spin_unlock (Global next)) (\<lambda>_.
        bind (spin_unlock (Global prev)) (\<lambda>_.
        bind (pnd_unlock next) (\<lambda>_.
        bind (pnd_unlock prev) (\<lambda>_.
        Ret 1)))))
      else
        bind (spin_unlock (Global next)) (\<lambda>_.
        bind (spin_unlock (Global prev)) (\<lambda>_.
        bind (pnd_unlock next) (\<lambda>_.
        bind (pnd_unlock prev) (\<lambda>_.
        bind (kfree_node p_new_node) (\<lambda>_.
        rcu_list_numa_add w f p_list key))))))))))))))
    else Ret 0)"

fun rcu_list_numa_remove :: "nat \<Rightarrow> nat \<Rightarrow> ptr \<Rightarrow> val_t \<Rightarrow> int prog" where
  "rcu_list_numa_remove w 0 p_list key = Diverge"
| "rcu_list_numa_remove w (Suc f) p_list key =
    bind (find_pos w p_list key) (\<lambda>(prev, next, _).
    bind (rd next val) (\<lambda>v.
    if v = key then
      bind (rd next p_next) (\<lambda>n.
      bind (pnd_lock prev) (\<lambda>_.
      bind (pnd_lock next) (\<lambda>_.
      bind (pnd_lock n) (\<lambda>_.
      bind (spin_lock (Global prev)) (\<lambda>_.
      bind (spin_lock (Global next)) (\<lambda>_.
      bind (spin_lock (Global n)) (\<lambda>_.
      bind (any_removed [prev, next, n]) (\<lambda>gone.
      bind (if gone then Ret True else any_moved [(prev, next), (next, n)]) (\<lambda>conflict.
      if \<not> conflict then
        bind (rcu_assign_next prev n) (\<lambda>_.
        bind (set_removed next) (\<lambda>_.
        bind (rcu_free_node next) (\<lambda>_.
        bind (spin_unlock (Global n)) (\<lambda>_.
        bind (spin_unlock (Global next)) (\<lambda>_.
        bind (spin_unlock (Global prev)) (\<lambda>_.
        bind (pnd_unlock n) (\<lambda>_.
        bind (pnd_unlock next) (\<lambda>_.
        bind (pnd_unlock prev) (\<lambda>_.
        Ret 1)))))))))
      else
        bind (spin_unlock (Global n)) (\<lambda>_.
        bind (spin_unlock (Global next)) (\<lambda>_.
        bind (spin_unlock (Global prev)) (\<lambda>_.
        bind (pnd_unlock n) (\<lambda>_.
        bind (pnd_unlock next) (\<lambda>_.
        bind (pnd_unlock prev) (\<lambda>_.
        rcu_list_numa_remove w f p_list key)))))))))))))))
    else Ret 0))"

subsection \<open>The hash table\<close>

definition n_buckets_of :: "int prog" where
  "n_buckets_of = bind (get (\<lambda>t m. g_hash_list m)) (\<lambda>T.
     case T of None \<Rightarrow> Fault | Some H \<Rightarrow> Ret (n_buckets H))"

definition HASH_VALUE :: "val_t \<Rightarrow> int prog" where
  "HASH_VALUE key = bind n_buckets_of (\<lambda>n. if n = 0 then Fault else Ret (c_rem key n))"

text \<open>\<open>g_hash_list->buckets[i]\<close>: an index outside the array is a fault.\<close>

definition bucket_at :: "int \<Rightarrow> ptr prog" where
  "bucket_at i = bind (get (\<lambda>t m. g_hash_list m)) (\<lambda>T.
     case T of None \<Rightarrow> Fault
     | Some H \<Rightarrow> if 0 \<le> i \<and> i < int MAX_BUCKETS then Ret (buckets H i) else Fault)"

definition set_bucket :: "int \<Rightarrow> ptr \<Rightarrow> unit prog" where
  "set_bucket i l = atomic (\<lambda>t m. case g_hash_list m of
     None \<Rightarrow> None
   | Some H \<Rightarrow> if 0 \<le> i \<and> i < int MAX_BUCKETS
       then Some ((), m\<lparr>g_hash_list := Some (H\<lparr>buckets := (buckets H)(i := l)\<rparr>)\<rparr>) else None)"

definition with_bucket :: "(ptr \<Rightarrow> val_t \<Rightarrow> 'a prog) \<Rightarrow> val_t \<Rightarrow> 'a prog" where
  "with_bucket op key =
    bind (HASH_VALUE key) (\<lambda>hash.
    bind (bucket_at hash) (\<lambda>l.
    op l key))"

text \<open>
  \<open>rcu_new_hash_list\<close>: the table, then a list per bucket. The table is written in place of the
  global pointer, which \<open>rcu_hash_list_init\<close> sets from the result and no thread reads before.
\<close>

fun fill_buckets :: "nat \<Rightarrow> int \<Rightarrow> int \<Rightarrow> unit prog" where
  "fill_buckets 0 i n = Ret ()"
| "fill_buckets (Suc k) i n =
    (if i < n then
       bind rcu_new_list (\<lambda>l.
       bind (set_bucket i l) (\<lambda>_.
       fill_buckets k (i + 1) n))
     else Ret ())"

definition rcu_new_hash_list :: "int \<Rightarrow> unit prog" where
  "rcu_new_hash_list n =
    bind (get (\<lambda>t m. kalloc m [] (kcnt m))) (\<lambda>p_hash_list.
    if p_hash_list = NULL
    then atomic (\<lambda>t m. Some ((), m\<lparr>g_hash_list := None\<rparr>))
    else
      bind (atomic (\<lambda>t m. Some ((), m\<lparr>g_hash_list := Some \<lparr>n_buckets = n, buckets = (\<lambda>_. NULL)\<rparr>\<rparr>)))
        (\<lambda>_. fill_buckets (nat n) 0 n))"

definition rcu_hash_list_init :: "int \<Rightarrow> int prog" where
  "rcu_hash_list_init nr_buckets = bind (rcu_new_hash_list nr_buckets) (\<lambda>_. Ret 0)"

fun hash_size_loop :: "nat \<Rightarrow> nat \<Rightarrow> int \<Rightarrow> int \<Rightarrow> int prog" where
  "hash_size_loop w 0 i sz = Diverge"
| "hash_size_loop w (Suc k) i sz =
    bind n_buckets_of (\<lambda>n.
    if i < n then
      bind (bucket_at i) (\<lambda>l.
      bind (list_size w l) (\<lambda>s. hash_size_loop w k (i + 1) (sz + s)))
    else Ret sz)"

definition hash_list_size :: "nat \<Rightarrow> int prog" where
  "hash_list_size w = hash_size_loop w (Suc MAX_BUCKETS) 0 0"

definition rcu_hash_list_contains :: "nat \<Rightarrow> val_t \<Rightarrow> int prog" where
  "rcu_hash_list_contains w key =
    bind (with_bucket (rcu_list_contains w) key) (\<lambda>r. Ret (if r \<noteq> 0 then 0 else - ENOENT))"

definition rcu_hash_list_add :: "nat \<Rightarrow> val_t \<Rightarrow> int prog" where
  "rcu_hash_list_add w key = with_bucket (rcu_list_add w) key"

definition rcu_hash_list_try_add :: "nat \<Rightarrow> val_t \<Rightarrow> int prog" where
  "rcu_hash_list_try_add w key = with_bucket (rcu_list_try_add w) key"

definition rcu_hash_list_fg_add :: "nat \<Rightarrow> nat \<Rightarrow> val_t \<Rightarrow> int prog" where
  "rcu_hash_list_fg_add w f key = with_bucket (rcu_list_fg_add w f) key"

definition rcu_hash_list_numa_add :: "nat \<Rightarrow> nat \<Rightarrow> val_t \<Rightarrow> int prog" where
  "rcu_hash_list_numa_add w f key = with_bucket (rcu_list_numa_add w f) key"

definition rcu_hash_list_remove :: "nat \<Rightarrow> val_t \<Rightarrow> int prog" where
  "rcu_hash_list_remove w key = with_bucket (rcu_list_remove w) key"

definition rcu_hash_list_try_remove :: "nat \<Rightarrow> val_t \<Rightarrow> int prog" where
  "rcu_hash_list_try_remove w key = with_bucket (rcu_list_try_remove w) key"

definition rcu_hash_list_fg_remove :: "nat \<Rightarrow> nat \<Rightarrow> val_t \<Rightarrow> int prog" where
  "rcu_hash_list_fg_remove w f key = with_bucket (rcu_list_fg_remove w f) key"

definition rcu_hash_list_numa_remove :: "nat \<Rightarrow> nat \<Rightarrow> val_t \<Rightarrow> int prog" where
  "rcu_hash_list_numa_remove w f key = with_bucket (rcu_list_numa_remove w f) key"

subsection \<open>Destruction\<close>

text \<open>The loop frees \<open>iter\<close> and then reads \<open>iter->p_next\<close> for its next iteration.\<close>

fun destroy_loop :: "nat \<Rightarrow> ptr \<Rightarrow> ptr \<Rightarrow> unit prog" where
  "destroy_loop 0 p_list iter = Diverge"
| "destroy_loop (Suc w) p_list iter =
    (if iter \<noteq> NULL then
       bind (rd iter p_next) (\<lambda>q.
       bind (set_head p_list q) (\<lambda>_.
       bind (kfree_node iter) (\<lambda>_.
       bind (rd iter p_next) (\<lambda>iter.
       destroy_loop w p_list iter))))
     else Ret ())"

definition rcu_list_destroy :: "nat \<Rightarrow> ptr \<Rightarrow> unit prog" where
  "rcu_list_destroy w p_list = bind (head_of p_list) (\<lambda>h. destroy_loop w p_list h)"

fun hash_destroy_loop :: "nat \<Rightarrow> nat \<Rightarrow> int \<Rightarrow> unit prog" where
  "hash_destroy_loop w 0 i = Diverge"
| "hash_destroy_loop w (Suc k) i =
    bind n_buckets_of (\<lambda>n.
    if i < n then
      bind (bucket_at i) (\<lambda>l.
      bind (rcu_list_destroy w l) (\<lambda>_.
      bind (bucket_at i) (\<lambda>l.
      bind (kfree_list l) (\<lambda>_.
      hash_destroy_loop w k (i + 1)))))
    else Ret ())"

definition rcu_hash_list_destroy :: "nat \<Rightarrow> unit prog" where
  "rcu_hash_list_destroy w =
    bind (hash_destroy_loop w (Suc MAX_BUCKETS) 0) (\<lambda>_.
    atomic (\<lambda>t m. Some ((), m\<lparr>g_hash_list := None\<rparr>)))"

end
