(* ===== verification/ListHeap.thy ===== *)
theory ListHeap
  imports Logic RcuList
begin

text \<open>
  The structure all list variants share, as a property of machine states: published nodes are
  sorted along their next pointers and end in the sentinel, whether they are still in the list or
  already bypassed; the abstract content of a list; and the two structural steps, publishing a node
  between two neighbours and bypassing a node, with what they keep and how they change the content.
\<close>

subsection \<open>Well-formed memory\<close>

definition pub :: "mach \<Rightarrow> ptr \<Rightarrow> ptr \<Rightarrow> bool" where
  "pub m l p \<longleftrightarrow> mem m p \<noteq> None \<and> own m p = Pub l"

definition priv :: "mach \<Rightarrow> tid \<Rightarrow> ptr \<Rightarrow> bool" where
  "priv m t p \<longleftrightarrow> mem m p \<noteq> None \<and> own m p = Priv t"

definition rmvd :: "mach \<Rightarrow> ptr \<Rightarrow> bool" where
  "rmvd m p = (case mem m p of Some n \<Rightarrow> removed n \<noteq> 0 | None \<Rightarrow> False)"

definition wfm :: "mach \<Rightarrow> bool" where
  "wfm m \<longleftrightarrow> mem m NULL = None \<and> (\<forall>p. mem m p \<noteq> None \<longrightarrow> p \<in> set (live m)) \<and>
    (\<forall>l p. pub m l p \<longrightarrow> lists m l \<noteq> None \<and> LIST_VAL_MIN \<le> vl m p \<and>
       vl m p \<le> LIST_VAL_MAX \<and>
       (if nxt m p = NULL then vl m p = LIST_VAL_MAX
        else pub m l (nxt m p) \<and> vl m p < vl m (nxt m p))) \<and>
    (\<forall>l. lists m l \<noteq> None \<longrightarrow> pub m l (hd_of m l) \<and> vl m (hd_of m l) = LIST_VAL_MIN)"

definition in_chain :: "mach \<Rightarrow> ptr \<Rightarrow> ptr \<Rightarrow> bool" where
  "in_chain m l p \<longleftrightarrow> reach (nxt m) (hd_of m l) p"

definition ahead :: "mach \<Rightarrow> ptr \<Rightarrow> val_t \<Rightarrow> bool" where
  "ahead m p v \<longleftrightarrow> (\<exists>q. reach (nxt m) p q \<and> vl m q = v)"

definition key_ok :: "val_t \<Rightarrow> bool" where
  "key_ok v \<longleftrightarrow> LIST_VAL_MIN < v \<and> v < LIST_VAL_MAX"

definition contents :: "mach \<Rightarrow> ptr \<Rightarrow> val_t set" where
  "contents m l = {v. key_ok v \<and> ahead m (hd_of m l) v}"

lemma pub_mem: "pub m l p \<Longrightarrow> \<exists>n. mem m p = Some n \<and> val n = vl m p \<and> p_next n = nxt m p"
  by (auto simp: pub_def vl_def nxt_def)

lemma pub_fun: "pub m l p \<Longrightarrow> pub m l' p \<Longrightarrow> l = l'"
  by (simp add: pub_def)

lemma pub_not_priv: "pub m l p \<Longrightarrow> \<not> priv m t p"
  by (simp add: pub_def priv_def)

lemma pub_not_null: "wfm m \<Longrightarrow> pub m l p \<Longrightarrow> p \<noteq> NULL"
  by (auto simp: wfm_def pub_def)

lemma wf_hd: "wfm m \<Longrightarrow> lists m l \<noteq> None \<Longrightarrow> pub m l (hd_of m l) \<and> vl m (hd_of m l) = LIST_VAL_MIN"
  by (auto simp: wfm_def)

lemma wf_pub_list: "wfm m \<Longrightarrow> pub m l p \<Longrightarrow> lists m l \<noteq> None"
  unfolding wfm_def by blast

lemma wf_next: "wfm m \<Longrightarrow> pub m l p \<Longrightarrow> nxt m p \<noteq> NULL \<Longrightarrow>
    pub m l (nxt m p) \<and> vl m p < vl m (nxt m p)"
  unfolding wfm_def by presburger

lemma wf_tail: "wfm m \<Longrightarrow> pub m l p \<Longrightarrow> vl m p < LIST_VAL_MAX \<Longrightarrow> nxt m p \<noteq> NULL"
  unfolding wfm_def by fastforce

lemma wf_reach:
  assumes "wfm m" "pub m l p" "reach (nxt m) p q"
  shows "pub m l q \<and> (q = p \<or> vl m p < vl m q)"
  using assms(3,2)
proof (induction rule: reach.induct)
  case (here p)
  then show ?case by simp
next
  case (there p q)
  then show ?case using wf_next[OF assms(1), of l p] by force
qed

lemma wf_reach_val: "wfm m \<Longrightarrow> pub m l p \<Longrightarrow> reach (nxt m) p q \<Longrightarrow> vl m p \<le> vl m q"
  using wf_reach by force

lemma wf_max: "wfm m \<Longrightarrow> pub m l p \<Longrightarrow> vl m p \<le> LIST_VAL_MAX"
  unfolding wfm_def by blast

lemma wf_unique:
  assumes "wfm m" "pub m l p" "reach (nxt m) p q" "reach (nxt m) p r" "vl m q = vl m r"
  shows "q = r"
proof -
  have q: "pub m l q" and r: "pub m l r" using wf_reach assms by blast+
  from reach_linear[OF assms(3,4)] show ?thesis
    using wf_reach[OF assms(1) q] wf_reach[OF assms(1) r] assms(5) by fastforce
qed

subsection \<open>What lies ahead of a node\<close>

lemma ahead_self: "ahead m p (vl m p)"
  by (auto simp: ahead_def)

lemma ahead_less: "wfm m \<Longrightarrow> pub m l p \<Longrightarrow> v < vl m p \<Longrightarrow> \<not> ahead m p v"
  using wf_reach_val by (force simp: ahead_def)

lemma ahead_next:
  assumes "wfm m" "pub m l p" "v \<noteq> vl m p" "nxt m p \<noteq> NULL"
  shows "ahead m (nxt m p) v = ahead m p v"
  using assms by (auto simp: ahead_def reach_cases[of _ p])

lemma ahead_eq: "wfm m \<Longrightarrow> pub m l p \<Longrightarrow> v \<le> vl m p \<Longrightarrow> ahead m p v \<longleftrightarrow> vl m p = v"
  using ahead_less[of m l p v] ahead_self[of m p] by (cases "v = vl m p") auto

lemma contents_ahead: "key_ok v \<Longrightarrow> v \<in> contents m l \<longleftrightarrow> ahead m (hd_of m l) v"
  by (simp add: contents_def)

subsection \<open>Histories\<close>

fun upd_ok :: "val_t set \<Rightarrow> upd \<Rightarrow> bool" where
  "upd_ok S (Ins v) \<longleftrightarrow> v \<notin> S"
| "upd_ok S (Del v) \<longleftrightarrow> v \<in> S"

fun upd_apply :: "val_t set \<Rightarrow> upd \<Rightarrow> val_t set" where
  "upd_apply S (Ins v) = insert v S"
| "upd_apply S (Del v) = S - {v}"

text \<open>A sequential history: every insertion finds its key absent, every removal finds it present.\<close>

fun legal :: "val_t set \<Rightarrow> upd list \<Rightarrow> bool" where
  "legal S [] = True"
| "legal S (u # us) \<longleftrightarrow> upd_ok S u \<and> legal (upd_apply S u) us"

definition replay :: "val_t set \<Rightarrow> upd list \<Rightarrow> val_t set" where
  "replay S us = foldl upd_apply S us"

lemma legal_snoc: "legal S (us @ [u]) \<longleftrightarrow> legal S us \<and> upd_ok (replay S us) u"
  by (induction us arbitrary: S) (auto simp: replay_def)

lemma replay_snoc: "replay S (us @ [u]) = upd_apply (replay S us) u"
  by (simp add: replay_def)

definition upds :: "ptr \<Rightarrow> (tid \<times> ptr \<times> upd) list \<Rightarrow> upd list" where
  "upds l h = map (snd \<circ> snd) (filter (\<lambda>e. fst (snd e) = l) h)"

definition mine :: "tid \<Rightarrow> (tid \<times> ptr \<times> upd) list \<Rightarrow> (ptr \<times> upd) list" where
  "mine t h = map snd (filter (\<lambda>e. fst e = t) h)"

fun upd_key :: "upd \<Rightarrow> val_t" where
  "upd_key (Ins v) = v"
| "upd_key (Del v) = v"

text \<open>The part of a log about certain keys of certain lists.\<close>

definition touch :: "(ptr \<times> val_t) set \<Rightarrow> (tid \<times> ptr \<times> upd) list \<Rightarrow> (tid \<times> ptr \<times> upd) list" where
  "touch K h = filter (\<lambda>e. (fst (snd e), upd_key (snd (snd e))) \<in> K) h"

lemma touch_snoc: "touch K (h @ [(t, l, u)]) = touch K h @ (if (l, upd_key u) \<in> K then [(t, l, u)] else [])"
  by (simp add: touch_def)

lemma touch_mono: "touch K h = touch K h' \<Longrightarrow> K' \<subseteq> K \<Longrightarrow> touch K' h = touch K' h'"
proof -
  assume a: "touch K h = touch K h'" "K' \<subseteq> K"
  have "touch K' g = touch K' (touch K g)" for g
    using a(2) unfolding touch_def filter_filter by (intro filter_cong) auto
  then show ?thesis using a(1) by metis
qed

text \<open>Whether a key is in the content depends on the log of that key alone.\<close>

lemma replay_key: "k \<in> replay S us \<longleftrightarrow> k \<in> replay S (filter (\<lambda>u. upd_key u = k) us)"
proof (induction us arbitrary: S rule: rev_induct)
  case (snoc u us)
  then show ?case by (cases u) (auto simp: replay_def)
qed (simp add: replay_def)

lemma replay_touch:
  assumes "touch K h = touch K h'" "(l, k) \<in> K"
  shows "k \<in> replay {} (upds l h) \<longleftrightarrow> k \<in> replay {} (upds l h')"
proof -
  have "filter (\<lambda>u. upd_key u = k) (upds l g) = filter (\<lambda>u. upd_key u = k) (upds l (touch K g))" for g
    using assms(2) by (induction g) (auto simp: upds_def touch_def)
  then show ?thesis using assms(1) replay_key by metis
qed

lemma upds_snoc: "upds l (h @ [(t, l', u)]) = upds l h @ (if l' = l then [u] else [])"
  by (simp add: upds_def)

lemma mine_snoc: "mine s (h @ [(t, l, u)]) = mine s h @ (if t = s then [(l, u)] else [])"
  by (simp add: mine_def)

definition hist_ok :: "mach \<Rightarrow> bool" where
  "hist_ok m \<longleftrightarrow> (\<forall>l. lists m l \<noteq> None \<longrightarrow>
     legal {} (upds l (hist m)) \<and> replay {} (upds l (hist m)) = contents m l)"

text \<open>What the code relies on outside it: allocation succeeds with an unused address, and the
  machine has no more NUMA nodes than the lock arrays have slots, each thread running on one of them.\<close>

definition env_ok :: "mach \<Rightarrow> bool" where
  "env_ok m \<longleftrightarrow> (\<forall>L k. kalloc m L k \<noteq> NULL \<and> kalloc m L k \<notin> set L) \<and>
     (\<forall>i \<in> set (nodes_with_cpus m). i < NR_NUMA_NODES) \<and> (\<forall>t. node_of m t \<in> set (nodes_with_cpus m))"

definition inv :: "mach \<Rightarrow> bool" where
  "inv m \<longleftrightarrow> wfm m \<and> hist_ok m \<and> env_ok m"

lemma fresh_node_ok: "wfm m \<Longrightarrow> env_ok m \<Longrightarrow> fresh_node m \<noteq> NULL \<and> mem m (fresh_node m) = None"
  by (auto simp: fresh_node_def Let_def wfm_def env_ok_def)

end
