(* ===== verification/Steps.thy ===== *)
theory Steps
  imports ListHeap
begin

text \<open>
  What one memory step does to the structure of ListHeap: steps that leave the published nodes
  alone, the publication of a node and the bypass of a node.
\<close>

subsection \<open>Steps that leave the published structure alone\<close>

definition frame_eq :: "mach \<Rightarrow> mach \<Rightarrow> bool" where
  "frame_eq m m' \<longleftrightarrow> (\<forall>l p. pub m' l p = pub m l p) \<and>
     (\<forall>l p. pub m l p \<longrightarrow> nxt m' p = nxt m p \<and> vl m' p = vl m p) \<and>
     (\<forall>l. hd_of m' l = hd_of m l \<and> (lists m' l = None) = (lists m l = None)) \<and>
     hist m' = hist m"

definition heap_ok :: "mach \<Rightarrow> bool" where
  "heap_ok m \<longleftrightarrow> mem m NULL = None \<and> (\<forall>p. mem m p \<noteq> None \<longrightarrow> p \<in> set (live m))"

lemma wfm_heap_ok: "wfm m \<Longrightarrow> heap_ok m"
  by (simp add: wfm_def heap_ok_def)

lemma frame_wfm:
  assumes "wfm m" "frame_eq m m'" "heap_ok m'"
  shows "wfm m'"
proof -
  have "lists m' l \<noteq> None \<and> LIST_VAL_MIN \<le> vl m' p \<and> vl m' p \<le> LIST_VAL_MAX \<and>
       (if nxt m' p = NULL then vl m' p = LIST_VAL_MAX
        else pub m' l (nxt m' p) \<and> vl m' p < vl m' (nxt m' p))" if "pub m' l p" for l p
  proof -
    have p: "pub m l p" and e: "nxt m' p = nxt m p" "vl m' p = vl m p"
      using that assms(2) by (auto simp: frame_eq_def)
    show ?thesis
    proof (cases "nxt m p = NULL")
      case True
      then show ?thesis using p e assms(1,2) unfolding wfm_def frame_eq_def by force
    next
      case False
      then have "pub m l (nxt m p) \<and> vl m p < vl m (nxt m p)"
        using wf_next[OF assms(1) p] by simp
      then show ?thesis using p e False assms(1,2) unfolding wfm_def frame_eq_def by force
    qed
  qed
  moreover have "pub m' l (hd_of m' l) \<and> vl m' (hd_of m' l) = LIST_VAL_MIN"
    if "lists m' l \<noteq> None" for l
    using wf_hd[OF assms(1), of l] that assms(2) unfolding frame_eq_def by metis
  ultimately show ?thesis using assms(3) by (auto simp: wfm_def heap_ok_def)
qed

lemma frame_reach:
  assumes "wfm m" "frame_eq m m'" "pub m l p"
  shows "reach (nxt m') p q \<longleftrightarrow> reach (nxt m) p q"
proof
  assume "reach (nxt m) p q"
  then show "reach (nxt m') p q"
  proof (rule reach_cong)
    fix x assume "reach (nxt m) p x"
    then have "pub m l x" using wf_reach[OF assms(1,3)] by blast
    then show "nxt m' x = nxt m x" using assms(2) unfolding frame_eq_def by blast
  qed
next
  assume "reach (nxt m') p q"
  then have "pub m l p \<longrightarrow> reach (nxt m) p q"
  proof (induction rule: reach.induct)
    case (there p q)
    show ?case
    proof
      assume p: "pub m l p"
      then have e: "nxt m' p = nxt m p" using assms(2) by (auto simp: frame_eq_def)
      then have "pub m l (nxt m p)" using wf_next[OF assms(1) p] there.hyps(1) by simp
      then show "reach (nxt m) p q" using there e by (auto intro: reach.there)
    qed
  qed simp
  then show "reach (nxt m) p q" using assms(3) by blast
qed

lemma frame_ahead: "wfm m \<Longrightarrow> frame_eq m m' \<Longrightarrow> pub m l p \<Longrightarrow> ahead m' p v = ahead m p v"
  using frame_reach[of m m' l p] wf_reach[of m l p] by (fastforce simp: ahead_def frame_eq_def)

lemma frame_in_chain:
  "wfm m \<Longrightarrow> frame_eq m m' \<Longrightarrow> lists m l \<noteq> None \<Longrightarrow> in_chain m' l p = in_chain m l p"
  using frame_reach[of m m' l "hd_of m l"] wf_hd[of m l] by (simp add: in_chain_def frame_eq_def)

lemma frame_contents:
  "wfm m \<Longrightarrow> frame_eq m m' \<Longrightarrow> lists m l \<noteq> None \<Longrightarrow> contents m' l = contents m l"
  using frame_ahead[of m m' l "hd_of m l"] wf_hd[of m l] by (simp add: contents_def frame_eq_def)

lemma frame_hist_ok: "wfm m \<Longrightarrow> frame_eq m m' \<Longrightarrow> hist_ok m \<Longrightarrow> hist_ok m'"
  using frame_contents[of m m'] by (auto simp: hist_ok_def frame_eq_def)

subsection \<open>The pointer write of \<open>rcu_assign_pointer\<close>\<close>

lemma assign_next_proj:
  assumes "mem m a = Some n"
  shows "nxt (assign_next t a x m) = (nxt m)(a := x)"
    and "vl (assign_next t a x m) = vl m"
    and "rmvd (assign_next t a x m) = rmvd m"
    and "lists (assign_next t a x m) = lists m"
    and "hd_of (assign_next t a x m) = hd_of m"
    and "live (assign_next t a x m) = live m"
    and "mem (assign_next t a x m) = (mem m)(a := Some (n\<lparr>p_next := x\<rparr>))"
    and "kalloc (assign_next t a x m) = kalloc m"
    and "nodes_with_cpus (assign_next t a x m) = nodes_with_cpus m"
    and "node_of (assign_next t a x m) = node_of m"
    and "g_hash_list (assign_next t a x m) = g_hash_list m"
    and "rcu_nest (assign_next t a x m) = rcu_nest m"
  using assms by (auto simp: assign_next_def set_node_def nxt_def vl_def rmvd_def hd_of_def
      fun_eq_iff Let_def split: owner.splits)

text \<open>Publishing the private node \<open>x\<close> of thread \<open>t\<close> between \<open>a\<close> and its successor.\<close>

definition can_link :: "tid \<Rightarrow> ptr \<Rightarrow> ptr \<Rightarrow> ptr \<Rightarrow> mach \<Rightarrow> bool" where
  "can_link t l a x m \<longleftrightarrow> wfm m \<and> pub m l a \<and> in_chain m l a \<and> priv m t x \<and>
     nxt m x = nxt m a \<and> nxt m a \<noteq> NULL \<and> vl m a < vl m x \<and> vl m x < vl m (nxt m a)"

lemma can_link_mem: "can_link t l a x m \<Longrightarrow> \<exists>n. mem m a = Some n"
  by (auto simp: can_link_def pub_def)

lemma can_link_key: "can_link t l a x m \<Longrightarrow> key_ok (vl m x)"
  using wf_next[of m l a] wf_max[of m l "nxt m a"]
  by (force simp: can_link_def key_ok_def wfm_def)

lemma link_ghost:
  assumes "can_link t l a x m"
  shows "own (assign_next t a x m) = (own m)(x := Pub l)"
    and "hist (assign_next t a x m) = hist m @ [(t, l, Ins (vl m x))]"
  using assms by (auto simp: can_link_def pub_def priv_def assign_next_def set_node_def Let_def)

lemma link_pub:
  assumes "can_link t l a x m"
  shows "pub (assign_next t a x m) l' p \<longleftrightarrow> pub m l' p \<or> (p = x \<and> l' = l)"
proof -
  obtain n where n: "mem m a = Some n" using can_link_mem[OF assms] by blast
  have "mem m x \<noteq> None" "own m x = Priv t" using assms by (auto simp: can_link_def priv_def)
  then show ?thesis
    using n by (auto simp: pub_def assign_next_proj[OF n] link_ghost[OF assms])
qed

lemma link_reach:
  assumes "can_link t l a x m" "p \<noteq> x"
  shows "reach (nxt (assign_next t a x m)) p q \<longleftrightarrow>
    reach (nxt m) p q \<or> (q = x \<and> reach (nxt m) p a)"
proof -
  obtain n where n: "mem m a = Some n" using can_link_mem[OF assms(1)] by blast
  have x: "x \<noteq> a" "x \<noteq> NULL" "nxt m x = nxt m a" "nxt m a \<noteq> NULL"
    using assms(1) by (auto simp: can_link_def pub_def priv_def wfm_def)
  let ?nx = "nxt (assign_next t a x m)"
  have nx: "?nx a = x" "?nx x = nxt m a" "\<And>z. z \<noteq> a \<Longrightarrow> z \<noteq> x \<Longrightarrow> ?nx z = nxt m z"
    using x by (auto simp: assign_next_proj[OF n])
  have mono: "reach (nxt m) p q \<Longrightarrow> reach ?nx p q" for p q
    by (rule reach_insert_mono[of "nxt m" p q ?nx a x]) (use nx x in auto)
  have "reach ?nx p x" if "reach (nxt m) p a"
    using reach_snoc[OF mono[OF that]] nx(1) x(2) by simp
  moreover have "reach (nxt m) p q \<or> (q = x \<and> reach (nxt m) p a)" if "reach ?nx p q"
    by (rule reach_insert_inv[of ?nx p q a x]) (use nx x that in auto)
  ultimately show ?thesis using mono by blast
qed

lemma link_ahead:
  assumes "can_link t l a x m" "pub m l' p"
  shows "ahead (assign_next t a x m) p v \<longleftrightarrow>
    ahead m p v \<or> (v = vl m x \<and> reach (nxt m) p a)"
proof -
  have "p \<noteq> x" using assms by (auto simp: can_link_def pub_def priv_def)
  then show ?thesis
    using link_reach[OF assms(1)] can_link_mem[OF assms(1)]
    by (auto simp: ahead_def assign_next_proj)
qed

text \<open>The key is absent before: it lies strictly between two neighbours of the list.\<close>

lemma link_absent:
  assumes "can_link t l a x m"
  shows "vl m x \<notin> contents m l"
proof
  assume "vl m x \<in> contents m l"
  then obtain q where q: "reach (nxt m) (hd_of m l) q" "vl m q = vl m x"
    by (auto simp: contents_def ahead_def)
  have w: "wfm m" "pub m l a" "reach (nxt m) (hd_of m l) a" "nxt m a \<noteq> NULL"
      "vl m a < vl m x" "vl m x < vl m (nxt m a)"
    using assms by (auto simp: can_link_def in_chain_def)
  have pq: "pub m l q"
    using wf_reach[OF w(1) _ q(1)] wf_hd[OF w(1) wf_pub_list[OF w(1,2)]] by blast
  consider "reach (nxt m) a q" | "reach (nxt m) q a" using reach_linear[OF w(3) q(1)] by blast
  then show False
  proof cases
    case 1
    then have "q = a \<or> reach (nxt m) (nxt m a) q" by (auto elim: reach.cases)
    then show False
      using q(2) w wf_reach_val[OF w(1), of l "nxt m a" q] wf_next[OF w(1,2,4)] by auto
  next
    case 2
    then show False using wf_reach_val[OF w(1) pq 2] q(2) w(5) by simp
  qed
qed

lemma link_contents:
  assumes "can_link t l a x m" "lists m l' \<noteq> None"
  shows "contents (assign_next t a x m) l' =
    (if l' = l then insert (vl m x) (contents m l) else contents m l')"
proof -
  obtain n where n: "mem m a = Some n" using can_link_mem[OF assms(1)] by blast
  have w: "wfm m" "pub m l a" "in_chain m l a" using assms by (auto simp: can_link_def)
  have h: "pub m l' (hd_of m l')" using wf_hd[OF w(1) assms(2)] by blast
  have "reach (nxt m) (hd_of m l') a \<longleftrightarrow> l' = l"
    using wf_reach[OF w(1) h] w(2,3) by (auto simp: in_chain_def pub_def)
  then show ?thesis
    using link_ahead[OF assms(1) h] can_link_key[OF assms(1)]
    by (auto simp: contents_def assign_next_proj[OF n])
qed

lemma link_wfm:
  assumes "can_link t l a x m"
  shows "wfm (assign_next t a x m)" (is "wfm ?m")
proof -
  obtain n where n: "mem m a = Some n" using can_link_mem[OF assms] by blast
  have w: "wfm m" "pub m l a" "priv m t x" "nxt m x = nxt m a" "nxt m a \<noteq> NULL"
      "vl m a < vl m x" "vl m x < vl m (nxt m a)"
    using assms by (auto simp: can_link_def)
  have ax: "x \<noteq> a" "x \<noteq> NULL" using w by (auto simp: pub_def priv_def wfm_def)
  have na: "pub m l (nxt m a)" using wf_next[OF w(1,2,5)] by blast
  have k: "LIST_VAL_MIN \<le> vl m x" "vl m x \<le> LIST_VAL_MAX"
    using can_link_key[OF assms] by (auto simp: key_ok_def)
  have P: "lists ?m l' \<noteq> None \<and> LIST_VAL_MIN \<le> vl ?m p \<and> vl ?m p \<le> LIST_VAL_MAX \<and>
       (if nxt ?m p = NULL then vl ?m p = LIST_VAL_MAX
        else pub ?m l' (nxt ?m p) \<and> vl ?m p < vl ?m (nxt ?m p))" if "pub ?m l' p" for l' p
  proof (cases "p = x")
    case True
    then have "l' = l" using that w(3) by (auto simp: link_pub[OF assms] dest: pub_not_priv)
    then show ?thesis
      using True w ax na k wf_pub_list[OF w(1,2)]
      by (simp add: assign_next_proj[OF n] link_pub[OF assms])
  next
    case False
    then have p: "pub m l' p" using that by (simp add: link_pub[OF assms])
    show ?thesis
    proof (cases "p = a")
      case True
      then have "l' = l" using p w(2) by (auto dest: pub_fun)
      then show ?thesis
        using True w ax k p unfolding assign_next_proj[OF n] link_pub[OF assms] wfm_def by force
    next
      case False
      show ?thesis
        using False p w(1) unfolding assign_next_proj[OF n] link_pub[OF assms] wfm_def by simp
    qed
  qed
  have "pub ?m l' (hd_of ?m l') \<and> vl ?m (hd_of ?m l') = LIST_VAL_MIN" if "lists ?m l' \<noteq> None" for l'
    using that wf_hd[OF w(1), of l'] by (simp add: assign_next_proj[OF n] link_pub[OF assms])
  moreover have "heap_ok ?m"
    using wfm_heap_ok[OF w(1)] n w(2) by (auto simp: heap_ok_def assign_next_proj[OF n])
  ultimately show ?thesis using P by (auto simp: wfm_def heap_ok_def)
qed

lemma link_hist_ok:
  assumes "can_link t l a x m" "hist_ok m"
  shows "hist_ok (assign_next t a x m)"
proof -
  obtain n where n: "mem m a = Some n" using can_link_mem[OF assms(1)] by blast
  show ?thesis
    using assms(2) link_absent[OF assms(1)] link_contents[OF assms(1)]
    by (auto simp: hist_ok_def assign_next_proj[OF n] link_ghost[OF assms(1)] upds_snoc
        legal_snoc replay_snoc)
qed

lemma link_in_chain:
  assumes "can_link t l a x m" "in_chain m l' p"
  shows "in_chain (assign_next t a x m) l' p"
proof -
  obtain n where n: "mem m a = Some n" using can_link_mem[OF assms(1)] by blast
  have "nxt m x = nxt m a" "x \<noteq> NULL" "x \<noteq> a"
    using assms(1) by (auto simp: can_link_def pub_def priv_def wfm_def)
  then show ?thesis
    using assms(2) reach_insert_mono[of "nxt m" _ _ "nxt (assign_next t a x m)" a x]
    by (auto simp: in_chain_def assign_next_proj[OF n])
qed

lemma link_in_chain_iff:
  assumes "can_link t l a x m" "pub m l' p"
  shows "in_chain (assign_next t a x m) l' p = in_chain m l' p"
proof -
  obtain n where n: "mem m a = Some n" using can_link_mem[OF assms(1)] by blast
  have w: "wfm m" "priv m t x" using assms(1) by (auto simp: can_link_def)
  have "hd_of m l' \<noteq> x" "p \<noteq> x"
    using wf_hd[OF w(1) wf_pub_list[OF w(1) assms(2)]] assms(2) w(2) by (auto simp: pub_def priv_def)
  then show ?thesis
    using link_reach[OF assms(1)] by (simp add: in_chain_def assign_next_proj[OF n])
qed

lemma link_in_chain_new: "can_link t l a x m \<Longrightarrow> in_chain (assign_next t a x m) l x"
proof -
  assume c: "can_link t l a x m"
  obtain n where n: "mem m a = Some n" using can_link_mem[OF c] by blast
  have w: "wfm m" "priv m t x" "pub m l a" "in_chain m l a" using c by (auto simp: can_link_def)
  have "hd_of m l \<noteq> x"
    using wf_hd[OF w(1) wf_pub_list[OF w(1,3)]] w(2) by (auto simp: pub_def priv_def)
  then show ?thesis
    using link_reach[OF c] w(4) by (simp add: in_chain_def assign_next_proj[OF n])
qed

text \<open>Bypassing the successor \<open>y\<close> of \<open>a\<close>.\<close>

definition can_unlink :: "ptr \<Rightarrow> ptr \<Rightarrow> mach \<Rightarrow> bool" where
  "can_unlink l a m \<longleftrightarrow> wfm m \<and> pub m l a \<and> in_chain m l a \<and>
     nxt m a \<noteq> NULL \<and> nxt m (nxt m a) \<noteq> NULL"

abbreviation unlink :: "tid \<Rightarrow> ptr \<Rightarrow> mach \<Rightarrow> mach" where
  "unlink t a m \<equiv> assign_next t a (nxt m (nxt m a)) m"

lemma can_unlinkD:
  assumes "can_unlink l a m"
  shows "wfm m" "pub m l a" "in_chain m l a" "nxt m a \<noteq> NULL" "nxt m (nxt m a) \<noteq> NULL"
    and "pub m l (nxt m a)" "pub m l (nxt m (nxt m a))"
    and "vl m a < vl m (nxt m a)" "vl m (nxt m a) < vl m (nxt m (nxt m a))"
    and "in_chain m l (nxt m a)" "nxt m a \<noteq> a" "key_ok (vl m (nxt m a))"
proof -
  show b: "wfm m" "pub m l a" "in_chain m l a" "nxt m a \<noteq> NULL" "nxt m (nxt m a) \<noteq> NULL"
    using assms by (auto simp: can_unlink_def)
  show y: "pub m l (nxt m a)" "vl m a < vl m (nxt m a)" using wf_next[OF b(1,2,4)] by auto
  show z: "pub m l (nxt m (nxt m a))" "vl m (nxt m a) < vl m (nxt m (nxt m a))"
    using wf_next[OF b(1) y(1) b(5)] by auto
  show "in_chain m l (nxt m a)" using b(3,4) by (auto simp: in_chain_def intro: reach_snoc)
  show "nxt m a \<noteq> a" using y(2) by auto
  show "key_ok (vl m (nxt m a))"
    using wf_max[OF b(1) z(1)] z(2) y(2) b(1,2) by (force simp: key_ok_def wfm_def)
qed

lemma unlink_ghost:
  assumes "can_unlink l a m"
  shows "own (unlink t a m) = own m"
    and "hist (unlink t a m) = hist m @ [(t, l, Del (vl m (nxt m a)))]"
  using can_unlinkD[OF assms]
  by (auto simp: pub_def assign_next_def set_node_def Let_def nxt_def split: option.splits)

lemma unlink_pub:
  assumes "can_unlink l a m"
  shows "pub (unlink t a m) l' p = pub m l' p"
proof -
  obtain n where n: "mem m a = Some n" using can_unlinkD(2)[OF assms] by (auto simp: pub_def)
  show ?thesis by (auto simp: pub_def assign_next_proj[OF n] unlink_ghost[OF assms] n)
qed

lemma unlink_reach_mono:
  assumes "can_unlink l a m" "reach (nxt m) p q" "q \<noteq> nxt m a"
  shows "reach (nxt (unlink t a m)) p q"
proof -
  note u = can_unlinkD[OF assms(1)]
  obtain n where n: "mem m a = Some n" using u(2) by (auto simp: pub_def)
  show ?thesis
    by (rule reach_bypass_mono[OF assms(2) refl refl u(5) assms(3) u(11)])
      (auto simp: assign_next_proj[OF n])
qed

lemma unlink_reach_inv:
  assumes "can_unlink l a m" "reach (nxt (unlink t a m)) p q"
  shows "reach (nxt m) p q"
proof -
  note u = can_unlinkD[OF assms(1)]
  obtain n where n: "mem m a = Some n" using u(2) by (auto simp: pub_def)
  show ?thesis
    by (rule reach_bypass_inv[OF assms(2) refl refl u(5,4)]) (auto simp: assign_next_proj[OF n])
qed

lemma unlink_wfm:
  assumes "can_unlink l a m"
  shows "wfm (unlink t a m)" (is "wfm ?m")
proof -
  note u = can_unlinkD[OF assms]
  obtain n where n: "mem m a = Some n" using u(2) by (auto simp: pub_def)
  have P: "lists ?m l' \<noteq> None \<and> LIST_VAL_MIN \<le> vl ?m p \<and> vl ?m p \<le> LIST_VAL_MAX \<and>
       (if nxt ?m p = NULL then vl ?m p = LIST_VAL_MAX
        else pub ?m l' (nxt ?m p) \<and> vl ?m p < vl ?m (nxt ?m p))" if "pub ?m l' p" for l' p
  proof -
    have p: "pub m l' p" using that by (simp add: unlink_pub[OF assms])
    show ?thesis
    proof (cases "p = a")
      case True
      then have "l' = l" using p u(2) by (auto dest: pub_fun)
      then show ?thesis
        using True u p unfolding assign_next_proj[OF n] unlink_pub[OF assms] wfm_def by force
    next
      case False
      then show ?thesis
        using p u(1) unfolding assign_next_proj[OF n] unlink_pub[OF assms] wfm_def by simp
    qed
  qed
  have "pub ?m l' (hd_of ?m l') \<and> vl ?m (hd_of ?m l') = LIST_VAL_MIN" if "lists ?m l' \<noteq> None" for l'
    using that wf_hd[OF u(1), of l'] by (simp add: assign_next_proj[OF n] unlink_pub[OF assms])
  moreover have "heap_ok ?m"
    using wfm_heap_ok[OF u(1)] n by (auto simp: heap_ok_def assign_next_proj[OF n])
  ultimately show ?thesis using P by (auto simp: wfm_def heap_ok_def)
qed

lemma unlink_in_chain:
  "can_unlink l a m \<Longrightarrow> in_chain m l' p \<Longrightarrow> p \<noteq> nxt m a \<Longrightarrow> in_chain (unlink t a m) l' p"
  using unlink_reach_mono[of l a m "hd_of m l'" p t] can_unlinkD(2)[of l a m]
  by (auto simp: in_chain_def pub_def assign_next_proj)

lemma unlink_in_chain_iff:
  "can_unlink l a m \<Longrightarrow> p \<noteq> nxt m a \<Longrightarrow> in_chain (unlink t a m) l' p = in_chain m l' p"
  using unlink_in_chain[of l a m l' p t] unlink_reach_inv[of l a m t "hd_of m l'" p]
    can_unlinkD(2)[of l a m]
  by (auto simp: in_chain_def pub_def assign_next_proj)

text \<open>The bypassed node is out of the list: its value lies between two neighbours.\<close>

lemma unlink_gone:
  assumes "can_unlink l a m"
  shows "\<not> in_chain (unlink t a m) l (nxt m a)"
proof
  let ?m = "unlink t a m" and ?y = "nxt m a"
  note u = can_unlinkD[OF assms]
  obtain n where n: "mem m a = Some n" using u(2) by (auto simp: pub_def)
  have w: "wfm ?m" by (rule unlink_wfm[OF assms])
  assume c: "in_chain ?m l ?y"
  have a: "in_chain ?m l a" using unlink_in_chain[OF assms u(3)] u(11) by metis
  have pa: "pub ?m l a" and py: "pub ?m l ?y" using u by (auto simp: unlink_pub[OF assms])
  have vs: "vl ?m = vl m" and nx: "nxt ?m a = nxt m ?y" by (auto simp: assign_next_proj[OF n])
  have pz: "pub ?m l (nxt m ?y)" using u by (auto simp: unlink_pub[OF assms])
  consider "reach (nxt ?m) a ?y" | "reach (nxt ?m) ?y a"
    using reach_linear[OF a[unfolded in_chain_def] c[unfolded in_chain_def]] by blast
  then show False
  proof cases
    case 1
    then have "reach (nxt ?m) (nxt m ?y) ?y" using u(11) nx by (auto elim: reach.cases)
    then show False using wf_reach_val[OF w pz] vs u(9) by fastforce
  next
    case 2
    then show False using wf_reach_val[OF w py 2] vs u(8) by simp
  qed
qed

lemma unlink_ahead:
  assumes "can_unlink l a m" "pub m l' p" "(l', v) \<noteq> (l, vl m (nxt m a))"
  shows "ahead (unlink t a m) p v = ahead m p v"
proof -
  note u = can_unlinkD[OF assms(1)]
  obtain n where n: "mem m a = Some n" using u(2) by (auto simp: pub_def)
  have "q \<noteq> nxt m a" if "reach (nxt m) p q" "vl m q = v" for q
    using wf_reach[OF u(1) assms(2) that(1)] that(2) assms(3) u(6) by (auto dest: pub_fun)
  then show ?thesis
    using unlink_reach_mono[OF assms(1), of p _ t] unlink_reach_inv[OF assms(1), of t p]
    by (auto simp: ahead_def assign_next_proj[OF n])
qed

lemma unlink_contents:
  assumes "can_unlink l a m" "lists m l' \<noteq> None"
  shows "contents (unlink t a m) l' =
    (if l' = l then contents m l - {vl m (nxt m a)} else contents m l')"
proof -
  let ?m = "unlink t a m"
  note u = can_unlinkD[OF assms(1)]
  obtain n where n: "mem m a = Some n" using u(2) by (auto simp: pub_def)
  have h: "pub m l' (hd_of m l')" using wf_hd[OF u(1) assms(2)] by blast
  have hd: "hd_of ?m = hd_of m" by (simp add: assign_next_proj[OF n])
  have "\<not> ahead ?m (hd_of m l) (vl m (nxt m a))"
  proof
    assume "ahead ?m (hd_of m l) (vl m (nxt m a))"
    then obtain q where q: "reach (nxt ?m) (hd_of m l) q" "vl m q = vl m (nxt m a)"
      by (auto simp: ahead_def assign_next_proj[OF n])
    have "pub m l (hd_of m l)" using wf_hd[OF u(1) wf_pub_list[OF u(1,2)]] by blast
    then have "q = nxt m a"
      using wf_unique[OF u(1) _ unlink_reach_inv[OF assms(1) q(1)]] u(10) q(2)
      by (auto simp: in_chain_def)
    then show False using q(1) unlink_gone[OF assms(1), of t] hd by (simp add: in_chain_def)
  qed
  then have "v \<in> contents ?m l' \<longleftrightarrow>
      v \<in> (if l' = l then contents m l - {vl m (nxt m a)} else contents m l')" for v
    using unlink_ahead[OF assms(1) h, of v t]
    by (cases "(l', v) = (l, vl m (nxt m a))") (auto simp: contents_def hd)
  then show ?thesis by blast
qed

lemma unlink_present: "can_unlink l a m \<Longrightarrow> vl m (nxt m a) \<in> contents m l"
  using can_unlinkD[of l a m] by (auto simp: contents_def ahead_def in_chain_def)

lemma unlink_hist_ok:
  assumes "can_unlink l a m" "hist_ok m"
  shows "hist_ok (unlink t a m)"
proof -
  obtain n where n: "mem m a = Some n" using can_unlinkD(2)[OF assms(1)] by (auto simp: pub_def)
  show ?thesis
    using assms(2) unlink_present[OF assms(1)] unlink_contents[OF assms(1)]
    by (auto simp: hist_ok_def assign_next_proj[OF n] unlink_ghost[OF assms(1)] upds_snoc
        legal_snoc replay_snoc)
qed

end
