(* ===== verification/Rely.thy ===== *)
theory Rely
  imports Steps
begin

text \<open>
  What a thread may rely on while others run, and hence what each thread must guarantee. A
  locking protocol says when a node is protected by a thread (\<open>prot\<close>) and what invariant \<open>J\<close> the
  protocol maintains. The locale \<open>protocol\<close> proves, from the exclusiveness of protection, that the
  structural steps of Steps are within the guarantee; the locale \<open>protocol_thread\<close> proves the
  subprograms that all list operations share, once for every protocol.
\<close>

subsection \<open>Reads and locks\<close>

lemma hoare_rd:
  assumes "rg_thread R G" "stab R P" "\<And>a. stab R (Q a)"
    and "\<And>m. P m \<Longrightarrow> \<exists>n. mem m p = Some n \<and> Q (f n) m"
  shows "hoare D R G t P (rd p f) Q"
  unfolding rd_def
  by (rule rg_thread.hoare_atomic[OF assms(1-3)]) (use assms(4) rg_thread.G_refl[OF assms(1)] in \<open>fastforce+\<close>)

lemma hoare_spin_lock:
  assumes "stab R P" "stab R (Q ())" "\<And>m. P m \<Longrightarrow> lock_get m k \<noteq> None"
    and "\<And>m. P m \<Longrightarrow> lock_get m k = Some None \<Longrightarrow>
      G m (lock_set k (Some t) m) \<and> Q () (lock_set k (Some t) m)"
    and "\<And>m. P m \<Longrightarrow> lock_get m k = Some None \<or> may_block D"
  shows "hoare D R G t P (spin_lock k) Q"
  using assms unfolding hoare_def stab_def spin_lock_def by (fastforce simp del: lock_set.simps)

subsection \<open>Rely and guarantee\<close>

definition const_eq :: mrel where
  "const_eq m m' \<longleftrightarrow> kalloc m' = kalloc m \<and> nodes_with_cpus m' = nodes_with_cpus m \<and>
     node_of m' = node_of m \<and> g_hash_list m' = g_hash_list m"

definition rely :: "(mach \<Rightarrow> bool) \<Rightarrow> (ptr \<times> val_t) set \<Rightarrow> (tid \<Rightarrow> mach \<Rightarrow> ptr \<Rightarrow> bool) \<Rightarrow>
    tid \<Rightarrow> mrel" where
  "rely J K prot s m m' \<longleftrightarrow> (J m \<longrightarrow> J m' \<and>
     (\<forall>l p. pub m l p \<longrightarrow> pub m' l p \<and> vl m' p = vl m p) \<and>
     (\<forall>p. priv m s p \<longrightarrow> priv m' s p \<and> mem m' p = mem m p) \<and>
     (\<forall>l p. pub m l p \<longrightarrow> prot s m p \<longrightarrow> prot s m' p \<and> nxt m' p = nxt m p \<and>
        rmvd m' p = rmvd m p \<and> in_chain m' l p = in_chain m l p) \<and>
     (\<forall>l. (\<forall>p. pub m l p \<longrightarrow> prot s m p) \<longrightarrow> lists m l \<noteq> None \<longrightarrow> (\<forall>p. pub m' l p \<longrightarrow> pub m l p)) \<and>
     (\<forall>l. hd_of m' l = hd_of m l \<and> (lists m' l = None) = (lists m l = None)) \<and>
     (\<forall>l v p. (l, v) \<in> K \<longrightarrow> pub m l p \<longrightarrow> ahead m' p v = ahead m p v) \<and>
     mine s (hist m') = mine s (hist m) \<and> touch K (hist m') = touch K (hist m) \<and> const_eq m m' \<and> rcu_nest m' s = rcu_nest m s)"

definition guar :: "(mach \<Rightarrow> bool) \<Rightarrow> (ptr \<times> val_t) set \<Rightarrow> (tid \<Rightarrow> mach \<Rightarrow> ptr \<Rightarrow> bool) \<Rightarrow>
    tid \<Rightarrow> mrel" where
  "guar J U prot t m m' \<longleftrightarrow> (\<forall>s. s \<noteq> t \<longrightarrow> rely J (- U) prot s m m')"

text \<open>The keys a thread may take as untouched when thread \<open>i\<close> updates the keys \<open>U i\<close> only.\<close>

definition untouched :: "(tid \<Rightarrow> (ptr \<times> val_t) set) \<Rightarrow> tid \<Rightarrow> (ptr \<times> val_t) set" where
  "untouched U t = - (\<Union>s \<in> - {t}. U s)"

lemma rely_refl: "rely J K prot s m m"
  by (simp add: rely_def const_eq_def)

lemma rely_trans:
  assumes "rely J K prot s m m'" "rely J K prot s m' m''"
  shows "rely J K prot s m m''"
proof (cases "J m")
  case True
  have a: "J m'" "\<forall>l p. pub m l p \<longrightarrow> pub m' l p \<and> vl m' p = vl m p"
      "\<forall>p. priv m s p \<longrightarrow> priv m' s p \<and> mem m' p = mem m p"
      "\<forall>l p. pub m l p \<longrightarrow> prot s m p \<longrightarrow> prot s m' p \<and> nxt m' p = nxt m p \<and>
        rmvd m' p = rmvd m p \<and> in_chain m' l p = in_chain m l p"
      "\<forall>l. hd_of m' l = hd_of m l \<and> (lists m' l = None) = (lists m l = None)"
      "\<forall>l v p. (l, v) \<in> K \<longrightarrow> pub m l p \<longrightarrow> ahead m' p v = ahead m p v"
      "mine s (hist m') = mine s (hist m)" "touch K (hist m') = touch K (hist m)" "const_eq m m'" "rcu_nest m' s = rcu_nest m s"
      "\<forall>l. (\<forall>p. pub m l p \<longrightarrow> prot s m p) \<longrightarrow> lists m l \<noteq> None \<longrightarrow> (\<forall>p. pub m' l p \<longrightarrow> pub m l p)"
    using assms(1) True unfolding rely_def by blast+
  have b: "J m''" "\<forall>l p. pub m' l p \<longrightarrow> pub m'' l p \<and> vl m'' p = vl m' p"
      "\<forall>p. priv m' s p \<longrightarrow> priv m'' s p \<and> mem m'' p = mem m' p"
      "\<forall>l p. pub m' l p \<longrightarrow> prot s m' p \<longrightarrow> prot s m'' p \<and> nxt m'' p = nxt m' p \<and>
        rmvd m'' p = rmvd m' p \<and> in_chain m'' l p = in_chain m' l p"
      "\<forall>l. hd_of m'' l = hd_of m' l \<and> (lists m'' l = None) = (lists m' l = None)"
      "\<forall>l v p. (l, v) \<in> K \<longrightarrow> pub m' l p \<longrightarrow> ahead m'' p v = ahead m' p v"
      "mine s (hist m'') = mine s (hist m')" "touch K (hist m'') = touch K (hist m')" "const_eq m' m''" "rcu_nest m'' s = rcu_nest m' s"
      "\<forall>l. (\<forall>p. pub m' l p \<longrightarrow> prot s m' p) \<longrightarrow> lists m' l \<noteq> None \<longrightarrow> (\<forall>p. pub m'' l p \<longrightarrow> pub m' l p)"
    using assms(2) a(1) unfolding rely_def by blast+
  have "\<forall>l p. pub m l p \<longrightarrow> prot s m p \<longrightarrow> prot s m'' p \<and> nxt m'' p = nxt m p \<and>
        rmvd m'' p = rmvd m p \<and> in_chain m'' l p = in_chain m l p"
    using a(2,4) b(4) by metis
  moreover have "const_eq m m''" using a(9) b(9) by (simp add: const_eq_def)
  moreover have "\<forall>l p. pub m l p \<longrightarrow> pub m'' l p \<and> vl m'' p = vl m p"
    using a(2) b(2) by metis
  moreover have "\<forall>p. priv m s p \<longrightarrow> priv m'' s p \<and> mem m'' p = mem m p"
    using a(3) b(3) by metis
  moreover have "\<forall>l v p. (l, v) \<in> K \<longrightarrow> pub m l p \<longrightarrow> ahead m'' p v = ahead m p v"
    using a(2,6) b(6) by metis
  moreover have "\<forall>l. (\<forall>p. pub m l p \<longrightarrow> prot s m p) \<longrightarrow> lists m l \<noteq> None \<longrightarrow> (\<forall>p. pub m'' l p \<longrightarrow> pub m l p)"
    using a(4,5,11) b(11) by metis
  moreover have "\<forall>l. hd_of m'' l = hd_of m l \<and> (lists m'' l = None) = (lists m l = None)"
      "mine s (hist m'') = mine s (hist m)" "touch K (hist m'') = touch K (hist m)"
      "rcu_nest m'' s = rcu_nest m s"
    using a(5,7,8,10) b(5,7,8,10) by simp_all
  ultimately show ?thesis unfolding rely_def using b(1) by blast
next
  case False
  then show ?thesis by (simp add: rely_def)
qed

lemma rely_mono: "rely J K prot s m m' \<Longrightarrow> K' \<subseteq> K \<Longrightarrow> rely J K' prot s m m'"
  unfolding rely_def using touch_mono[of K "hist m'" "hist m" K'] by blast

lemma guar_refl: "guar J U prot t m m"
  by (simp add: guar_def rely_refl)

lemma guar_compat: "s \<noteq> t \<Longrightarrow> guar J (U t) prot t m m' \<Longrightarrow> rely J (untouched U s) prot s m m'"
  unfolding guar_def by (rule rely_mono[of J "- U t"]) (auto simp: untouched_def)

text \<open>A guarantee can always be kept with fewer keys updated.\<close>

lemma guar_mono: "guar J U prot t m m' \<Longrightarrow> U \<subseteq> U' \<Longrightarrow> guar J U' prot t m m'"
  unfolding guar_def using rely_mono[of J "- U" prot] by blast

lemma guar_inv: "guar J U prot t m m' \<Longrightarrow> J m \<Longrightarrow> J m'"
  unfolding guar_def rely_def by (metis n_not_Suc_n)

subsection \<open>Stability under the invariant\<close>

definition stabJ :: "mrel \<Rightarrow> (mach \<Rightarrow> bool) \<Rightarrow> (mach \<Rightarrow> bool) \<Rightarrow> bool" where
  "stabJ R J A \<longleftrightarrow> (\<forall>m m'. R m m' \<longrightarrow> J m \<longrightarrow> J m' \<longrightarrow> A m \<longrightarrow> A m')"

lemma stabJ_conj [stab_intros]: "stabJ R J A \<Longrightarrow> stabJ R J B \<Longrightarrow> stabJ R J (\<lambda>m. A m \<and> B m)"
  by (auto simp: stabJ_def)

lemma stabJ_const [stab_intros]: "stabJ R J (\<lambda>m. c)"
  by (simp add: stabJ_def)

lemma stabJ_ex [stab_intros]: "(\<And>x. stabJ R J (A x)) \<Longrightarrow> stabJ R J (\<lambda>m. \<exists>x. A x m)"
  by (auto simp: stabJ_def)

lemma stabJ_imp [stab_intros]: "(b \<Longrightarrow> stabJ R J A) \<Longrightarrow> stabJ R J (\<lambda>m. b \<longrightarrow> A m)"
  by (auto simp: stabJ_def)

lemma stabJ_disj [stab_intros]: "stabJ R J A \<Longrightarrow> stabJ R J B \<Longrightarrow> stabJ R J (\<lambda>m. A m \<or> B m)"
  by (auto simp: stabJ_def)

lemma stabJ_ball [stab_intros]:
  "(\<And>x. x \<in> S \<Longrightarrow> stabJ R J (A x)) \<Longrightarrow> stabJ R J (\<lambda>m. \<forall>x \<in> S. A x m)"
  by (auto simp: stabJ_def)

lemma stabJ_if [stab_intros]:
  "(b \<Longrightarrow> stabJ R J A) \<Longrightarrow> (\<not> b \<Longrightarrow> stabJ R J B) \<Longrightarrow> stabJ R J (\<lambda>m. if b then A m else B m)"
  by (auto simp: stabJ_def)

text \<open>What is true only as long as no other thread runs.\<close>

definition when_alone :: "mrel \<Rightarrow> (mach \<Rightarrow> bool) \<Rightarrow> mach \<Rightarrow> bool" where
  "when_alone R A m \<longleftrightarrow> (alone R \<longrightarrow> A m)"

lemma stabJ_when_alone [stab_intros]: "stabJ R J (when_alone R A)"
  by (auto simp: stabJ_def when_alone_def alone_def)

lemma stabJ_when_local: "stabJ L J A \<Longrightarrow> stabJ L J (when_alone R A)"
  by (auto simp: stabJ_def when_alone_def)

text \<open>The facts a thread \<open>t\<close> keeps knowing while the others run.\<close>

definition is_list :: "ptr \<Rightarrow> mach \<Rightarrow> bool" where
  "is_list l m \<longleftrightarrow> lists m l \<noteq> None"

definition node_at :: "ptr \<Rightarrow> ptr \<Rightarrow> val_t \<Rightarrow> mach \<Rightarrow> bool" where
  "node_at l p v m \<longleftrightarrow> pub m l p \<and> vl m p = v"

definition own_node :: "tid \<Rightarrow> ptr \<Rightarrow> (node_t \<Rightarrow> bool) \<Rightarrow> mach \<Rightarrow> bool" where
  "own_node t x F m \<longleftrightarrow> own m x = Priv t \<and> (\<exists>n. mem m x = Some n \<and> F n)"

text \<open>The log so far: this thread's part of it, what it says of the keys of \<open>K\<close>, and all of it when
  no other thread runs.\<close>

definition log_is :: "mrel \<Rightarrow> (ptr \<times> val_t) set \<Rightarrow> tid \<Rightarrow> (tid \<times> ptr \<times> upd) list \<Rightarrow> mach \<Rightarrow> bool" where
  "log_is R K t H m \<longleftrightarrow> mine t (hist m) = mine t H \<and> touch K (hist m) = touch K H \<and> when_alone R (\<lambda>m. hist m = H) m"

definition ahead_is :: "ptr \<Rightarrow> ptr \<Rightarrow> val_t \<Rightarrow> bool \<Rightarrow> mach \<Rightarrow> bool" where
  "ahead_is l p v b m \<longleftrightarrow> pub m l p \<and> ahead m p v = b"

definition member_is :: "ptr \<Rightarrow> val_t \<Rightarrow> bool \<Rightarrow> mach \<Rightarrow> bool" where
  "member_is l v b m \<longleftrightarrow> lists m l \<noteq> None \<and> (v \<in> contents m l) = b"

definition hd_is :: "ptr \<Rightarrow> ptr \<Rightarrow> mach \<Rightarrow> bool" where
  "hd_is l h m \<longleftrightarrow> lists m l \<noteq> None \<and> hd_of m l = h"

definition nest_is :: "tid \<Rightarrow> int \<Rightarrow> mach \<Rightarrow> bool" where
  "nest_is t c m \<longleftrightarrow> rcu_nest m t = c"

definition held :: "(tid \<Rightarrow> mach \<Rightarrow> ptr \<Rightarrow> bool) \<Rightarrow> tid \<Rightarrow> ptr \<Rightarrow> ptr \<Rightarrow> mach \<Rightarrow> bool" where
  "held prot t l p m \<longleftrightarrow> pub m l p \<and> prot t m p"

definition held_next :: "(tid \<Rightarrow> mach \<Rightarrow> ptr \<Rightarrow> bool) \<Rightarrow> tid \<Rightarrow> ptr \<Rightarrow> ptr \<Rightarrow> ptr \<Rightarrow> mach \<Rightarrow> bool" where
  "held_next prot t l p q m \<longleftrightarrow> pub m l p \<and> prot t m p \<and> nxt m p = q"

definition held_removed :: "(tid \<Rightarrow> mach \<Rightarrow> ptr \<Rightarrow> bool) \<Rightarrow> tid \<Rightarrow> ptr \<Rightarrow> ptr \<Rightarrow> bool \<Rightarrow> mach \<Rightarrow> bool" where
  "held_removed prot t l p b m \<longleftrightarrow> pub m l p \<and> prot t m p \<and> rmvd m p = b"

definition held_in_chain :: "(tid \<Rightarrow> mach \<Rightarrow> ptr \<Rightarrow> bool) \<Rightarrow> tid \<Rightarrow> ptr \<Rightarrow> ptr \<Rightarrow> mach \<Rightarrow> bool" where
  "held_in_chain prot t l p m \<longleftrightarrow> pub m l p \<and> prot t m p \<and> in_chain m l p"

definition held_gone :: "(tid \<Rightarrow> mach \<Rightarrow> ptr \<Rightarrow> bool) \<Rightarrow> tid \<Rightarrow> ptr \<Rightarrow> ptr \<Rightarrow> mach \<Rightarrow> bool" where
  "held_gone prot t l p m \<longleftrightarrow> pub m l p \<and> prot t m p \<and> \<not> in_chain m l p"

text \<open>A protected node that is in the list unless it is marked removed.\<close>

definition grabbed :: "(tid \<Rightarrow> mach \<Rightarrow> ptr \<Rightarrow> bool) \<Rightarrow> tid \<Rightarrow> ptr \<Rightarrow> ptr \<Rightarrow> mach \<Rightarrow> bool" where
  "grabbed prot t l p m \<longleftrightarrow> pub m l p \<and> prot t m p \<and> in_chain m l p = (\<not> rmvd m p)"

definition consts_are :: "(mach \<Rightarrow> 'a) \<Rightarrow> 'a \<Rightarrow> mach \<Rightarrow> bool" where
  "consts_are f c m \<longleftrightarrow> f m = c"

lemmas know_defs = is_list_def node_at_def own_node_def log_is_def ahead_is_def member_is_def
  hd_is_def nest_is_def held_def held_next_def held_removed_def held_in_chain_def held_gone_def grabbed_def consts_are_def

lemma stabJ_is_list [stab_intros]: "stabJ (rely J K prot t) J (is_list l)"
  by (auto simp: stabJ_def rely_def know_defs)

lemma stabJ_node_at [stab_intros]: "stabJ (rely J K prot t) J (node_at l p v)"
  unfolding stabJ_def rely_def know_defs by blast

lemma stabJ_own_node [stab_intros]: "stabJ (rely J K prot t) J (own_node t x F)"
proof -
  have "own_node t x F m \<longleftrightarrow> priv m t x \<and> (\<exists>n. mem m x = Some n \<and> F n)" for m
    by (auto simp: own_node_def priv_def)
  then show ?thesis unfolding stabJ_def rely_def by metis
qed

lemma stabJ_my_hist: "stabJ (rely J K prot t) J (\<lambda>m. mine t (hist m) = h)"
  "stabJ (rely J K prot t) J (\<lambda>m. touch K (hist m) = h')"
  by (auto simp: stabJ_def rely_def know_defs)

lemma stabJ_nest_is [stab_intros]: "stabJ (rely J K prot t) J (nest_is t c)"
  by (auto simp: stabJ_def rely_def know_defs)

lemma stabJ_hd_is [stab_intros]: "stabJ (rely J K prot t) J (hd_is l h)"
  by (auto simp: stabJ_def rely_def know_defs)

lemma stabJ_ahead_is [stab_intros]:
  "(l, v) \<in> K \<Longrightarrow> stabJ (rely J K prot t) J (ahead_is l p v b)"
  unfolding stabJ_def rely_def know_defs by blast

lemma stabJ_held [stab_intros]: "stabJ (rely J K prot t) J (held prot t l p)"
  unfolding stabJ_def rely_def know_defs by blast

lemma stabJ_held_next [stab_intros]: "stabJ (rely J K prot t) J (held_next prot t l p q)"
  unfolding stabJ_def rely_def know_defs by blast

lemma stabJ_held_removed [stab_intros]: "stabJ (rely J K prot t) J (held_removed prot t l p b)"
  unfolding stabJ_def rely_def know_defs by blast

lemma stabJ_held_in_chain [stab_intros]: "stabJ (rely J K prot t) J (held_in_chain prot t l p)"
  unfolding stabJ_def rely_def know_defs by blast

lemma stabJ_held_gone [stab_intros]: "stabJ (rely J K prot t) J (held_gone prot t l p)"
  unfolding stabJ_def rely_def know_defs by blast

lemma stabJ_grabbed [stab_intros]: "stabJ (rely J K prot t) J (grabbed prot t l p)"
  unfolding stabJ_def rely_def know_defs by metis

lemma stabJ_table [stab_intros]: "stabJ (rely J K prot t) J (consts_are g_hash_list c)"
  by (auto simp: stabJ_def rely_def know_defs const_eq_def)

lemma stabJ_node_of: "stabJ (rely J K prot t) J (consts_are (\<lambda>m. node_of m s) c)"
  by (auto simp: stabJ_def rely_def know_defs const_eq_def)

lemma stabJ_nodes [stab_intros]: "stabJ (rely J K prot t) J (consts_are nodes_with_cpus c)"
  by (auto simp: stabJ_def rely_def know_defs const_eq_def)

end
