(* ===== verification/Protocol.thy ===== *)
theory Protocol
  imports Rely
begin

text \<open>
  The interface between the list operations and a locking protocol. \<open>protocol\<close> states what a
  protocol provides, exclusive protection of nodes and an invariant \<open>J\<close> that includes \<open>inv\<close> and
  depends only on published memory, and proves that local steps, publications and bypasses are within
  the guarantee. \<open>protocol_thread\<close> proves the shared subprograms for one thread of any protocol:
  allocation, writes to a private node, the list walk and \<open>rcu_list_contains\<close>.
\<close>

subsection \<open>Local steps\<close>

text \<open>Steps of thread \<open>t\<close> that change no published node, no list and no RCU nesting.\<close>

definition local_step :: "tid \<Rightarrow> mrel" where
  "local_step t m m' \<longleftrightarrow> (\<forall>l p. pub m' l p = pub m l p) \<and>
     (\<forall>l p. pub m l p \<longrightarrow> mem m' p = mem m p) \<and> lists m' = lists m \<and> hist m' = hist m \<and>
     const_eq m m' \<and> heap_ok m' \<and> rcu_nest m' = rcu_nest m \<and>
     (\<forall>s p. s \<noteq> t \<longrightarrow> priv m s p \<longrightarrow> priv m' s p \<and> mem m' p = mem m p)"

lemma local_frame:
  assumes "local_step t m m'"
  shows "frame_eq m m'" and "pub m l p \<Longrightarrow> rmvd m' p = rmvd m p"
proof -
  have *: "mem m' p = mem m p" if "pub m l p" for l p
    using assms that unfolding local_step_def by blast
  show "frame_eq m m'"
    using assms * unfolding frame_eq_def local_step_def
    by (auto simp: nxt_def vl_def hd_of_def)
  show "pub m l p \<Longrightarrow> rmvd m' p = rmvd m p" using * by (simp add: rmvd_def)
qed

lemma env_ok_const: "const_eq m m' \<Longrightarrow> env_ok m' = env_ok m"
  by (simp add: const_eq_def env_ok_def)

lemma inv_frame: "inv m \<Longrightarrow> frame_eq m m' \<Longrightarrow> heap_ok m' \<Longrightarrow> const_eq m m' \<Longrightarrow> inv m'"
  unfolding inv_def using frame_wfm frame_hist_ok env_ok_const by blast

lemma inv_wfm: "inv m \<Longrightarrow> wfm m"
  by (simp add: inv_def)

lemma stabJ_local_basic [stab_intros]:
  "stabJ (local_step t) J (is_list l)"
  "stabJ (local_step t) J (node_at l p v)"
  "stabJ (local_step t) J (log_is R K t h)"
  "stabJ (local_step t) J (hd_is l p)"
  "stabJ (local_step t) J (nest_is t' c)"
  "stabJ (local_step t) J (consts_are g_hash_list T)"
  "stabJ (local_step t) J (consts_are nodes_with_cpus ns)"
proof -
  have *: "(\<forall>l p. pub m' l p = pub m l p) \<and> (\<forall>l p. pub m l p \<longrightarrow> vl m' p = vl m p) \<and>
      (\<forall>l. hd_of m' l = hd_of m l \<and> (lists m' l = None) = (lists m l = None)) \<and>
      hist m' = hist m \<and> rcu_nest m' = rcu_nest m \<and> const_eq m m'" if "local_step t m m'" for m m'
    using local_frame(1)[OF that] that unfolding frame_eq_def local_step_def by blast
  show "stabJ (local_step t) J (is_list l)"
    "stabJ (local_step t) J (node_at l p v)"
    "stabJ (local_step t) J (log_is R K t h)"
    "stabJ (local_step t) J (hd_is l p)"
    "stabJ (local_step t) J (nest_is t' c)"
    "stabJ (local_step t) J (consts_are g_hash_list T)"
    "stabJ (local_step t) J (consts_are nodes_with_cpus ns)"
    unfolding stabJ_def know_defs when_alone_def using *[unfolded const_eq_def] by metis+
qed

definition pos :: "ptr \<Rightarrow> val_t \<Rightarrow> ptr \<Rightarrow> ptr \<Rightarrow> mach \<Rightarrow> bool" where
  "pos l key prev next m \<longleftrightarrow>
     pub m l prev \<and> vl m prev < key \<and> pub m l next \<and> vl m prev < vl m next"

lemma stabJ_pos [stab_intros]: "stabJ (rely J K prot t) J (pos l key prev next)"
  unfolding stabJ_def rely_def pos_def by metis

lemma stabJ_local_pos [stab_intros]: "stabJ (local_step t) J (pos l key prev next)"
  using local_frame(1) unfolding stabJ_def pos_def frame_eq_def by metis

definition all_prot :: "(tid \<Rightarrow> mach \<Rightarrow> ptr \<Rightarrow> bool) \<Rightarrow> tid \<Rightarrow> ptr \<Rightarrow> mach \<Rightarrow> bool" where
  "all_prot prot t l m \<longleftrightarrow> (\<forall>p. pub m l p \<longrightarrow> prot t m p)"

subsection \<open>What a protocol provides\<close>

locale protocol =
  fixes prot :: "tid \<Rightarrow> mach \<Rightarrow> ptr \<Rightarrow> bool"
    and J :: "mach \<Rightarrow> bool"
  assumes prot_excl: "prot s m p \<Longrightarrow> prot t m p \<Longrightarrow> s = t"
    and J_inv: "J m \<Longrightarrow> inv m"
    and J_local: "J m \<Longrightarrow> local_step t m m' \<Longrightarrow> J m'"
    and prot_local: "local_step t m m' \<Longrightarrow> pub m l p \<Longrightarrow> prot s m' p = prot s m p"
    and J_nest: "J m \<Longrightarrow> J (m\<lparr>rcu_nest := f\<rparr>)"
    and prot_nest: "prot s (m\<lparr>rcu_nest := f\<rparr>) p = prot s m p"
begin

lemma J_wfm: "J m \<Longrightarrow> wfm m"
  using J_inv inv_wfm by blast

text \<open>A step that leaves the structure alone is within the guarantee when it respects the others'
  private and protected nodes.\<close>

lemma frame_guar:
  assumes "J m" "J m'" "frame_eq m m'" "const_eq m m'"
    and "\<And>s p. s \<noteq> t \<Longrightarrow> priv m s p \<Longrightarrow> priv m' s p \<and> mem m' p = mem m p"
    and "\<And>s l p. s \<noteq> t \<Longrightarrow> pub m l p \<Longrightarrow> prot s m p \<Longrightarrow> prot s m' p \<and> rmvd m' p = rmvd m p"
    and "\<And>s. s \<noteq> t \<Longrightarrow> rcu_nest m' s = rcu_nest m s"
  shows "guar J U prot t m m'"
  unfolding guar_def
proof (intro allI impI)
  fix s assume s: "s \<noteq> t"
  have w: "wfm m" by (rule J_wfm[OF assms(1)])
  have pubs: "pub m' l p = pub m l p" "pub m l p \<Longrightarrow> nxt m' p = nxt m p \<and> vl m' p = vl m p"
    for l p using assms(3) by (auto simp: frame_eq_def)
  have ch: "in_chain m' l p = in_chain m l p" if "pub m l p" for l p
    using frame_in_chain[OF w assms(3) wf_pub_list[OF w that(1)]] by simp
  have ah: "ahead m' p v = ahead m p v" if "pub m l p" for l p v
    by (rule frame_ahead[OF w assms(3) that])
  have hd: "hd_of m' l = hd_of m l \<and> (lists m' l = None) = (lists m l = None)" for l
    using assms(3) by (simp add: frame_eq_def)
  have h: "mine s (hist m') = mine s (hist m)" "touch (- U) (hist m') = touch (- U) (hist m)"
    using assms(3) by (simp_all add: frame_eq_def)
  show "rely J (- U) prot s m m'"
    unfolding rely_def
    using assms(2,4) assms(5,6,7)[OF s] pubs ch ah hd h by blast
qed

lemma local_guar:
  assumes "J m" "local_step t m m'"
  shows "guar J U prot t m m'"
proof (rule frame_guar[OF assms(1) J_local[OF assms] local_frame(1)[OF assms(2)]])
  show "const_eq m m'" using assms(2) by (simp add: local_step_def)
qed (use assms(2) prot_local[OF assms(2)] local_frame(2)[OF assms(2)] in \<open>auto simp: local_step_def\<close>)

text \<open>Publishing a node after one that no other thread protects.\<close>

lemma link_guar:
  assumes "J m" "J (assign_next t a x m)" "can_link t l a x m"
    and "(l, vl m x) \<in> U" "\<And>s. s \<noteq> t \<Longrightarrow> \<not> prot s m a"
    and "\<And>s l' p. s \<noteq> t \<Longrightarrow> pub m l' p \<Longrightarrow> prot s m p \<Longrightarrow> prot s (assign_next t a x m) p"
  shows "guar J U prot t m (assign_next t a x m)" (is "guar J U prot t m ?m")
  unfolding guar_def
proof (intro allI impI)
  fix s assume s: "s \<noteq> t"
  obtain n where n: "mem m a = Some n" using can_link_mem[OF assms(3)] by blast
  note pr = assign_next_proj[OF n] and gh = link_ghost[OF assms(3)]
  have pubs: "\<forall>l p. pub m l p \<longrightarrow> pub ?m l p \<and> vl ?m p = vl m p"
    by (simp add: link_pub[OF assms(3)] pr)
  have px: "priv m t x" and pa: "pub m l a" using assms(3) by (auto simp: can_link_def)
  have pv: "\<forall>p. priv m s p \<longrightarrow> priv ?m s p \<and> mem ?m p = mem m p"
  proof (intro allI impI)
    fix p assume p: "priv m s p"
    have "p \<noteq> x" "p \<noteq> a" using p px pa s by (auto simp: priv_def pub_def)
    then show "priv ?m s p \<and> mem ?m p = mem m p" using p by (simp add: priv_def pr gh)
  qed
  have pt: "\<forall>l p. pub m l p \<longrightarrow> prot s m p \<longrightarrow> prot s ?m p \<and> nxt ?m p = nxt m p \<and>
        rmvd ?m p = rmvd m p \<and> in_chain ?m l p = in_chain m l p"
    using assms(5,6)[OF s] link_in_chain_iff[OF assms(3)] by (auto simp: pr)
  have np: "\<forall>l. (\<forall>p. pub m l p \<longrightarrow> prot s m p) \<longrightarrow> lists m l \<noteq> None \<longrightarrow> (\<forall>p. pub ?m l p \<longrightarrow> pub m l p)"
    using assms(5)[OF s] pa link_pub[OF assms(3)] by blast
  have ah: "\<forall>l v p. (l, v) \<in> - U \<longrightarrow> pub m l p \<longrightarrow> ahead ?m p v = ahead m p v"
  proof (intro allI impI)
    fix l' v p assume v: "(l', v) \<in> - U" and p: "pub m l' p"
    have "\<not> (v = vl m x \<and> reach (nxt m) p a)"
      using v assms(4) wf_reach[OF J_wfm[OF assms(1)] p] pa by (auto dest: pub_fun)
    then show "ahead ?m p v = ahead m p v" using link_ahead[OF assms(3) p] by blast
  qed
  have hd: "\<forall>l. hd_of ?m l = hd_of m l \<and> (lists ?m l = None) = (lists m l = None)" by (simp add: pr)
  have h: "mine s (hist ?m) = mine s (hist m)" "touch (- U) (hist ?m) = touch (- U) (hist m)"
    "const_eq m ?m" "rcu_nest ?m s = rcu_nest m s"
    using s assms(4) by (simp_all add: pr gh mine_snoc touch_snoc const_eq_def)
  show "rely J (- U) prot s m ?m"
    unfolding rely_def using assms(2) pubs pv pt np hd ah h by blast
qed

text \<open>Bypassing a node that, like its predecessor, no other thread protects.\<close>

lemma unlink_guar:
  assumes "J m" "J (unlink t a m)" "can_unlink l a m" "(l, vl m (nxt m a)) \<in> U"
    and "\<And>s. s \<noteq> t \<Longrightarrow> \<not> prot s m a" "\<And>s. s \<noteq> t \<Longrightarrow> \<not> prot s m (nxt m a)"
    and "\<And>s l' p. s \<noteq> t \<Longrightarrow> pub m l' p \<Longrightarrow> prot s m p \<Longrightarrow> prot s (unlink t a m) p"
  shows "guar J U prot t m (unlink t a m)" (is "guar J U prot t m ?m")
  unfolding guar_def
proof (intro allI impI)
  fix s assume s: "s \<noteq> t"
  note u = can_unlinkD[OF assms(3)]
  obtain n where n: "mem m a = Some n" using u(2) by (auto simp: pub_def)
  note pr = assign_next_proj[OF n] and gh = unlink_ghost[OF assms(3)]
  have pubs: "\<forall>l p. pub m l p \<longrightarrow> pub ?m l p \<and> vl ?m p = vl m p"
    by (simp add: unlink_pub[OF assms(3)] pr)
  have pv: "\<forall>p. priv m s p \<longrightarrow> priv ?m s p \<and> mem ?m p = mem m p"
    using u(2) by (auto simp: priv_def pr gh pub_def)
  have pt: "\<forall>l p. pub m l p \<longrightarrow> prot s m p \<longrightarrow> prot s ?m p \<and> nxt ?m p = nxt m p \<and>
        rmvd ?m p = rmvd m p \<and> in_chain ?m l p = in_chain m l p"
  proof (intro allI impI)
    fix l' p assume p: "pub m l' p" "prot s m p"
    have "p \<noteq> a" "p \<noteq> nxt m a" using assms(5,6)[OF s] p(2) by auto
    then show "prot s ?m p \<and> nxt ?m p = nxt m p \<and> rmvd ?m p = rmvd m p \<and>
        in_chain ?m l' p = in_chain m l' p"
      using assms(7)[OF s p] unlink_in_chain_iff[OF assms(3)] by (simp add: pr)
  qed
  have ah: "\<forall>l v p. (l, v) \<in> - U \<longrightarrow> pub m l p \<longrightarrow> ahead ?m p v = ahead m p v"
    using unlink_ahead[OF assms(3)] assms(4) by (metis ComplD prod.inject)
  show "rely J (- U) prot s m ?m"
    using assms(2,4) pubs pv pt ah s
    by (simp add: rely_def pr gh mine_snoc touch_snoc const_eq_def unlink_pub[OF assms(3)])
qed

end

end
