(* ===== verification/Shared.thy ===== *)
theory Shared
  imports Protocol
begin

text \<open>
  The subprograms every list operation uses, proved once for a thread \<open>t\<close> of any protocol that may
  take the keys \<open>K\<close> as untouched by others and updates the keys \<open>U\<close>: allocating and initialising
  a node, writing to it while it is private, freeing it, walking the list, and the lock-free lookup.
\<close>

lemma own_node_mem: "own_node t x F m \<Longrightarrow> \<exists>n. mem m x = Some n \<and> F n"
  by (auto simp: own_node_def)

lemma own_node_priv: "own_node t x F m \<Longrightarrow> priv m t x"
  by (auto simp: own_node_def priv_def)

lemma own_node_weaken: "own_node t x F m \<Longrightarrow> (\<And>n. F n \<Longrightarrow> F' n) \<Longrightarrow> own_node t x F' m"
  by (auto simp: own_node_def)

subsection \<open>Primitive local steps\<close>

lemma local_id: "wfm m \<Longrightarrow> local_step t m m"
  by (simp add: local_step_def const_eq_def wfm_heap_ok)

lemma local_set_own:
  assumes "wfm m" "own_node t x F m"
  shows "local_step t m (set_node x n m)"
  using assms wfm_heap_ok[OF assms(1)]
  by (auto simp: local_step_def const_eq_def heap_ok_def set_node_def pub_def own_node_def
      priv_def)

lemma local_kmalloc:
  assumes "wfm m" "fresh_node m \<noteq> NULL" "mem m (fresh_node m) = None"
  shows "local_step t m (m\<lparr>mem := (mem m)(fresh_node m := Some n),
    own := (own m)(fresh_node m := Priv t), live := fresh_node m # live m, kcnt := k\<rparr>)"
  using assms wfm_heap_ok[OF assms(1)]
  by (auto simp: local_step_def const_eq_def heap_ok_def pub_def priv_def)

lemma local_kfree:
  assumes "wfm m" "own_node t x F m"
  shows "local_step t m (m\<lparr>mem := (mem m)(x := None), live := removeAll x (live m)\<rparr>)"
  using assms wfm_heap_ok[OF assms(1)]
  by (auto simp: local_step_def const_eq_def heap_ok_def pub_def own_node_def priv_def)

text \<open>Bookkeeping fields: the RCU callback list, the abort counters, the transaction counter.\<close>

lemma local_book:
  assumes "wfm m"
  shows "local_step t m (m\<lparr>rcu_cbs := q\<rparr>)" "local_step t m (m\<lparr>abort_cnt := c\<rparr>)"
    "local_step t m (m\<lparr>hcnt := k\<rparr>)"
  using wfm_heap_ok[OF assms]
  by (auto simp: local_step_def const_eq_def heap_ok_def pub_def priv_def)

text \<open>A new node with its locks free, on every NUMA node that has CPUs; and one that its thread
  has filled in and not yet published.\<close>

definition new_locks :: "nat list \<Rightarrow> node_t \<Rightarrow> bool" where
  "new_locks ns n \<longleftrightarrow> removed n = 0 \<and> global_lock n = None \<and> (\<forall>i \<in> set ns. pnd_slocks n i = None)"

definition filled :: "tid \<Rightarrow> ptr \<Rightarrow> val_t \<Rightarrow> ptr \<Rightarrow> mach \<Rightarrow> bool" where
  "filled t x key next = own_node t x (\<lambda>n. val n = key \<and> p_next n = next)"

definition ready :: "tid \<Rightarrow> ptr \<Rightarrow> val_t \<Rightarrow> ptr \<Rightarrow> mach \<Rightarrow> bool" where
  "ready t x key next m \<longleftrightarrow> (\<exists>ns. consts_are nodes_with_cpus ns m \<and>
     own_node t x (\<lambda>n. new_locks ns n \<and> val n = key \<and> p_next n = next) m)"

lemma ready_filled: "ready t x key next m \<Longrightarrow> filled t x key next m"
  by (auto simp: ready_def filled_def own_node_def)

text \<open>
  One thread of a protocol: what the others may do is \<open>R\<close>, at most what the protocol's rely allows;
  with \<open>R\<close> the identity it is a thread that runs alone. \<open>K\<close> are the keys no other thread updates,
  \<open>U\<close> the keys this one may update, \<open>D\<close> whether it may run out of fuel or block.
\<close>

locale protocol_thread = protocol +
  fixes t :: tid and R :: mrel and K U :: "(ptr \<times> val_t) set" and D :: mode
  assumes R_rely: "R m m' \<Longrightarrow> rely J K prot t m m'"
    and R_idle: "R m m"
    and R_comp: "R m m' \<Longrightarrow> R m' m'' \<Longrightarrow> R m m''"
begin

abbreviation "G \<equiv> guar J U prot t"

sublocale th: rg_thread R G t
  by unfold_locales (auto intro: R_idle R_comp guar_refl)

lemma stabJ_R: "stabJ (rely J K prot t) J A \<Longrightarrow> stabJ R J A"
  using R_rely by (auto simp: stabJ_def)

lemma stab_J:
  assumes "stabJ R J A"
  shows "stab R (\<lambda>m. J m \<and> A m)"
  using assms R_rely unfolding stab_def stabJ_def rely_def by blast

lemmas stab_R [stab_intros] = stabJ_R [OF stabJ_is_list] stabJ_R [OF stabJ_node_at]
  stabJ_R [OF stabJ_own_node] stabJ_R [OF stabJ_nest_is] stabJ_R [OF stabJ_hd_is]
  stabJ_R [OF stabJ_held] stabJ_R [OF stabJ_held_next]
  stabJ_R [OF stabJ_held_removed] stabJ_R [OF stabJ_held_in_chain] stabJ_R [OF stabJ_table]
  stabJ_R [OF stabJ_held_gone] stabJ_R [OF stabJ_grabbed]
  stabJ_R [OF stabJ_nodes] stabJ_R [OF stabJ_pos]

lemma stabJ_log_is [stab_intros]: "stabJ R J (log_is R K t h)"
  unfolding log_is_def by (intro stabJ_conj stabJ_when_alone stabJ_R stabJ_my_hist)

lemma stabJ_ready [stab_intros]: "stabJ R J (ready t x key next)"
  unfolding ready_def by (intro stab_intros)

lemma stabJ_filled [stab_intros]: "stabJ R J (filled t x key next)"
  unfolding filled_def by (intro stab_intros)

subsection \<open>Triples\<close>

definition triple :: "(mach \<Rightarrow> bool) \<Rightarrow> 'a prog \<Rightarrow> ('a \<Rightarrow> mach \<Rightarrow> bool) \<Rightarrow> bool" where
  "triple A c B = hoare D R G t (\<lambda>m. J m \<and> A m) c (\<lambda>a m. J m \<and> B a m)"

lemma t_bind: "triple A c B \<Longrightarrow> (\<And>a. triple (B a) (k a) C) \<Longrightarrow> triple A (bind c k) C"
  unfolding triple_def by (rule th.hoare_bind)

lemma t_ret: "stabJ R J A \<Longrightarrow> (\<And>m. J m \<Longrightarrow> A m \<Longrightarrow> B a m) \<Longrightarrow> triple A (Ret a) B"
  unfolding triple_def by (rule th.hoare_ret) (auto intro: stab_J)

lemma t_conseq:
  "triple A' c B' \<Longrightarrow> (\<And>m. J m \<Longrightarrow> A m \<Longrightarrow> A' m) \<Longrightarrow> (\<And>a m. J m \<Longrightarrow> B' a m \<Longrightarrow> B a m) \<Longrightarrow>
    triple A c B"
  unfolding triple_def by (erule th.hoare_conseq) auto

lemma t_pre: "triple A' c B \<Longrightarrow> (\<And>m. J m \<Longrightarrow> A m \<Longrightarrow> A' m) \<Longrightarrow> triple A c B"
  by (rule t_conseq)

lemma t_if: "(x \<Longrightarrow> triple A c B) \<Longrightarrow> (\<not> x \<Longrightarrow> triple A d B) \<Longrightarrow> triple A (if x then c else d) B"
  by simp

lemma t_pull: "(x \<Longrightarrow> triple A c B) \<Longrightarrow> triple (\<lambda>m. A m \<and> x) c B"
  unfolding triple_def hoare_def by blast

lemma t_drop: "(\<And>m. J m \<Longrightarrow> A m \<Longrightarrow> x) \<Longrightarrow> (x \<Longrightarrow> triple A c B) \<Longrightarrow> triple A c B"
  unfolding triple_def hoare_def by blast

lemma t_ex: "(\<And>x. triple (A x) c B) \<Longrightarrow> triple (\<lambda>m. \<exists>x. A x m) c B"
  unfolding triple_def hoare_def by blast

lemma t_diverge: "may_diverge D \<Longrightarrow> triple A Diverge B"
  unfolding triple_def by (rule th.hoare_diverge)

lemma t_triple:
  "(\<And>p q v. triple (A (p, q, v)) (k p q v) B) \<Longrightarrow> triple (A x) (case x of (p, q, v) \<Rightarrow> k p q v) B"
  by (cases x) simp

lemma t_for_each:
  "stabJ R J A \<Longrightarrow> (\<And>x. x \<in> set xs \<Longrightarrow> triple A (f x) (\<lambda>_. A)) \<Longrightarrow> triple A (for_each xs f) (\<lambda>_. A)"
  unfolding triple_def by (rule th.hoare_for_each) (auto intro: stab_J)

lemma t_atomic:
  assumes "stabJ R J A" "\<And>a. stabJ R J (B a)"
    and "\<And>m. J m \<Longrightarrow> A m \<Longrightarrow> \<exists>a m'. f t m = Some (a, m') \<and> G m m' \<and> J m' \<and> B a m'"
  shows "triple A (atomic f) B"
  unfolding triple_def by (rule th.hoare_atomic) (use assms in \<open>auto intro!: stab_J\<close>)

lemma t_local:
  assumes "stabJ R J A" "\<And>a. stabJ R J (B a)"
    and "\<And>m. J m \<Longrightarrow> A m \<Longrightarrow> \<exists>a m'. f t m = Some (a, m') \<and> local_step t m m' \<and> B a m'"
  shows "triple A (atomic f) B"
  using assms(3) local_guar J_local by (intro t_atomic assms(1,2)) blast

lemma t_rd:
  assumes "stabJ R J A" "\<And>a. stabJ R J (B a)"
    and "\<And>m. J m \<Longrightarrow> A m \<Longrightarrow> \<exists>n. mem m p = Some n \<and> B (f n) m"
  shows "triple A (rd p f) B"
  unfolding triple_def by (rule hoare_rd[OF th.rg_thread_axioms]) (use assms in \<open>auto intro!: stab_J\<close>)

lemma t_get:
  assumes "stabJ R J A" "\<And>a. stabJ R J (B a)" "\<And>m. J m \<Longrightarrow> A m \<Longrightarrow> B (f t m) m"
  shows "triple A (get f) B"
  unfolding triple_def by (rule th.hoare_get) (use assms in \<open>auto intro!: stab_J\<close>)

subsection \<open>Private nodes\<close>

lemma local_keeps:
  "stabJ (local_step t) J A \<Longrightarrow> J m \<Longrightarrow> A m \<Longrightarrow> local_step t m m' \<Longrightarrow> A m'"
  using J_local unfolding stabJ_def by blast

lemma t_wr_own:
  assumes "stabJ R J A" "stabJ (local_step t) J A" "\<And>n. F n \<Longrightarrow> F' (f n)"
  shows "triple (\<lambda>m. A m \<and> own_node t x F m) (wr x f) (\<lambda>_ m. A m \<and> own_node t x F' m)"
  unfolding wr_def
proof (rule t_local)
  fix m assume J: "J m" and A: "A m \<and> own_node t x F m"
  then obtain n where n: "mem m x = Some n" "F n" "own m x = Priv t"
    by (auto simp: own_node_def)
  have l: "local_step t m (set_node x (f n) m)"
    using local_set_own[OF J_wfm[OF J]] A by blast
  have "A (set_node x (f n) m)" using local_keeps[OF assms(2) J _ l] A by blast
  moreover have "own_node t x F' (set_node x (f n) m)"
    using n assms(3) by (simp add: own_node_def set_node_def)
  ultimately show "\<exists>a m'. (case mem m x of Some n \<Rightarrow> Some ((), set_node x (f n) m) | None \<Rightarrow> None) =
      Some (a, m') \<and> local_step t m m' \<and> A m' \<and> own_node t x F' m'"
    using l n(1) by simp
qed (intro stab_intros assms)+

lemma t_kmalloc:
  assumes "stabJ R J A" "stabJ (local_step t) J A"
  shows "triple A kmalloc_node (\<lambda>x m. (A m \<and> own_node t x (\<lambda>n. True) m) \<and> x \<noteq> NULL)"
  unfolding kmalloc_node_def
proof (rule t_local)
  fix m assume J: "J m" and A: "A m"
  have f: "fresh_node m \<noteq> NULL" "mem m (fresh_node m) = None"
    using fresh_node_ok J_inv[OF J] by (auto simp: inv_def)
  let ?m = "m\<lparr>mem := (mem m)(fresh_node m := Some (kjunk m (kcnt m))),
    own := (own m)(fresh_node m := Priv t), live := fresh_node m # live m, kcnt := kcnt m + 1\<rparr>"
  have l: "local_step t m ?m" by (rule local_kmalloc[OF J_wfm[OF J] f])
  have "A ?m" by (rule local_keeps[OF assms(2) J A l])
  then show "\<exists>a m'. (let a = fresh_node m in
       Some (a, if a = NULL then m\<lparr>kcnt := kcnt m + 1\<rparr>
         else m\<lparr>mem := (mem m)(a := Some (kjunk m (kcnt m))), own := (own m)(a := Priv t),
           live := a # live m, kcnt := kcnt m + 1\<rparr>)) = Some (a, m') \<and> local_step t m m' \<and>
       (A m' \<and> own_node t a (\<lambda>n. True) m') \<and> a \<noteq> NULL"
    using l f by (auto simp: Let_def own_node_def)
qed (intro stab_intros assms)+

lemma t_kfree_own:
  assumes "stabJ R J A" "stabJ (local_step t) J A"
  shows "triple (\<lambda>m. A m \<and> own_node t x F m) (kfree_node x) (\<lambda>_. A)"
  unfolding kfree_node_def
proof (rule t_local)
  fix m assume J: "J m" and A: "A m \<and> own_node t x F m"
  let ?m = "m\<lparr>mem := (mem m)(x := None), live := removeAll x (live m)\<rparr>"
  have l: "local_step t m ?m"
    using local_kfree[OF J_wfm[OF J]] A by blast
  have "A ?m" using local_keeps[OF assms(2) J _ l] A by blast
  moreover have "x \<noteq> NULL" "mem m x \<noteq> None"
    using A J_wfm[OF J] by (auto simp: own_node_def wfm_def)
  ultimately show "\<exists>a m'. (if x = NULL then Some ((), m) else if mem m x = None then None
      else Some ((), ?m)) = Some (a, m') \<and> local_step t m m' \<and> A m'"
    using l by auto
qed (intro stab_intros assms)+

lemma t_kfree_rcu:
  assumes "stabJ R J A" "stabJ (local_step t) J A" "\<And>m. A m \<Longrightarrow> pub m l p"
  shows "triple A (kfree_rcu p) (\<lambda>_. A)"
  unfolding kfree_rcu_def
proof (rule t_local)
  fix m assume J: "J m" and A: "A m"
  have l: "local_step t m (m\<lparr>rcu_cbs := rcu_cbs m @ [p]\<rparr>)" (is "local_step t m ?m")
    by (rule local_book(1)[OF J_wfm[OF J]])
  have "A ?m" by (rule local_keeps[OF assms(2) J A l])
  then show "\<exists>a m'. (if mem m p = None then None else Some ((), ?m)) = Some (a, m') \<and>
      local_step t m m' \<and> A m'"
    using l assms(3)[OF A] by (auto simp: pub_def)
qed (intro assms)+

text \<open>A new node: allocated, not removed, its locks free.\<close>

lemma t_pnd_init:
  assumes "stabJ R J A" "stabJ (local_step t) J A" "i < NR_NUMA_NODES"
    and "\<And>n. F n \<Longrightarrow> F' (n\<lparr>pnd_slocks := (pnd_slocks n)(i := None)\<rparr>)"
  shows "triple (\<lambda>m. A m \<and> own_node t x F m) (pnd_init x i) (\<lambda>_ m. A m \<and> own_node t x F' m)"
  unfolding pnd_init_def using assms by (auto intro!: t_wr_own)

lemma t_pnds:
  assumes A: "stabJ R J A" "stabJ (local_step t) J A" and ns: "\<forall>i \<in> set ns. i < NR_NUMA_NODES"
  shows "triple (\<lambda>m. A m \<and> own_node t x (\<lambda>n. removed n = 0 \<and> (\<forall>i \<in> S. pnd_slocks n i = None)) m)
    (for_each ns (pnd_init x))
    (\<lambda>_ m. A m \<and> own_node t x (\<lambda>n. removed n = 0 \<and> (\<forall>i \<in> S \<union> set ns. pnd_slocks n i = None)) m)"
  using ns
proof (induction ns arbitrary: S)
  case Nil
  show ?case by (simp, rule t_ret, intro stab_intros A)
next
  case (Cons i ns)
  let ?F = "\<lambda>S n. removed n = 0 \<and> (\<forall>i \<in> S. pnd_slocks n i = None)"
  have "triple (\<lambda>m. A m \<and> own_node t x (?F S) m) (pnd_init x i)
      (\<lambda>_ m. A m \<and> own_node t x (?F (insert i S)) m)"
    by (rule t_pnd_init[OF A]) (use Cons.prems in auto)
  moreover have "triple (\<lambda>m. A m \<and> own_node t x (?F (insert i S)) m) (for_each ns (pnd_init x))
      (\<lambda>_ m. A m \<and> own_node t x (?F (insert i S \<union> set ns)) m)"
    by (rule Cons.IH) (use Cons.prems in auto)
  ultimately show ?case by (simp add: t_bind)
qed

lemma t_new_node:
  assumes A: "stabJ R J A" "stabJ (local_step t) J A"
  shows "triple A rcu_new_node
    (\<lambda>x m. \<exists>ns. (A m \<and> consts_are nodes_with_cpus ns m) \<and> own_node t x (new_locks ns) m)"
  unfolding rcu_new_node_def
proof (rule t_bind[OF t_kmalloc[OF A]], rule t_pull)
  fix x :: ptr assume x: "x \<noteq> NULL"
  let ?N = "\<lambda>ns m. A m \<and> consts_are nodes_with_cpus ns m"
  let ?I = "\<lambda>F m. A m \<and> own_node t x F m"
  let ?L = "\<lambda>ns n. removed n = 0 \<and> (\<forall>i \<in> set ns. pnd_slocks n i = None)"
  have N: "stabJ R J (?N ns)" "stabJ (local_step t) J (?N ns)" for ns
    by (intro stab_intros A)+
  have init: "triple (?I (\<lambda>n. True)) (wr x (\<lambda>n. n\<lparr>removed := 0\<rparr>)) (\<lambda>_. ?I (\<lambda>n. removed n = 0))"
    by (rule t_wr_own[OF A]) simp
  have nodes: "triple (?I (\<lambda>n. removed n = 0)) (get (\<lambda>t m. nodes_with_cpus m))
      (\<lambda>ns m. (?N ns m \<and> own_node t x (\<lambda>n. removed n = 0) m) \<and> (\<forall>i \<in> set ns. i < NR_NUMA_NODES))"
    by (rule t_get, intro stab_intros A, intro stab_intros A)
      (use J_inv in \<open>auto simp: inv_def env_ok_def consts_are_def\<close>)
  have pnds: "triple (\<lambda>m. (?N ns m \<and> own_node t x (\<lambda>n. removed n = 0) m) \<and>
        (\<forall>i \<in> set ns. i < NR_NUMA_NODES)) (for_each ns (pnd_init x))
      (\<lambda>_ m. ?N ns m \<and> own_node t x (?L ns) m)" for ns
  proof (rule t_pull)
    assume "\<forall>i \<in> set ns. i < NR_NUMA_NODES"
    from t_pnds[OF N this, where S = "{}"]
    show "triple (\<lambda>m. ?N ns m \<and> own_node t x (\<lambda>n. removed n = 0) m) (for_each ns (pnd_init x))
      (\<lambda>_ m. ?N ns m \<and> own_node t x (?L ns) m)" by simp
  qed
  have fin: "triple (\<lambda>m. ?N ns m \<and> own_node t x (?L ns) m) (wr x (\<lambda>n. n\<lparr>global_lock := None\<rparr>))
      (\<lambda>_ m. ?N ns m \<and> own_node t x (new_locks ns) m)" for ns
    by (rule t_wr_own[OF N]) (simp add: new_locks_def)
  have ret: "triple (\<lambda>m. ?N ns m \<and> own_node t x (new_locks ns) m) (Ret x)
      (\<lambda>x m. \<exists>ns. ?N ns m \<and> own_node t x (new_locks ns) m)" for ns
    by (rule t_ret) (intro stab_intros A, blast)
  show "triple (?I (\<lambda>n. True))
     (if x = NULL then Ret NULL else
      bind (wr x (\<lambda>n. n\<lparr>removed := 0\<rparr>)) (\<lambda>_.
      bind (get (\<lambda>t m. nodes_with_cpus m)) (\<lambda>nodeids.
      bind (for_each nodeids (pnd_init x)) (\<lambda>_.
      bind (wr x (\<lambda>n. n\<lparr>global_lock := None\<rparr>)) (\<lambda>_. Ret x)))))
     (\<lambda>x m. \<exists>ns. ?N ns m \<and> own_node t x (new_locks ns) m)"
    using x t_bind[OF init t_bind[OF nodes t_bind[OF pnds t_bind[OF fin ret]]]] by simp
qed

text \<open>The two field writes that follow: the key and the successor.\<close>

lemma t_prepare:
  assumes A: "stabJ R J A" "stabJ (local_step t) J A"
    and k: "\<And>x. triple (\<lambda>m. A m \<and> ready t x key next m) (k x) Q"
  shows "triple A
    (bind rcu_new_node (\<lambda>x. bind (set_val x key) (\<lambda>_. bind (set_next x next) (\<lambda>_. k x)))) Q"
proof (rule t_bind[OF t_new_node[OF A]], rule t_ex)
  fix x ns
  let ?N = "\<lambda>m. A m \<and> consts_are nodes_with_cpus ns m"
  have N: "stabJ R J ?N" "stabJ (local_step t) J ?N" by (intro stab_intros A)+
  have a: "triple (\<lambda>m. ?N m \<and> own_node t x (new_locks ns) m) (set_val x key)
      (\<lambda>_ m. ?N m \<and> own_node t x (\<lambda>n. new_locks ns n \<and> val n = key) m)"
    unfolding set_val_def by (rule t_wr_own[OF N]) (simp add: new_locks_def)
  have b: "triple (\<lambda>m. ?N m \<and> own_node t x (\<lambda>n. new_locks ns n \<and> val n = key) m) (set_next x next)
      (\<lambda>_ m. ?N m \<and> own_node t x (\<lambda>n. new_locks ns n \<and> val n = key \<and> p_next n = next) m)"
    unfolding set_next_def by (rule t_wr_own[OF N]) (simp add: new_locks_def)
  have c: "triple (\<lambda>m. ?N m \<and> own_node t x (\<lambda>n. new_locks ns n \<and> val n = key \<and> p_next n = next) m)
      (k x) Q"
    by (rule t_pre[OF k]) (auto simp: ready_def)
  show "triple (\<lambda>m. ?N m \<and> own_node t x (new_locks ns) m)
     (bind (set_val x key) (\<lambda>_. bind (set_next x next) (\<lambda>_. k x))) Q"
    by (rule t_bind[OF a t_bind[OF b c]])
qed

lemma t_kfree_ready:
  assumes A: "stabJ R J A" "stabJ (local_step t) J A"
  shows "triple (\<lambda>m. A m \<and> ready t x key q m) (kfree_node x) (\<lambda>_. A)"
proof (rule t_pre)
  show "triple (\<lambda>m. \<exists>ns. A m \<and> own_node t x (\<lambda>n. new_locks ns n \<and> val n = key \<and> p_next n = q) m)
      (kfree_node x) (\<lambda>_. A)"
    by (intro t_ex t_kfree_own A)
qed (auto simp: ready_def)

end

end
