(* ===== verification/Walk.thy ===== *)
theory Walk
  imports Shared
begin

text \<open>
  The walk of a list operation and the lock-free lookup \<open>rcu_list_contains\<close>, for a thread of any
  protocol. The locale \<open>list_op\<close> is one operation: on the key \<open>key\<close> of the list \<open>l\<close>, from the log \<open>H\<close>.
  With \<open>kn\<close> no other thread updates the key meanwhile, so whether it is in the list is the fact \<open>b\<close>.
\<close>

text \<open>What an operation starts from, and what an insertion or removal has done in the end: with
  \<open>ins\<close> (\<open>del\<close>) it has logged that update and nothing else, without it nothing.\<close>

definition started :: "mrel \<Rightarrow> (ptr \<times> val_t) set \<Rightarrow> tid \<Rightarrow> bool \<Rightarrow> ptr \<Rightarrow> val_t \<Rightarrow> bool \<Rightarrow> (tid \<times> ptr \<times> upd) list \<Rightarrow>
    mach \<Rightarrow> bool" where
  "started R K t kn l key b H m \<longleftrightarrow> is_list l m \<and> log_is R K t H m \<and> (kn \<longrightarrow> member_is l key b m)"

definition added :: "mrel \<Rightarrow> (ptr \<times> val_t) set \<Rightarrow> tid \<Rightarrow> bool \<Rightarrow> ptr \<Rightarrow> val_t \<Rightarrow> bool \<Rightarrow> (tid \<times> ptr \<times> upd) list \<Rightarrow>
    bool \<Rightarrow> mach \<Rightarrow> bool" where
  "added R K t kn l key b H ins m \<longleftrightarrow> is_list l m \<and>
     log_is R K t (if ins then H @ [(t, l, Ins key)] else H) m \<and>
     (kn \<longrightarrow> ins = (\<not> b) \<and> member_is l key True m)"

definition deleted :: "mrel \<Rightarrow> (ptr \<times> val_t) set \<Rightarrow> tid \<Rightarrow> bool \<Rightarrow> ptr \<Rightarrow> val_t \<Rightarrow> bool \<Rightarrow> (tid \<times> ptr \<times> upd) list \<Rightarrow>
    bool \<Rightarrow> mach \<Rightarrow> bool" where
  "deleted R K t kn l key b H del m \<longleftrightarrow> is_list l m \<and>
     log_is R K t (if del then H @ [(t, l, Del key)] else H) m \<and>
     (kn \<longrightarrow> del = b \<and> member_is l key False m)"

lemma proj_nest [simp]:
  "is_list l (m\<lparr>rcu_nest := f\<rparr>) = is_list l m"
  "log_is R K t H (m\<lparr>rcu_nest := f\<rparr>) = log_is R K t H m"
  "member_is l key b (m\<lparr>rcu_nest := f\<rparr>) = member_is l key b m"
  "started R K t kn l key b H (m\<lparr>rcu_nest := f\<rparr>) = started R K t kn l key b H m"
  by (simp_all add: started_def know_defs when_alone_def contents_def ahead_def nxt_def[abs_def]
      vl_def hd_of_def)

lemma local_member: "stabJ (local_step t) inv (member_is l key b)"
proof -
  have "member_is l key b m'" if "local_step t m m'" "inv m" "member_is l key b m" for m m'
    using frame_contents[OF inv_wfm[OF that(2)] local_frame(1)[OF that(1)], of l] that(3)
      local_frame(1)[OF that(1)]
    by (simp add: member_is_def frame_eq_def)
  then show ?thesis by (auto simp: stabJ_def)
qed

lemma env_ok_assign [simp]: "env_ok (assign_next t a x m) = env_ok m"
  by (auto simp: env_ok_def assign_next_def Let_def set_node_def split: option.splits owner.splits)

lemma link_inv: "inv m \<Longrightarrow> can_link t l a x m \<Longrightarrow> inv (assign_next t a x m)"
  by (simp add: inv_def link_wfm link_hist_ok)

lemma unlink_inv: "inv m \<Longrightarrow> can_unlink l a m \<Longrightarrow> inv (unlink t a m)"
  by (simp add: inv_def unlink_wfm unlink_hist_ok)

locale list_op = protocol_thread +
  fixes l :: ptr and key :: val_t and kn b :: bool and H :: "(tid \<times> ptr \<times> upd) list" and w :: nat
  assumes key: "key_ok key" and kn_K: "kn \<Longrightarrow> (l, key) \<in> K"
    and fuel: "may_diverge D \<or> 2 ^ 32 \<le> w"
begin

abbreviation "start \<equiv> started R K t kn l key b H"
abbreviation "add_done \<equiv> added R K t kn l key b H"
abbreviation "del_done \<equiv> deleted R K t kn l key b H"

lemma stabJ_ahead_key [stab_intros]: "kn \<Longrightarrow> stabJ R J (ahead_is l p key c)"
  by (rule stabJ_R[OF stabJ_ahead_is[OF kn_K]])

lemma stabJ_member_is [stab_intros]: "kn \<Longrightarrow> stabJ R J (member_is l key c)"
proof (rule stabJ_R)
  assume kn
  have "member_is l key c m'" if r: "rely J K prot t m m'" "J m" and mb: "member_is l key c m" for m m'
  proof -
    have h: "pub m l (hd_of m l)" "lists m l \<noteq> None"
      using mb wf_hd[OF J_wfm[OF r(2)]] by (auto simp: member_is_def)
    have "ahead m' (hd_of m l) key = ahead m (hd_of m l) key" "hd_of m' l = hd_of m l"
        "(lists m' l = None) = (lists m l = None)"
      using r kn_K[OF \<open>kn\<close>] h(1) unfolding rely_def by blast+
    then show ?thesis using mb key h by (simp add: member_is_def contents_ahead)
  qed
  then show "stabJ (rely J K prot t) J (member_is l key c)" by (auto simp: stabJ_def)
qed

lemma stabJ_start [stab_intros]: "stabJ R J start"
  unfolding started_def by (intro stab_intros)

lemma stabJ_added [stab_intros]: "stabJ R J (add_done ins)"
  unfolding added_def by (intro stab_intros)

lemma stabJ_deleted [stab_intros]: "stabJ R J (del_done del)"
  unfolding deleted_def by (intro stab_intros)

lemma stabJ_local_member [stab_intros]: "stabJ (local_step t) J (member_is l key c)"
  using local_member J_inv unfolding stabJ_def by blast

lemma stabJ_local_start [stab_intros]: "stabJ (local_step t) J start"
  unfolding started_def by (intro stab_intros)

lemma stabJ_local_added [stab_intros]: "stabJ (local_step t) J (add_done ins)"
  unfolding added_def by (intro stab_intros)

lemma stabJ_local_deleted [stab_intros]: "stabJ (local_step t) J (del_done del)"
  unfolding deleted_def by (intro stab_intros)

lemma stabJ_local_held [stab_intros]:
  "stabJ (local_step t) J (held prot t l p)"
  "stabJ (local_step t) J (held_next prot t l p q)"
  "stabJ (local_step t) J (held_removed prot t l p v)"
  "stabJ (local_step t) J (held_in_chain prot t l p)"
  "stabJ (local_step t) J (held_gone prot t l p)"
  "stabJ (local_step t) J (grabbed prot t l p)"
proof -
  have *: "(pub m' l p \<and> prot t m' p \<longleftrightarrow> pub m l p \<and> prot t m p) \<and>
      (pub m l p \<longrightarrow> nxt m' p = nxt m p \<and> rmvd m' p = rmvd m p \<and> in_chain m' l p = in_chain m l p)"
    if L: "local_step t m m'" and J: "J m" for m m'
    using local_frame[OF L] prot_local[OF L] wf_pub_list[OF J_wfm[OF J]]
      frame_in_chain[OF J_wfm[OF J] local_frame(1)[OF L]] unfolding frame_eq_def by blast
  show "stabJ (local_step t) J (held prot t l p)"
    "stabJ (local_step t) J (held_next prot t l p q)"
    "stabJ (local_step t) J (held_removed prot t l p v)"
    "stabJ (local_step t) J (held_in_chain prot t l p)"
    "stabJ (local_step t) J (held_gone prot t l p)"
    "stabJ (local_step t) J (grabbed prot t l p)"
    unfolding stabJ_def know_defs using * by auto
qed

lemma skip_add: "start m \<Longrightarrow> (kn \<Longrightarrow> b) \<Longrightarrow> add_done False m"
  by (simp add: started_def added_def)

lemma skip_del: "start m \<Longrightarrow> (kn \<Longrightarrow> \<not> b) \<Longrightarrow> del_done False m"
  by (simp add: started_def deleted_def)

subsection \<open>The walk\<close>

text \<open>
  Where a walk stands: \<open>prev\<close> below the key, \<open>next\<close> its successor when it was read. With \<open>lk\<close>
  the whole list is protected by this thread, so the two nodes are still neighbours in it; so they
  are when no other thread runs.
\<close>

definition linked :: "ptr \<Rightarrow> ptr \<Rightarrow> mach \<Rightarrow> bool" where
  "linked p q m \<longleftrightarrow> pub m l p \<and> in_chain m l p \<and> nxt m p = q"

definition at :: "bool \<Rightarrow> ptr \<Rightarrow> ptr \<Rightarrow> val_t \<Rightarrow> mach \<Rightarrow> bool" where
  "at lk prev next v m \<longleftrightarrow> pos l key prev next m \<and> node_at l next v m \<and>
     (kn \<longrightarrow> ahead_is l next key b m) \<and> when_alone R (linked prev next) m \<and>
     (lk \<longrightarrow> held_next prot t l prev next m \<and> held_in_chain prot t l prev m)"

text \<open>Where it ends: \<open>next\<close> is the first node seen whose value is not below the key.\<close>

definition found :: "bool \<Rightarrow> ptr \<times> ptr \<times> val_t \<Rightarrow> mach \<Rightarrow> bool" where
  "found lk x m \<longleftrightarrow> (case x of (prev, next, v) \<Rightarrow>
     at lk prev next v m \<and> key \<le> v \<and> (kn \<longrightarrow> (v = key) = b))"

lemma stabJ_at [stab_intros]: "stabJ R J (at lk prev next v)"
  unfolding at_def by (intro stab_intros)

lemma stabJ_found [stab_intros]: "stabJ R J (found lk x)"
  unfolding found_def by (cases x) (simp, intro stab_intros)

lemma stabJ_local_found [stab_intros]: "stabJ (local_step t) J (found lk x)"
proof -
  have "linked p q m' = linked p q m \<and> ahead_is l p key c m' = ahead_is l p key c m"
    if L: "local_step t m m'" and J: "J m" for m m' p q c
  proof (cases "pub m l p")
    case True
    note f = local_frame(1)[OF L]
    have "in_chain m' l p = in_chain m l p" "ahead m' p key = ahead m p key" "nxt m' p = nxt m p"
        "pub m' l p"
      using frame_in_chain[OF J_wfm[OF J] f wf_pub_list[OF J_wfm[OF J] True]]
        frame_ahead[OF J_wfm[OF J] f True] f True by (auto simp: frame_eq_def)
    then show ?thesis using True by (simp add: linked_def ahead_is_def)
  next
    case False
    then show ?thesis using L by (simp add: linked_def ahead_is_def local_step_def)
  qed
  then have "stabJ (local_step t) J (linked p q)" "stabJ (local_step t) J (ahead_is l p key c)" for p q c
    by (auto simp: stabJ_def)
  then show ?thesis
    unfolding found_def at_def
    by (cases x) (simp, intro stab_intros stabJ_imp stabJ_when_local; simp)
qed

lemma at_step:
  assumes "J m" "at lk prev next v m" "v < key" "lk \<Longrightarrow> prot t m next"
  shows "at lk next (nxt m next) (vl m (nxt m next)) m \<and> v < vl m (nxt m next)"
proof -
  have w: "wfm m" by (rule J_wfm[OF assms(1)])
  have n: "pub m l next" "vl m next = v" using assms(2) by (auto simp: at_def know_defs)
  have q: "nxt m next \<noteq> NULL" using wf_tail[OF w n(1)] n(2) assms(3) key by (simp add: key_ok_def)
  have pq: "pub m l (nxt m next)" "v < vl m (nxt m next)" using wf_next[OF w n(1) q] n(2) by auto
  have "ahead m (nxt m next) key = ahead m next key"
    using ahead_next[OF w n(1) _ q] n(2) assms(3) by simp
  moreover have "in_chain m l next" if "lk \<or> alone R"
  proof -
    have "in_chain m l prev" "nxt m prev = next"
      using that assms(2) by (auto simp: at_def know_defs when_alone_def linked_def)
    then show "in_chain m l next"
      using reach_snoc[of "nxt m" "hd_of m l" prev] pub_not_null[OF w n(1)]
      by (simp add: in_chain_def)
  qed
  ultimately show ?thesis
    using assms n pq by (auto simp: at_def pos_def know_defs when_alone_def linked_def)
qed

lemma at_found: "J m \<Longrightarrow> at lk prev next v m \<Longrightarrow> key \<le> v \<Longrightarrow> found lk (prev, next, v) m"
  using ahead_eq[OF J_wfm, of m l "next" key] by (auto simp: found_def at_def know_defs)

lemma search_spec:
  assumes A: "stabJ R J A" and lk: "\<And>m p. lk \<Longrightarrow> J m \<Longrightarrow> A m \<Longrightarrow> pub m l p \<Longrightarrow> prot t m p"
    and f: "may_diverge D \<or> nat (LIST_VAL_MAX - v) < f"
  shows "triple (\<lambda>m. A m \<and> at lk prev next v m) (search f key prev next) (\<lambda>x m. A m \<and> found lk x m)"
  using f
proof (induction f arbitrary: prev "next" v)
  case 0
  then show ?case using t_diverge by simp
next
  case (Suc f)
  let ?P = "\<lambda>prev next v m. A m \<and> at lk prev next v m"
  have val: "triple (?P prev next v) (rd next val) (\<lambda>u m. ?P prev next v m \<and> u = v)"
    by (rule t_rd, intro stab_intros A, intro stab_intros A)
      (auto simp: at_def know_defs dest!: pub_mem)
  have step: "triple (?P prev next v) (rd next p_next) (\<lambda>q m. \<exists>v'. ?P next q v' m \<and> v < v')"
    if "\<not> key \<le> v"
  proof (rule t_rd, intro stab_intros A, intro stab_intros A)
    fix m assume m: "J m" "?P prev next v m"
    have pn: "pub m l next" using m by (auto simp: at_def know_defs)
    have "at lk next (nxt m next) (vl m (nxt m next)) m \<and> v < vl m (nxt m next)"
      by (rule at_step) (use m that lk pn in auto)
    then show "\<exists>n. mem m next = Some n \<and> (\<exists>v'. ?P next (p_next n) v' m \<and> v < v')"
      using m pub_mem[OF pn] by auto
  qed
  have rest: "triple (\<lambda>m. \<exists>v'. ?P next q v' m \<and> v < v') (search f key next q)
      (\<lambda>x m. A m \<and> found lk x m)" if "\<not> key \<le> v" for q
  proof (intro t_ex t_pull)
    fix v' assume "v < v'"
    then have "may_diverge D \<or> nat (LIST_VAL_MAX - v') < f"
      using Suc.prems that key by (simp add: key_ok_def) linarith
    then show "triple (?P next q v') (search f key next q) (\<lambda>x m. A m \<and> found lk x m)"
      by (rule Suc.IH)
  qed
  have ret: "triple (?P prev next v) (Ret (prev, next, v)) (\<lambda>x m. A m \<and> found lk x m)" if "key \<le> v"
    by (rule t_ret) (use that A at_found in \<open>auto intro!: stab_intros\<close>)
  show ?case
    unfolding search.simps
  proof (rule t_bind[OF val], rule t_pull)
    fix u assume "u = v"
    then show "triple (?P prev next v)
      (if key \<le> u then Ret (prev, next, u) else bind (rd next p_next) (\<lambda>q. search f key next q))
      (\<lambda>x m. A m \<and> found lk x m)"
      using ret t_bind[OF step rest] by simp
  qed
qed

text \<open>\<open>2 ^ 32\<close> iterations suffice for every walk: values are 32-bit and increase along it.\<close>

lemma find_pos_spec:
  assumes A: "stabJ R J A" and lk: "\<And>m p. lk \<Longrightarrow> J m \<Longrightarrow> A m \<Longrightarrow> pub m l p \<Longrightarrow> prot t m p"
  shows "triple (\<lambda>m. A m \<and> start m) (find_pos w l key) (\<lambda>x m. (A m \<and> start m) \<and> found lk x m)"
  unfolding find_pos_def
proof (rule t_bind)
  show "triple (\<lambda>m. A m \<and> start m) (head_of l) (\<lambda>h m. (A m \<and> start m) \<and> hd_is l h m)"
    unfolding head_of_def
  proof (rule t_local, intro stab_intros A, intro stab_intros A)
    fix m assume "J m" "A m \<and> start m"
    then show "\<exists>a m'. (case lists m l of Some L \<Rightarrow> Some (p_head L, m) | None \<Rightarrow> None) = Some (a, m') \<and>
        local_step t m m' \<and> (A m' \<and> start m') \<and> hd_is l a m'"
      using local_id[OF J_wfm] by (auto simp: started_def is_list_def hd_is_def hd_of_def)
  qed
next
  fix h
  let ?A = "\<lambda>m. A m \<and> start m"
  have first: "triple (\<lambda>m. ?A m \<and> hd_is l h m) (rd h p_next)
    (\<lambda>q m. \<exists>v. (?A m \<and> at lk h q v m) \<and> LIST_VAL_MIN \<le> v)"
  proof (rule t_rd, intro stab_intros A, intro stab_intros A)
    fix m assume m: "J m" "?A m \<and> hd_is l h m"
    have w: "wfm m" by (rule J_wfm[OF m(1)])
    have h: "pub m l h" "vl m h = LIST_VAL_MIN" "hd_of m l = h"
      using m(2) wf_hd[OF w, of l] by (auto simp: hd_is_def)
    have kmin: "LIST_VAL_MIN < key" using key by (simp add: key_ok_def)
    have q: "nxt m h \<noteq> NULL" using wf_tail[OF w h(1)] h(2) by simp
    have pq: "pub m l (nxt m h)" "vl m h < vl m (nxt m h)" using wf_next[OF w h(1) q] by auto
    have "ahead m (nxt m h) key = ahead m h key"
      by (rule ahead_next[OF w h(1) _ q]) (use kmin h(2) in auto)
    then have "at lk h (nxt m h) (vl m (nxt m h)) m"
      using m h pq key lk kmin
      by (auto simp: at_def pos_def know_defs in_chain_def contents_ahead started_def when_alone_def linked_def)
    then show "\<exists>n. mem m h = Some n \<and>
        (\<exists>v. (?A m \<and> at lk h (p_next n) v m) \<and> LIST_VAL_MIN \<le> v)"
      using m(2) pub_mem[OF h(1)] pq(2) h(2) by (auto intro!: exI[of _ "vl m (nxt m h)"])
  qed
  have rest: "triple (\<lambda>m. \<exists>v. (?A m \<and> at lk h q v m) \<and> LIST_VAL_MIN \<le> v) (search w key h q)
      (\<lambda>x m. ?A m \<and> found lk x m)" for q
  proof (intro t_ex t_pull)
    fix v assume v: "LIST_VAL_MIN \<le> v"
    have "may_diverge D \<or> nat (LIST_VAL_MAX - v) < w"
      using fuel v by (auto simp: LIST_VAL_MIN_def LIST_VAL_MAX_def)
    then show "triple (\<lambda>m. ?A m \<and> at lk h q v m) (search w key h q) (\<lambda>x m. ?A m \<and> found lk x m)"
      by (intro search_spec) (use lk in \<open>auto intro!: stab_intros A\<close>)
  qed
  show "triple (\<lambda>m. ?A m \<and> hd_is l h m) (bind (rd h p_next) (search w key h))
      (\<lambda>x m. ?A m \<and> found lk x m)"
    by (rule t_bind[OF first rest])
qed

end

end
