(* ===== verification/Updates.thy ===== *)
theory Updates
  imports Walk
begin

text \<open>
  The shared-memory steps every list variant is built from, for a thread of any protocol: the
  lock-free lookup \<open>rcu_list_contains\<close>, publishing a prepared node between two protected
  neighbours, and bypassing a protected node. Each logs exactly the update that it makes.
\<close>

context list_op
begin

subsection \<open>Lookup\<close>

lemma nest_guar:
  assumes "J m" "\<And>s. s \<noteq> t \<Longrightarrow> f s = rcu_nest m s"
  shows "G m (m\<lparr>rcu_nest := f\<rparr>)"
proof (rule frame_guar[OF assms(1) J_nest[OF assms(1)]])
  show "frame_eq m (m\<lparr>rcu_nest := f\<rparr>)"
    by (simp add: frame_eq_def pub_def nxt_def vl_def hd_of_def)
qed (use assms(2) in \<open>auto simp: const_eq_def priv_def prot_nest rmvd_def\<close>)

lemma nest_spec:
  assumes A: "stabJ R J A" and nest: "\<And>m f. A (m\<lparr>rcu_nest := f\<rparr>) = A m"
  shows "triple (\<lambda>m. A m \<and> nest_is t c m) rcu_read_lock (\<lambda>_ m. A m \<and> nest_is t (c + 1) m)"
    and "triple (\<lambda>m. A m \<and> nest_is t c m) rcu_read_unlock (\<lambda>_ m. A m \<and> nest_is t (c - 1) m)"
  unfolding rcu_read_lock_def rcu_read_unlock_def
  by (rule t_atomic, intro stab_intros A, intro stab_intros A,
      force simp: nest_is_def nest intro: nest_guar J_nest)+

lemma contains_spec:
  assumes A: "stabJ R J A" and nest: "\<And>m f. A (m\<lparr>rcu_nest := f\<rparr>) = A m"
  shows "triple (\<lambda>m. (start m \<and> A m) \<and> nest_is t c m) (rcu_list_contains w l key)
    (\<lambda>r m. ((start m \<and> A m) \<and> nest_is t c m) \<and> (r = 0 \<or> r = 1) \<and> (kn \<longrightarrow> (r = 1) = b))"
proof -
  let ?S = "\<lambda>m. start m \<and> A m"
  let ?Q = "\<lambda>r m. (?S m \<and> nest_is t c m) \<and> (r = 0 \<or> r = (1::int)) \<and> (kn \<longrightarrow> (r = 1) = b)"
  have a: "triple (\<lambda>m. ?S m \<and> nest_is t c m) rcu_read_lock
      (\<lambda>_ m. ?S m \<and> nest_is t (c + 1) m)"
    by (rule nest_spec(1)) (intro stab_intros A, simp add: nest)
  have f: "triple (\<lambda>m. ?S m \<and> nest_is t (c + 1) m) (find_pos w l key)
      (\<lambda>x m. ((A m \<and> nest_is t (c + 1) m) \<and> start m) \<and> found False x m)"
    by (rule t_pre[OF find_pos_spec]) (auto intro!: stab_intros A)
  have u: "triple (\<lambda>m. ((A m \<and> nest_is t (c + 1) m) \<and> start m) \<and> found False x m) rcu_read_unlock
      (\<lambda>_ m. (?S m \<and> (kn \<longrightarrow> (snd (snd x) = key) = b)) \<and> nest_is t (c + 1 - 1) m)" for x
    by (rule t_pre[OF nest_spec(2)]) (intro stab_intros A, auto simp: found_def nest)
  have r: "triple (\<lambda>m. (?S m \<and> (kn \<longrightarrow> (v = key) = b)) \<and> nest_is t (c + 1 - 1) m)
      (Ret (of_bool (v = key))) ?Q" for v
    by (rule t_ret) (intro stab_intros A, auto)
  show ?thesis
    unfolding rcu_list_contains_def
  proof (rule t_bind[OF a], rule t_bind[OF f])
    fix x :: "ptr \<times> ptr \<times> val_t"
    show "triple (\<lambda>m. ((A m \<and> nest_is t (c + 1) m) \<and> start m) \<and> found False x m)
        (case x of (prev, next, v) \<Rightarrow> bind rcu_read_unlock (\<lambda>_. Ret (of_bool (v = key)))) ?Q"
      using t_bind[OF u[of x] r[of "snd (snd x)"]] by (cases x) simp
  qed
qed

subsection \<open>Publishing and bypassing\<close>

text \<open>\<open>prev\<close> and \<open>next\<close> are neighbours in the list, around \<open>key\<close>, and \<open>prev\<close> is protected.\<close>

definition gap :: "ptr \<Rightarrow> ptr \<Rightarrow> mach \<Rightarrow> bool" where
  "gap prev next m \<longleftrightarrow> held_next prot t l prev next m \<and> held_in_chain prot t l prev m \<and>
     pos l key prev next m \<and> (\<exists>v. node_at l next v m \<and> key < v)"

text \<open>\<open>prev\<close>, \<open>next\<close> and \<open>n\<close> follow each other in the list, \<open>next\<close> carries the key, and the first two
  are protected.\<close>

definition bypass :: "ptr \<Rightarrow> ptr \<Rightarrow> ptr \<Rightarrow> mach \<Rightarrow> bool" where
  "bypass prev next n m \<longleftrightarrow> held_next prot t l prev next m \<and> held_in_chain prot t l prev m \<and>
     held_next prot t l next n m \<and> node_at l next key m"

lemma stabJ_gap [stab_intros]: "stabJ R J (gap prev next)" "stabJ (local_step t) J (gap prev next)"
  unfolding gap_def by (intro stab_intros)+

lemma stabJ_bypass [stab_intros]: "stabJ R J (bypass prev next n)"
  unfolding bypass_def by (intro stab_intros)

lemma found_gap: "found True (prev, next, v) m \<Longrightarrow> v \<noteq> key \<Longrightarrow> gap prev next m"
  by (auto simp: found_def at_def gap_def)

lemma found_known: "found lk (prev, next, v) m \<Longrightarrow> kn \<Longrightarrow> b = (v = key)"
  unfolding found_def by auto

lemma found_pub: "found lk (prev, next, v) m \<Longrightarrow> pub m l prev \<and> pub m l next"
  by (simp add: found_def at_def pos_def)

lemma found_bypass:
  "found True (prev, next, key) m \<Longrightarrow> prot t m next \<Longrightarrow> bypass prev next (nxt m next) m"
  by (auto simp: found_def at_def bypass_def know_defs)

text \<open>What the two pointer writes do, between neighbours of the list.\<close>

lemma link_effect:
  assumes "J m" "start m" "kn \<longrightarrow> \<not> b" "linked prev next m" "pos l key prev next m"
    and "node_at l next v m" "key < v" "filled t x key next m"
  shows "can_link t l prev x m" and "add_done True (assign_next t prev x m)" and "vl m x = key"
proof -
  let ?m = "assign_next t prev x m"
  have w: "wfm m" by (rule J_wfm[OF assms(1)])
  have g: "pub m l prev" "nxt m prev = next" "in_chain m l prev" "vl m prev < key" "key < vl m next"
      "pub m l next"
    using assms(4-7) by (auto simp: linked_def know_defs pos_def)
  have r: "priv m t x" "vl m x = key" "nxt m x = next"
    using assms(8) by (auto simp: filled_def own_node_def priv_def vl_def nxt_def)
  show cl: "can_link t l prev x m"
    using w g r pub_not_null[OF w g(6)] by (simp add: can_link_def)
  have "log_is R K t (H @ [(t, l, Ins key)]) ?m"
    using assms(2) link_ghost(2)[OF cl] r(2)
    by (simp add: started_def log_is_def when_alone_def mine_snoc touch_snoc)
  moreover have "is_list l ?m" "member_is l key True ?m"
    using link_contents[OF cl wf_pub_list[OF w g(1)]] r(2) wf_pub_list[OF w g(1)] g(1)
    by (auto simp: know_defs assign_next_proj pub_def)
  ultimately show "add_done True ?m" using assms(3) by (simp add: added_def)
  show "vl m x = key" by (rule r(2))
qed

lemma unlink_effect:
  assumes "J m" "start m" "kn \<longrightarrow> b" "linked prev next m" "node_at l next key m"
  shows "can_unlink l prev m" and "del_done True (unlink t prev m)"
    and "node_at l next key (unlink t prev m)"
proof -
  let ?m = "unlink t prev m"
  have w: "wfm m" by (rule J_wfm[OF assms(1)])
  have g: "pub m l prev" "nxt m prev = next" "in_chain m l prev" "pub m l next" "vl m next = key"
    using assms(4,5) by (auto simp: linked_def know_defs)
  show cu: "can_unlink l prev m"
    using w g pub_not_null[OF w g(4)] wf_tail[OF w g(4)] key
    by (simp add: can_unlink_def key_ok_def)
  have "log_is R K t (H @ [(t, l, Del key)]) ?m"
    using assms(2) unlink_ghost(2)[OF cu] g(2,5)
    by (simp add: started_def log_is_def when_alone_def mine_snoc touch_snoc)
  moreover have "is_list l ?m" "member_is l key False ?m"
    using unlink_contents[OF cu wf_pub_list[OF w g(1)]] g(2,5) wf_pub_list[OF w g(1)] g(1)
    by (auto simp: know_defs assign_next_proj pub_def)
  ultimately show "del_done True ?m" using assms(3) by (simp add: deleted_def)
  show "node_at l next key ?m"
    using unlink_pub[OF cu] g(1,4,5) by (auto simp: node_at_def assign_next_proj pub_def)
qed

lemma link_spec:
  assumes A: "stabJ R J A" and B: "stabJ R J B" and U: "(l, key) \<in> U"
    and step: "\<And>m. J m \<Longrightarrow> A m \<Longrightarrow> can_link t l prev x m \<Longrightarrow> prot t m prev \<Longrightarrow>
      J (assign_next t prev x m) \<and> B (assign_next t prev x m) \<and>
      (\<forall>s l' p. s \<noteq> t \<longrightarrow> pub m l' p \<longrightarrow> prot s m p \<longrightarrow> prot s (assign_next t prev x m) p)"
  shows "triple (\<lambda>m. (A m \<and> gap prev next m \<and> start m \<and> (kn \<longrightarrow> \<not> b)) \<and> filled t x key next m)
    (rcu_assign_next prev x) (\<lambda>_ m. B m \<and> add_done True m)"
  unfolding rcu_assign_next_def
proof (rule t_atomic, intro stab_intros A, intro stab_intros B)
  fix m assume J: "J m"
    and m: "(A m \<and> gap prev next m \<and> start m \<and> (kn \<longrightarrow> \<not> b)) \<and> filled t x key next m"
  then obtain v where g: "linked prev next m" "pos l key prev next m" "node_at l next v m" "key < v"
      "prot t m prev"
    by (auto simp: gap_def linked_def know_defs)
  let ?m = "assign_next t prev x m"
  note e = link_effect[OF J _ _ g(1-4), of x]
  have st: "J ?m \<and> B ?m \<and> (\<forall>s l' p. s \<noteq> t \<longrightarrow> pub m l' p \<longrightarrow> prot s m p \<longrightarrow> prot s ?m p)"
    by (rule step[OF J _ e(1) g(5)]) (use m in auto)
  have "G m ?m"
    by (rule link_guar[OF J _ e(1)]) (use m st U e(3) g(5) prot_excl in auto)
  then have "G m ?m \<and> J ?m \<and> B ?m \<and> add_done True ?m" using st e(2) m by blast
  moreover have "mem m prev \<noteq> None" using g(1) by (simp add: linked_def pub_def)
  ultimately show "\<exists>a m'. (if mem m prev = None then None else Some ((), ?m)) = Some (a, m') \<and>
      G m m' \<and> J m' \<and> B m' \<and> add_done True m'" by auto
qed

lemma unlink_spec:
  assumes A: "stabJ R J A" and B: "stabJ R J B" and U: "(l, key) \<in> U"
    and step: "\<And>m. J m \<Longrightarrow> A m \<Longrightarrow> can_unlink l prev m \<Longrightarrow> prot t m prev \<Longrightarrow> nxt m prev = next \<Longrightarrow>
      J (unlink t prev m) \<and> B (unlink t prev m) \<and>
      (\<forall>s l' p. s \<noteq> t \<longrightarrow> pub m l' p \<longrightarrow> prot s m p \<longrightarrow> prot s (unlink t prev m) p)"
  shows "triple (\<lambda>m. A m \<and> bypass prev next n m \<and> start m \<and> (kn \<longrightarrow> b))
    (rcu_assign_next prev n) (\<lambda>_ m. B m \<and> del_done True m \<and> node_at l next key m)"
  unfolding rcu_assign_next_def
proof (rule t_atomic, intro stab_intros A, intro stab_intros B)
  fix m assume J: "J m" and m: "A m \<and> bypass prev next n m \<and> start m \<and> (kn \<longrightarrow> b)"
  then have g: "linked prev next m" "node_at l next key m" "prot t m prev" "prot t m next"
      "nxt m next = n" "nxt m prev = next"
    by (auto simp: bypass_def linked_def know_defs)
  let ?m = "unlink t prev m"
  note e = unlink_effect[OF J _ _ g(1,2)]
  have st: "J ?m \<and> B ?m \<and> (\<forall>s l' p. s \<noteq> t \<longrightarrow> pub m l' p \<longrightarrow> prot s m p \<longrightarrow> prot s ?m p)"
    by (rule step[OF J _ e(1) g(3,6)]) (use m in auto)
  have "G m ?m"
    by (rule unlink_guar[OF J _ e(1)]) (use m st U g prot_excl in \<open>auto simp: node_at_def\<close>)
  then have "G m ?m \<and> J ?m \<and> B ?m \<and> del_done True ?m \<and> node_at l next key ?m" using st e(2,3) m by blast
  moreover have "mem m prev \<noteq> None" "assign_next t prev n m = ?m"
    using g by (simp_all add: linked_def pub_def)
  ultimately show "\<exists>a m'. (if mem m prev = None then None else Some ((), assign_next t prev n m)) =
      Some (a, m') \<and> G m m' \<and> J m' \<and> B m' \<and> del_done True m' \<and> node_at l next key m'" by auto
qed

text \<open>Reading the value of the node found again gives the same value.\<close>

lemma reread_spec:
  assumes "stabJ R J A"
  shows "triple (\<lambda>m. A m \<and> found lk (prev, next, v) m) (rd next val)
    (\<lambda>u m. (A m \<and> found lk (prev, next, v) m) \<and> u = v)"
  by (rule t_rd, intro stab_intros assms, intro stab_intros assms)
    (auto simp: found_def at_def know_defs dest!: pub_mem)

subsection \<open>Reaching the list of a key\<close>

text \<open>The table never changes; \<open>HASH_VALUE\<close> and the array access succeed on a key that is not
  negative.\<close>

lemma t_table:
  assumes A: "stabJ R J A" and T: "\<And>m. A m \<Longrightarrow> g_hash_list m = Some T"
  shows "triple A (get (\<lambda>t m. g_hash_list m)) (\<lambda>x m. A m \<and> x = Some T)"
  by (rule t_get, rule A, intro stab_intros A) (use T in auto)

lemma t_hash_value:
  assumes A: "stabJ R J A" and T: "\<And>m. A m \<Longrightarrow> g_hash_list m = Some T" and n: "0 < n_buckets T"
  shows "triple A (HASH_VALUE key) (\<lambda>h m. A m \<and> h = c_rem key (n_buckets T))"
proof -
  have nb: "triple A n_buckets_of (\<lambda>n m. A m \<and> n = n_buckets T)"
    unfolding n_buckets_of_def
  proof (rule t_bind[OF t_table[OF A T]], assumption, rule t_pull)
    fix x assume "x = Some T"
    then show "triple A (case x of None \<Rightarrow> Fault | Some H \<Rightarrow> Ret (n_buckets H)) (\<lambda>n m. A m \<and> n = n_buckets T)"
      by (simp, intro t_ret A) simp
  qed
  show ?thesis
    unfolding HASH_VALUE_def
  proof (rule t_bind[OF nb], rule t_pull)
    fix x assume "x = n_buckets T"
    then show "triple A (if x = 0 then Fault else Ret (c_rem key x)) (\<lambda>h m. A m \<and> h = c_rem key (n_buckets T))"
      using n by (simp, intro t_ret A) simp
  qed
qed

lemma t_bucket_at:
  assumes A: "stabJ R J A" and T: "\<And>m. A m \<Longrightarrow> g_hash_list m = Some T"
    and h: "0 \<le> h" "h < int MAX_BUCKETS"
  shows "triple A (bucket_at h) (\<lambda>q m. A m \<and> q = buckets T h)"
  unfolding bucket_at_def
proof (rule t_bind[OF t_table[OF A T]], assumption, rule t_pull)
  fix x assume "x = Some T"
  then show "triple A (case x of None \<Rightarrow> Fault | Some H \<Rightarrow>
      if 0 \<le> h \<and> h < int MAX_BUCKETS then Ret (buckets H h) else Fault) (\<lambda>q m. A m \<and> q = buckets T h)"
    using h by (simp, intro t_ret A) simp
qed

text \<open>Any continuation of the hash value of a key runs with a bucket inside the array.\<close>

lemma t_hashed:
  assumes A: "stabJ R J A" and T: "\<And>m. A m \<Longrightarrow> g_hash_list m = Some T"
    and n: "0 < n_buckets T" "n_buckets T \<le> int MAX_BUCKETS" "0 \<le> key"
    and k: "\<And>h. h = c_rem key (n_buckets T) \<Longrightarrow> 0 \<le> h \<Longrightarrow> h < int MAX_BUCKETS \<Longrightarrow> triple A (k h) B"
  shows "triple A (bind (HASH_VALUE key) k) B"
proof (rule t_bind[OF t_hash_value[OF A T n(1)]], assumption, rule t_pull)
  fix h assume "h = c_rem key (n_buckets T)"
  then show "triple A (k h) B" using c_rem_nonneg[of key "n_buckets T"] n by (intro k) auto
qed

lemma t_with_bucket:
  assumes A: "stabJ R J A" and T: "\<And>m. A m \<Longrightarrow> g_hash_list m = Some T"
    and n: "0 < n_buckets T" "n_buckets T \<le> int MAX_BUCKETS" "0 \<le> key"
    and l: "l = buckets T (c_rem key (n_buckets T))"
    and op: "triple A (opr l key) B"
  shows "triple A (with_bucket opr key) B"
  unfolding with_bucket_def
proof (rule t_hashed[OF A T n], assumption)
  fix h assume h: "h = c_rem key (n_buckets T)" "0 \<le> h" "h < int MAX_BUCKETS"
  show "triple A (bind (bucket_at h) (\<lambda>q. opr q key)) B"
  proof (rule t_bind[OF t_bucket_at[OF A T h(2,3)]], assumption, rule t_pull)
    fix q assume "q = buckets T h"
    then show "triple A (opr q key) B" using op l h(1) by simp
  qed
qed

text \<open>The log decides whether a key that no other thread updates is in the list.\<close>

lemma log_decides:
  assumes "J m" "log_is R K t H m" "is_list l m" "(l, key) \<in> K"
  shows "member_is l key (key \<in> replay {} (upds l H)) m"
  using assms J_inv[OF assms(1)] replay_touch[of K "hist m" H l key]
  by (simp add: log_is_def member_is_def is_list_def inv_def hist_ok_def)

end

end
