(* ===== verification/Locks.thy ===== *)
theory Locks
  imports Updates
begin

text \<open>
  Taking and releasing a spinlock, for a thread of any protocol. Setting a lock changes neither
  the structure of the lists nor private nodes; what it does to protection is the protocol's.
\<close>

text \<open>The locks that threads share: those of lists and of published nodes.\<close>

fun shared_lock :: "mach \<Rightarrow> lockref \<Rightarrow> bool" where
  "shared_lock m (RcuSpin l) \<longleftrightarrow> lists m l \<noteq> None"
| "shared_lock m (Global p) \<longleftrightarrow> (\<exists>l. pub m l p)"
| "shared_lock m (Pnd p i) \<longleftrightarrow> (\<exists>l. pub m l p) \<and> i < NR_NUMA_NODES"

definition lock_step :: mrel where
  "lock_step m m' \<longleftrightarrow> frame_eq m m' \<and> const_eq m m' \<and> heap_ok m' \<and> own m' = own m \<and>
     rmvd m' = rmvd m \<and> nxt m' = nxt m \<and> vl m' = vl m \<and> rcu_nest m' = rcu_nest m \<and>
     (\<forall>p. (mem m' p = None) = (mem m p = None)) \<and>
     (\<forall>t p. priv m t p \<longrightarrow> mem m' p = mem m p)"

text \<open>Marking a node removed is such a step too, but for \<open>rmvd\<close>.\<close>

definition sync_step :: mrel where
  "sync_step m m' \<longleftrightarrow> frame_eq m m' \<and> const_eq m m' \<and> heap_ok m' \<and> own m' = own m \<and>
     nxt m' = nxt m \<and> vl m' = vl m \<and> rcu_nest m' = rcu_nest m \<and>
     (\<forall>t p. priv m t p \<longrightarrow> mem m' p = mem m p)"

lemma lock_sync: "lock_step m m' \<Longrightarrow> sync_step m m'"
  by (simp add: lock_step_def sync_step_def)

lemma stabJ_sync: "stabJ sync_step J A \<Longrightarrow> stabJ lock_step J A"
  using lock_sync by (auto simp: stabJ_def)

lemma lock_get_some: "shared_lock m k \<Longrightarrow> lock_get m k \<noteq> None"
  by (cases k) (auto simp: pub_def)

lemma lock_get_set: "lock_get (lock_set k v m) k' =
    (if k' = k then map_option (\<lambda>_. v) (lock_get m k) else lock_get m k')"
  by (cases k; cases k') (auto simp: option.map_comp comp_def split: option.splits)

lemma lock_set_step:
  assumes "wfm m" "shared_lock m k"
  shows "lock_step m (lock_set k v m)"
proof (cases k)
  case (RcuSpin l)
  then show ?thesis
    using assms wfm_heap_ok[OF assms(1)]
    by (auto simp: lock_step_def frame_eq_def const_eq_def heap_ok_def pub_def nxt_def[abs_def]
        vl_def[abs_def] hd_of_def rmvd_def[abs_def] split: option.splits)
next
  case (Global p)
  then show ?thesis
    using assms wfm_heap_ok[OF assms(1)]
    by (auto simp: lock_step_def frame_eq_def const_eq_def heap_ok_def pub_def priv_def nxt_def[abs_def]
        vl_def[abs_def] hd_of_def rmvd_def[abs_def] fun_eq_iff split: option.splits)
next
  case (Pnd p i)
  then show ?thesis
    using assms wfm_heap_ok[OF assms(1)]
    by (auto simp: lock_step_def frame_eq_def const_eq_def heap_ok_def pub_def priv_def nxt_def[abs_def]
        vl_def[abs_def] hd_of_def rmvd_def[abs_def] fun_eq_iff split: option.splits)
qed

lemma lock_step_inv: "inv m \<Longrightarrow> lock_step m m' \<Longrightarrow> inv m'"
  unfolding lock_step_def using inv_frame by blast

lemma lock_step_pub: "lock_step m m' \<Longrightarrow> pub m' l p = pub m l p"
  by (simp add: lock_step_def frame_eq_def)

lemma lock_step_proj:
  "lock_step m m' \<Longrightarrow> pub m' = pub m \<and> nxt m' = nxt m \<and> rmvd m' = rmvd m \<and>
    nodes_with_cpus m' = nodes_with_cpus m \<and> node_of m' = node_of m"
  by (auto simp: lock_step_def frame_eq_def const_eq_def fun_eq_iff)

lemma lock_step_priv: "lock_step m m' \<Longrightarrow> priv m' t p = priv m t p"
  by (simp add: lock_step_def priv_def)

lemma lock_step_in_chain:
  "lock_step m m' \<Longrightarrow> in_chain m' l p = in_chain m l p"
  by (simp add: lock_step_def in_chain_def frame_eq_def)

text \<open>What a lock step leaves as it is.\<close>

lemma stabJ_sync_basic [stab_intros]:
  "stabJ sync_step J (is_list l)"
  "stabJ sync_step J (node_at l p v)"
  "stabJ sync_step J (own_node t x F)"
  "stabJ sync_step J (log_is R K t H)"
  "stabJ sync_step J (ahead_is l p v b)"
  "stabJ sync_step J (member_is l v b)"
  "stabJ sync_step J (hd_is l p)"
  "stabJ sync_step J (nest_is t c)"
  "stabJ sync_step J (pos l key p q)"
  "stabJ sync_step J (consts_are g_hash_list T)"
  "stabJ sync_step J (consts_are nodes_with_cpus ns)"
proof -
  have *: "own m' = own m \<and> (\<forall>l p. pub m' l p = pub m l p) \<and> nxt m' = nxt m \<and> vl m' = vl m \<and>
      (\<forall>l. hd_of m' l = hd_of m l \<and> (lists m' l = None) = (lists m l = None)) \<and>
      hist m' = hist m \<and> rcu_nest m' = rcu_nest m \<and> const_eq m m'" if "sync_step m m'" for m m'
    using that unfolding sync_step_def frame_eq_def by blast
  have "is_list l m' = is_list l m \<and> node_at l p v m' = node_at l p v m \<and>
      log_is R K t H m' = log_is R K t H m \<and> ahead_is l p v b m' = ahead_is l p v b m \<and>
      member_is l v b m' = member_is l v b m \<and> hd_is l p m' = hd_is l p m \<and>
      nest_is t c m' = nest_is t c m \<and> pos l key p q m' = pos l key p q m \<and>
      consts_are g_hash_list T m' = consts_are g_hash_list T m \<and>
      consts_are nodes_with_cpus ns m' = consts_are nodes_with_cpus ns m"
    if "sync_step m m'" for m m'
    using *[OF that]
    by (simp add: know_defs when_alone_def pos_def contents_def ahead_def const_eq_def)
  then show "stabJ sync_step J (is_list l)" "stabJ sync_step J (node_at l p v)"
    "stabJ sync_step J (log_is R K t H)" "stabJ sync_step J (ahead_is l p v b)"
    "stabJ sync_step J (member_is l v b)" "stabJ sync_step J (hd_is l p)"
    "stabJ sync_step J (nest_is t c)" "stabJ sync_step J (pos l key p q)"
    "stabJ sync_step J (consts_are g_hash_list T)"
    "stabJ sync_step J (consts_are nodes_with_cpus ns)"
    by (simp_all add: stabJ_def)
  have "mem m' p = mem m p" if "sync_step m m'" "own m p = Priv t" "mem m p = Some n" for m m' p n
    using that unfolding sync_step_def priv_def by auto
  then have "own_node t x F m'" if "sync_step m m'" "own_node t x F m" for m m'
    using that *[OF that(1)] by (auto simp: own_node_def)
  then show "stabJ sync_step J (own_node t x F)" by (simp add: stabJ_def)
qed

lemma stabJ_sync_ready [stab_intros]: "stabJ sync_step J (ready t x key next)"
  unfolding ready_def by (intro stab_intros)

lemmas stabJ_lock_basic [stab_intros] = stabJ_sync_basic [THEN stabJ_sync]
  stabJ_sync_ready [THEN stabJ_sync]

context list_op
begin

lemma stabJ_sync_op [stab_intros]:
  "stabJ sync_step J start"
  "stabJ sync_step J (add_done ins)"
  "stabJ sync_step J (del_done del)"
  unfolding started_def added_def deleted_def by (intro stab_intros stabJ_imp)+

lemmas stabJ_lock_op [stab_intros] = stabJ_sync_op [THEN stabJ_sync]

lemma lock_guar:
  assumes "J m" "lock_step m m'" "J m'"
    and "\<And>s l p. s \<noteq> t \<Longrightarrow> pub m l p \<Longrightarrow> prot s m p \<Longrightarrow> prot s m' p"
  shows "G m m'"
proof (rule frame_guar[OF assms(1,3)])
  show "frame_eq m m'" "const_eq m m'" using assms(2) by (simp_all add: lock_step_def)
qed (use assms(2,4) in \<open>auto simp: lock_step_def priv_def\<close>)

text \<open>A protocol says when \<open>lock_set\<close> keeps its invariant and the others' protection.\<close>

lemma t_spin_lock:
  assumes A: "stabJ R J A" and B: "stabJ R J B" and sh: "\<And>m. J m \<Longrightarrow> A m \<Longrightarrow> shared_lock m k"
    and free: "\<And>m. J m \<Longrightarrow> A m \<Longrightarrow> lock_get m k = Some None \<or> may_block D"
    and step: "\<And>m. J m \<Longrightarrow> A m \<Longrightarrow> lock_get m k = Some None \<Longrightarrow> lock_step m (lock_set k (Some t) m) \<Longrightarrow>
      J (lock_set k (Some t) m) \<and> B (lock_set k (Some t) m) \<and>
      (\<forall>s l p. s \<noteq> t \<longrightarrow> pub m l p \<longrightarrow> prot s m p \<longrightarrow> prot s (lock_set k (Some t) m) p)"
  shows "triple A (spin_lock k) (\<lambda>_. B)"
  unfolding triple_def
proof (rule hoare_spin_lock, rule stab_J[OF A], rule stab_J[OF B])
  fix m assume m: "J m \<and> A m"
  then show "lock_get m k \<noteq> None" using sh lock_get_some by blast
  show "lock_get m k = Some None \<or> may_block D" using m free by blast
  assume f: "lock_get m k = Some None"
  have s: "lock_step m (lock_set k (Some t) m)"
    using lock_set_step[OF J_wfm] sh m by blast
  show "G m (lock_set k (Some t) m) \<and> J (lock_set k (Some t) m) \<and> B (lock_set k (Some t) m)"
    using lock_guar[OF _ s] step[OF _ _ f s] m by blast
qed

lemma t_spin_unlock:
  assumes A: "stabJ R J A" and B: "stabJ R J B" and sh: "\<And>m. J m \<Longrightarrow> A m \<Longrightarrow> shared_lock m k"
    and step: "\<And>m. J m \<Longrightarrow> A m \<Longrightarrow> lock_step m (lock_set k None m) \<Longrightarrow>
      J (lock_set k None m) \<and> B (lock_set k None m) \<and>
      (\<forall>s l p. s \<noteq> t \<longrightarrow> pub m l p \<longrightarrow> prot s m p \<longrightarrow> prot s (lock_set k None m) p)"
  shows "triple A (spin_unlock k) (\<lambda>_. B)"
  unfolding spin_unlock_def
proof (rule t_atomic[OF A B])
  fix m assume m: "J m" "A m"
  have s: "lock_step m (lock_set k None m)"
    using lock_set_step[OF J_wfm] sh m by blast
  have "lock_get m k \<noteq> None" using sh lock_get_some m by blast
  then show "\<exists>a m'. (if lock_get m k = None then None else Some ((), lock_set k None m)) = Some (a, m') \<and>
      G m m' \<and> J m' \<and> B m'"
    using lock_guar[OF _ s] step[OF _ _ s] m by auto
qed

lemma t_spin_trylock:
  assumes A: "stabJ R J A" and B: "stabJ R J B" and sh: "\<And>m. J m \<Longrightarrow> A m \<Longrightarrow> shared_lock m k"
    and step: "\<And>m. J m \<Longrightarrow> A m \<Longrightarrow> lock_get m k = Some None \<Longrightarrow> lock_step m (lock_set k (Some t) m) \<Longrightarrow>
      J (lock_set k (Some t) m) \<and> B (lock_set k (Some t) m) \<and>
      (\<forall>s l p. s \<noteq> t \<longrightarrow> pub m l p \<longrightarrow> prot s m p \<longrightarrow> prot s (lock_set k (Some t) m) p)"
    and free: "\<And>m. alone R \<Longrightarrow> J m \<Longrightarrow> A m \<Longrightarrow> lock_get m k = Some None"
  shows "triple A (spin_trylock k) (\<lambda>r m. if r then B m else A m \<and> \<not> alone R)"
  unfolding spin_trylock_def
proof (rule t_atomic[OF A])
  show "stabJ R J (\<lambda>m. if r then B m else A m \<and> \<not> alone R)" for r
    by (cases r) (simp_all, intro B, intro stab_intros A)
next
  fix m assume m: "J m" "A m"
  have s: "lock_step m (lock_set k (Some t) m)"
    using lock_set_step[OF J_wfm] sh m by blast
  obtain v where v: "lock_get m k = Some v" using sh lock_get_some m by blast
  show "\<exists>a m'. (case lock_get m k of None \<Rightarrow> None | Some None \<Rightarrow> Some (True, lock_set k (Some t) m)
      | Some (Some x) \<Rightarrow> Some (False, m)) = Some (a, m') \<and> G m m' \<and> J m' \<and>
      (if a then B m' else A m' \<and> \<not> alone R)"
  proof (cases v)
    case None
    then show ?thesis using v m lock_guar[OF _ s] step[OF _ _ _ s] by auto
  next
    case (Some x)
    then show ?thesis using v m free guar_refl by auto
  qed
qed

end

end
