(* ===== verification/ListLock.thy ===== *)
theory ListLock
  imports Locks
begin

text \<open>
  The spinlock of a list, taken for a whole update: a thread protects every node of a list whose
  lock it holds. The locale \<open>lock_op\<close> is the critical section of an update, for any invariant \<open>J\<close>:
  \<open>calm\<close> is what \<open>J\<close> asks of the list whenever its lock is free, and what the holder of the lock
  has to restore before it releases it.
\<close>

lemma inv_nest: "inv (m\<lparr>rcu_nest := f\<rparr>) = inv m"
  by (simp add: inv_def wfm_def hist_ok_def env_ok_def pub_def nxt_def[abs_def] vl_def hd_of_def
      contents_def ahead_def)

definition prot_rcu :: "tid \<Rightarrow> mach \<Rightarrow> ptr \<Rightarrow> bool" where
  "prot_rcu s m p \<longleftrightarrow> (\<exists>l L. own m p = Pub l \<and> lists m l = Some L \<and> rcuspin L = Some s)"

lemma prot_rcu_pub:
  "pub m l p \<Longrightarrow> prot_rcu s m p \<longleftrightarrow> (\<exists>L. lists m l = Some L \<and> rcuspin L = Some s)"
  by (auto simp: prot_rcu_def pub_def)

definition locked :: "tid \<Rightarrow> ptr \<Rightarrow> mach \<Rightarrow> bool" where
  "locked t l m \<longleftrightarrow> lock_get m (RcuSpin l) = Some (Some t)"

text \<open>The locks of all lists but those in \<open>L\<close> are free.\<close>

definition unlocked :: "ptr set \<Rightarrow> mach \<Rightarrow> bool" where
  "unlocked L m \<longleftrightarrow> (\<forall>l. lists m l \<noteq> None \<longrightarrow> l \<notin> L \<longrightarrow> lock_get m (RcuSpin l) = Some None)"

lemma locked_prot: "locked t l m \<Longrightarrow> pub m l p \<Longrightarrow> prot_rcu t m p"
  by (auto simp: locked_def prot_rcu_pub)

lemma locked_is_list: "locked t l m \<Longrightarrow> is_list l m"
  by (auto simp: locked_def is_list_def)

lemma stabJ_local_unlocked [stab_intros]: "stabJ (local_step t) J (when_alone R (unlocked L))"
  by (auto simp: stabJ_def local_step_def unlocked_def when_alone_def)

text \<open>What depends only on the locks of the lists and on the read-side nesting.\<close>

definition book_eq :: mrel where
  "book_eq m m' \<longleftrightarrow> lists m' = lists m \<and> rcu_nest m' = rcu_nest m"

lemma stabJ_book [stab_intros]:
  "stabJ book_eq J (nest_is t c)"
  "stabJ book_eq J (is_list l)"
  "stabJ book_eq J (when_alone R (unlocked L))"
  by (auto simp: stabJ_def book_eq_def nest_is_def is_list_def unlocked_def when_alone_def)

lemma assign_book: "mem m a \<noteq> None \<Longrightarrow> book_eq m (assign_next t a x m)"
  by (auto simp: book_eq_def assign_next_proj)

locale lock_op = list_op prot_rcu J t R K U D l key kn b H w
  for J t R K U D l key kn b H w +
  fixes calm :: "mach \<Rightarrow> bool"
  assumes key_U: "(l, key) \<in> U" and blocking: "alone R \<or> may_block D"
    and J_take: "J m \<Longrightarrow> lock_get m (RcuSpin l) = Some None \<Longrightarrow>
      lock_step m (lock_set (RcuSpin l) (Some t) m) \<Longrightarrow>
      J (lock_set (RcuSpin l) (Some t) m) \<and> calm (lock_set (RcuSpin l) (Some t) m)"
    and J_drop: "J m \<Longrightarrow> locked t l m \<Longrightarrow> calm m \<Longrightarrow> lock_step m (lock_set (RcuSpin l) None m) \<Longrightarrow>
      J (lock_set (RcuSpin l) None m)"
    and calm_R: "J m \<Longrightarrow> locked t l m \<Longrightarrow> calm m \<Longrightarrow> R m m' \<Longrightarrow> calm m'"
    and calm_local: "J m \<Longrightarrow> locked t l m \<Longrightarrow> calm m \<Longrightarrow> local_step t m m' \<Longrightarrow> calm m'"
    and J_link: "J m \<Longrightarrow> locked t l m \<Longrightarrow> can_link t l a x m \<Longrightarrow>
      J (assign_next t a x m) \<and> (calm m \<longrightarrow> calm (assign_next t a x m))"
    and J_unlink: "J m \<Longrightarrow> locked t l m \<Longrightarrow> can_unlink l a m \<Longrightarrow> J (unlink t a m)"
begin

lemma stabJ_locked [stab_intros]: "stabJ R J (locked t l)"
proof (rule stabJ_R)
  have "locked t l m'" if "rely J K prot_rcu t m m'" "J m" "locked t l m" for m m'
  proof -
    have p: "pub m l (hd_of m l)"
      using wf_hd[OF J_wfm[OF that(2)]] locked_is_list[OF that(3)] by (auto simp: is_list_def)
    then have "prot_rcu t m (hd_of m l)" by (rule locked_prot[OF that(3)])
    then have "prot_rcu t m' (hd_of m l)" "pub m' l (hd_of m l)"
      using that(1,2) p unfolding rely_def by blast+
    then show ?thesis by (auto simp: prot_rcu_pub locked_def)
  qed
  then show "stabJ (rely J K prot_rcu t) J (locked t l)" by (auto simp: stabJ_def)
qed

lemma stabJ_local_locked [stab_intros]: "stabJ (local_step t) J (locked t l)"
  by (auto simp: stabJ_def local_step_def locked_def)

text \<open>Inside the critical section; \<open>settled\<close> when it may be left.\<close>

definition crit :: "mach \<Rightarrow> bool" where
  "crit m \<longleftrightarrow> locked t l m \<and> when_alone R (unlocked {l}) m"

definition settled :: "mach \<Rightarrow> bool" where
  "settled m \<longleftrightarrow> crit m \<and> calm m"

lemma stabJ_crit [stab_intros]: "stabJ R J crit" "stabJ (local_step t) J crit"
  unfolding crit_def by (intro stab_intros)+

lemma stabJ_settled [stab_intros]: "stabJ R J settled" "stabJ (local_step t) J settled"
  using stabJ_crit calm_R calm_local unfolding stabJ_def settled_def crit_def by blast+

lemma crit_prot: "crit m \<Longrightarrow> pub m l p \<Longrightarrow> prot_rcu t m p"
  unfolding crit_def using locked_prot by blast

lemma settled_prot: "settled m \<Longrightarrow> pub m l p \<Longrightarrow> prot_rcu t m p"
  unfolding settled_def using crit_prot by blast

lemma lock_keeps:
  "stabJ lock_step J A \<Longrightarrow> J m \<Longrightarrow> J m' \<Longrightarrow> A m \<Longrightarrow> lock_step m m' \<Longrightarrow> A m'"
  unfolding stabJ_def by blast

text \<open>Entering the critical section protects the whole list, leaving it protects nothing.\<close>

lemma take_step:
  assumes "stabJ lock_step J A" "J m" "A m" "when_alone R (unlocked {}) m"
    and "lock_get m (RcuSpin l) = Some None" "lock_step m (lock_set (RcuSpin l) (Some t) m)"
  shows "J (lock_set (RcuSpin l) (Some t) m) \<and>
    (settled (lock_set (RcuSpin l) (Some t) m) \<and> A (lock_set (RcuSpin l) (Some t) m)) \<and>
    (\<forall>s l' p. s \<noteq> t \<longrightarrow> pub m l' p \<longrightarrow> prot_rcu s m p \<longrightarrow> prot_rcu s (lock_set (RcuSpin l) (Some t) m) p)"
proof -
  let ?m = "lock_set (RcuSpin l) (Some t) m"
  note j = J_take[OF assms(2,5,6)]
  have "A ?m" by (rule lock_keeps[OF assms(1,2) _ assms(3,6)]) (use j in blast)
  then show ?thesis
    using j assms(4,5)
    by (auto simp: settled_def crit_def locked_def prot_rcu_def when_alone_def unlocked_def)
qed

lemma acquire:
  assumes A: "stabJ R J A" "stabJ lock_step J A" and l: "\<And>m. A m \<Longrightarrow> is_list l m"
  shows "triple (\<lambda>m. A m \<and> when_alone R (unlocked {}) m) (spin_lock (RcuSpin l))
    (\<lambda>_ m. settled m \<and> A m)"
  by (rule t_spin_lock, intro stab_intros A, intro stab_intros A)
    (use blocking take_step[OF A(2)] l in \<open>auto simp: when_alone_def unlocked_def is_list_def\<close>)

lemma try_acquire:
  assumes A: "stabJ R J A" "stabJ lock_step J A" and l: "\<And>m. A m \<Longrightarrow> is_list l m"
  shows "triple (\<lambda>m. A m \<and> when_alone R (unlocked {}) m) (spin_trylock (RcuSpin l))
    (\<lambda>r m. if r then settled m \<and> A m
       else (A m \<and> when_alone R (unlocked {}) m) \<and> \<not> alone R)"
  by (rule t_spin_trylock, intro stab_intros A, intro stab_intros A)
    (use take_step[OF A(2)] l in \<open>auto simp: when_alone_def unlocked_def is_list_def\<close>)

lemma start_list: "start m \<Longrightarrow> is_list l m"
  by (simp add: started_def)

lemmas enter = acquire [OF stabJ_start stabJ_lock_op(1) start_list]
lemmas try_enter = try_acquire [OF stabJ_start stabJ_lock_op(1) start_list]

lemma release:
  assumes "stabJ R J A" "stabJ lock_step J A"
  shows "triple (\<lambda>m. settled m \<and> A m) (spin_unlock (RcuSpin l))
    (\<lambda>_ m. A m \<and> when_alone R (unlocked {}) m)"
proof (rule t_spin_unlock, intro stab_intros assms, intro stab_intros assms)
  fix m let ?m = "lock_set (RcuSpin l) None m"
  assume m: "J m" "settled m \<and> A m" "lock_step m ?m"
  have j: "J ?m" by (rule J_drop[OF m(1) _ _ m(3)]) (use m(2) in \<open>auto simp: settled_def crit_def\<close>)
  then have "A ?m" using lock_keeps[OF assms(2) m(1) j _ m(3)] m(2) by blast
  then show "J ?m \<and> (A ?m \<and> when_alone R (unlocked {}) ?m) \<and>
      (\<forall>s l' p. s \<noteq> t \<longrightarrow> pub m l' p \<longrightarrow> prot_rcu s m p \<longrightarrow> prot_rcu s ?m p)"
    using j m(2)
    by (auto simp: settled_def crit_def locked_def prot_rcu_def when_alone_def unlocked_def)
qed (auto simp: settled_def crit_def locked_def)

subsection \<open>Inside\<close>

text \<open>The walk inside the critical section ends at two protected neighbours.\<close>

lemma locked_find_pos:
  assumes "stabJ R J A"
  shows "triple (\<lambda>m. (settled m \<and> A m) \<and> start m) (find_pos w l key)
    (\<lambda>x m. ((settled m \<and> A m) \<and> start m) \<and> found True x m)"
  by (rule find_pos_spec) (auto intro!: stab_intros assms intro: settled_prot)

lemma prot_rcu_lists:
  "lists m' = lists m \<Longrightarrow> pub m' l' p \<Longrightarrow> pub m l' p \<Longrightarrow> prot_rcu s m' p = prot_rcu s m p"
  by (simp add: prot_rcu_pub[of _ l'])

lemma link_locked:
  assumes F: "stabJ R J F" "stabJ book_eq J F"
  shows "triple (\<lambda>m. ((settled m \<and> F m) \<and> gap prev next m \<and> start m \<and> (kn \<longrightarrow> \<not> b)) \<and> filled t x key next m)
    (rcu_assign_next prev x) (\<lambda>_ m. (settled m \<and> F m) \<and> add_done True m)"
proof (rule link_spec, intro stab_intros F, intro stab_intros F, rule key_U)
  fix m let ?m = "assign_next t prev x m"
  assume m: "J m" "settled m \<and> F m" "can_link t l prev x m"
  have i: "J ?m \<and> (calm m \<longrightarrow> calm ?m)"
    by (rule J_link[OF m(1) _ m(3)]) (use m(2) in \<open>simp add: settled_def crit_def\<close>)
  have k: "book_eq m ?m" using can_link_mem[OF m(3)] by (auto intro: assign_book)
  then have l: "lists ?m = lists m" by (simp add: book_eq_def)
  have "prot_rcu s ?m p = prot_rcu s m p" if "pub m l' p" for s l' p
    by (rule prot_rcu_lists[OF l _ that]) (use that link_pub[OF m(3)] in simp)
  moreover have "F ?m" using F(2) k i m unfolding stabJ_def by blast
  ultimately show "J ?m \<and> (settled ?m \<and> F ?m) \<and>
      (\<forall>s l' p. s \<noteq> t \<longrightarrow> pub m l' p \<longrightarrow> prot_rcu s m p \<longrightarrow> prot_rcu s ?m p)"
    using i l m(2) by (simp add: settled_def crit_def locked_def when_alone_def unlocked_def)
qed

lemma unlink_locked:
  assumes F: "stabJ R J F" and B: "stabJ R J (\<lambda>m. crit m \<and> B m)"
    and step: "\<And>m. J m \<Longrightarrow> settled m \<Longrightarrow> F m \<Longrightarrow> can_unlink l prev m \<Longrightarrow> nxt m prev = next \<Longrightarrow> B (unlink t prev m)"
  shows "triple (\<lambda>m. (settled m \<and> F m) \<and> bypass prev next n m \<and> start m \<and> (kn \<longrightarrow> b))
    (rcu_assign_next prev n) (\<lambda>_ m. (crit m \<and> B m) \<and> del_done True m \<and> node_at l next key m)"
proof (rule unlink_spec, intro stab_intros F, rule B, rule key_U)
  fix m let ?m = "unlink t prev m"
  assume m: "J m" "settled m \<and> F m" "can_unlink l prev m" "nxt m prev = next"
  have i: "J ?m" by (rule J_unlink[OF m(1) _ m(3)]) (use m(2) in \<open>simp add: settled_def crit_def\<close>)
  have k: "book_eq m ?m" using can_unlinkD(2)[OF m(3)] by (intro assign_book) (simp add: pub_def)
  then have l: "lists ?m = lists m" by (simp add: book_eq_def)
  have "prot_rcu s ?m p = prot_rcu s m p" if "pub m l' p" for s l' p
    by (rule prot_rcu_lists[OF l _ that]) (use that unlink_pub[OF m(3)] in simp)
  moreover have "B ?m" using step m by blast
  ultimately show "J ?m \<and> (crit ?m \<and> B ?m) \<and>
      (\<forall>s l' p. s \<noteq> t \<longrightarrow> pub m l' p \<longrightarrow> prot_rcu s m p \<longrightarrow> prot_rcu s ?m p)"
    using i l m(2) by (simp add: settled_def crit_def locked_def when_alone_def unlocked_def)
qed

end

end
