(* ===== verification/RcuCoarse.thy ===== *)
theory RcuCoarse
  imports ListLock
begin

text \<open>
  \<open>rcu_list_add\<close>, \<open>rcu_list_try_add\<close>, \<open>rcu_list_remove\<close> and \<open>rcu_list_try_remove\<close>: one
  spinlock per list, taken for the whole update, on top of the list invariant alone.
\<close>

interpretation coarse: protocol prot_rcu inv
proof
  fix s t m p assume "prot_rcu s m p" "prot_rcu t m p"
  then show "s = t" by (auto simp: prot_rcu_def)
next
  fix m m' t assume "inv m" "local_step t m m'"
  then show "inv m'"
    using inv_frame local_frame(1) unfolding local_step_def by metis
next
  fix t m m' l p s assume "local_step t m m'" "pub m l p"
  then show "prot_rcu s m' p = prot_rcu s m p"
    by (auto simp: local_step_def prot_rcu_pub)
qed (simp_all add: inv_nest prot_rcu_def)

locale coarse_op = list_op prot_rcu inv t R K U D l key kn b H w
  for t R K U D l key kn b H w +
  assumes coarse_U: "(l, key) \<in> U" and coarse_block: "alone R \<or> may_block D"

sublocale coarse_op \<subseteq> lock_op inv t R K U D l key kn b H w "\<lambda>_. True"
  by unfold_locales (use coarse_U coarse_block lock_step_inv link_inv unlink_inv in auto)

context coarse_op
begin

lemma unlink_settled:
  "triple (\<lambda>m. settled m \<and> bypass prev next n m \<and> start m \<and> (kn \<longrightarrow> b))
    (rcu_assign_next prev n) (\<lambda>_ m. settled m \<and> del_done True m \<and> node_at l next key m)"
  by (rule t_conseq[OF unlink_locked[of "\<lambda>_. True" "\<lambda>_. True"]]) (auto simp: settled_def intro: stab_intros)

lemma walk_locked:
  "triple (\<lambda>m. settled m \<and> start m) (find_pos w l key) (\<lambda>x m. (settled m \<and> start m) \<and> found True x m)"
  by (rule t_conseq[OF locked_find_pos[of "\<lambda>_. True"]]) (auto intro: stab_intros)

abbreviation "add_result \<equiv> \<lambda>r m. (\<exists>ins. add_done ins m) \<and> when_alone R (unlocked {}) m \<and> r = (0::int)"
abbreviation "del_result \<equiv> \<lambda>r m. (\<exists>del. del_done del m) \<and> when_alone R (unlocked {}) m \<and> r = (0::int)"

lemma insert_locked:
  "triple (\<lambda>m. (settled m \<and> start m) \<and> found True (prev, next, v) m)
    (if v \<noteq> key then insert_after prev next key else Ret ())
    (\<lambda>_ m. settled m \<and> (\<exists>ins. add_done ins m))"
proof (rule t_if)
  assume v: "v \<noteq> key"
  show "triple (\<lambda>m. (settled m \<and> start m) \<and> found True (prev, next, v) m)
      (insert_after prev next key) (\<lambda>_ m. settled m \<and> (\<exists>ins. add_done ins m))"
    unfolding insert_after_def
  proof (rule t_pre[OF t_prepare])
    show "triple (\<lambda>m. (settled m \<and> gap prev next m \<and> start m \<and> (kn \<longrightarrow> \<not> b)) \<and> ready t x key next m)
      (rcu_assign_next prev x) (\<lambda>_ m. settled m \<and> (\<exists>ins. add_done ins m))" for x
      by (rule t_conseq[OF link_locked[of "\<lambda>_. True"]]) (auto intro: stab_intros ready_filled)
  qed (use v found_gap found_known in \<open>auto intro!: stab_intros\<close>)
next
  assume "\<not> v \<noteq> key"
  then show "triple (\<lambda>m. (settled m \<and> start m) \<and> found True (prev, next, v) m) (Ret ())
      (\<lambda>_ m. settled m \<and> (\<exists>ins. add_done ins m))"
    by (intro t_ret stab_intros) (auto simp: found_def intro: skip_add)
qed

lemma add_section:
  "triple (\<lambda>m. settled m \<and> start m)
    (bind (find_pos w l key) (\<lambda>(prev, next, v).
     bind (if v \<noteq> key then insert_after prev next key else Ret ()) (\<lambda>_.
     bind (spin_unlock (RcuSpin l)) (\<lambda>_.
     Ret 0)))) add_result"
proof (rule t_bind[OF walk_locked], rule t_triple)
  fix prev "next" v
  have rel: "triple (\<lambda>m. settled m \<and> (\<exists>ins. add_done ins m)) (spin_unlock (RcuSpin l))
      (\<lambda>_ m. (\<exists>ins. add_done ins m) \<and> when_alone R (unlocked {}) m)"
    by (rule release) (intro stab_intros)+
  have ret: "triple (\<lambda>m. (\<exists>ins. add_done ins m) \<and> when_alone R (unlocked {}) m) (Ret 0) add_result"
    by (rule t_ret, intro stab_intros) simp
  show "triple (\<lambda>m. (settled m \<and> start m) \<and> found True (prev, next, v) m)
     (bind (if v \<noteq> key then insert_after prev next key else Ret ()) (\<lambda>_.
      bind (spin_unlock (RcuSpin l)) (\<lambda>_. Ret 0))) add_result"
    by (rule t_bind[OF insert_locked t_bind[OF rel ret]])
qed

lemma remove_section:
  "triple (\<lambda>m. settled m \<and> start m)
    (bind (find_pos w l key) (\<lambda>(prev, next, _).
     bind (rd next val) (\<lambda>v.
     if v = key then
       bind (rd next p_next) (\<lambda>n.
       bind (rcu_assign_next prev n) (\<lambda>_.
       bind (spin_unlock (RcuSpin l)) (\<lambda>_.
       bind (rcu_free_node next) (\<lambda>_.
       Ret 0))))
     else bind (spin_unlock (RcuSpin l)) (\<lambda>_. Ret 0)))) del_result"
proof (rule t_bind[OF walk_locked], rule t_triple)
  fix prev "next" u
  let ?F = "\<lambda>m. (settled m \<and> start m) \<and> found True (prev, next, u) m"
  let ?A = "\<lambda>m. del_done True m \<and> node_at l next key m"
  let ?E = "\<lambda>m. ?A m \<and> when_alone R (unlocked {}) m"
  have rd: "triple ?F (rd next p_next)
      (\<lambda>n m. settled m \<and> bypass prev next n m \<and> start m \<and> (kn \<longrightarrow> b))" if "u = key"
  proof (rule t_rd, intro stab_intros, intro stab_intros)
    fix m assume m: "inv m" "?F m"
    then have p: "pub m l next" using found_pub by blast
    then have "bypass prev next (nxt m next) m"
      using m(2) that found_bypass settled_prot by blast
    moreover have "kn \<longrightarrow> b" using m(2) that found_known by blast
    ultimately show "\<exists>n. mem m next = Some n \<and>
        settled m \<and> bypass prev next (p_next n) m \<and> start m \<and> (kn \<longrightarrow> b)"
      using m(2) pub_mem[OF p] by auto
  qed
  have rel: "triple (\<lambda>m. settled m \<and> ?A m) (spin_unlock (RcuSpin l)) (\<lambda>_. ?E)"
    by (rule release) (intro stab_intros)+
  have fr: "triple ?E (rcu_free_node next) (\<lambda>_. ?E)"
    unfolding rcu_free_node_def
    by (rule t_kfree_rcu[of _ l], intro stab_intros, intro stab_intros )
      (simp add: node_at_def)
  have ret: "triple ?E (Ret 0) del_result" by (rule t_ret, intro stab_intros) auto
  have no1: "triple (\<lambda>m. settled m \<and> del_done False m) (spin_unlock (RcuSpin l))
      (\<lambda>_ m. del_done False m \<and> when_alone R (unlocked {}) m)"
    by (rule release) (intro stab_intros)+
  have no2: "triple (\<lambda>m. del_done False m \<and> when_alone R (unlocked {}) m) (Ret 0) del_result"
    by (rule t_ret, intro stab_intros) auto
  have no: "triple ?F (bind (spin_unlock (RcuSpin l)) (\<lambda>_. Ret 0)) del_result" if "u \<noteq> key"
    by (rule t_pre[OF t_bind[OF no1 no2]]) (use that found_known skip_del in blast)
  show "triple ?F (bind (rd next val) (\<lambda>v.
     if v = key then
       bind (rd next p_next) (\<lambda>n.
       bind (rcu_assign_next prev n) (\<lambda>_.
       bind (spin_unlock (RcuSpin l)) (\<lambda>_.
       bind (rcu_free_node next) (\<lambda>_.
       Ret 0))))
     else bind (spin_unlock (RcuSpin l)) (\<lambda>_. Ret 0))) del_result"
  proof (rule t_bind[OF reread_spec], intro stab_intros, intro t_pull t_if)
    fix v assume "v = u" "v = key"
    then show "triple ?F (bind (rd next p_next) (\<lambda>n.
       bind (rcu_assign_next prev n) (\<lambda>_.
       bind (spin_unlock (RcuSpin l)) (\<lambda>_.
       bind (rcu_free_node next) (\<lambda>_.
       Ret 0))))) del_result"
      using t_bind[OF rd t_bind[OF unlink_settled t_bind[OF rel t_bind[OF fr ret]]]] by simp
  qed (use no in auto)
qed

subsection \<open>The four operations\<close>

lemma rcu_list_add_spec:
  "triple (\<lambda>m. start m \<and> when_alone R (unlocked {}) m) (rcu_list_add w l key) add_result"
  unfolding rcu_list_add_def by (rule t_bind[OF enter add_section])

lemma rcu_list_remove_spec:
  "triple (\<lambda>m. start m \<and> when_alone R (unlocked {}) m) (rcu_list_remove w l key) del_result"
  unfolding rcu_list_remove_def by (rule t_bind[OF enter remove_section])

text \<open>The try versions return 2 without any effect when the lock is taken, which needs another
  thread.\<close>

abbreviation "try_result res \<equiv> \<lambda>r m. res r m \<or>
  (start m \<and> when_alone R (unlocked {}) m \<and> r = (2::int) \<and> \<not> alone R)"

lemma try_section:
  assumes "triple (\<lambda>m. settled m \<and> start m) c res"
  shows "triple (\<lambda>m. start m \<and> when_alone R (unlocked {}) m)
    (bind (spin_trylock (RcuSpin l)) (\<lambda>x. if \<not> x then Ret 2 else c)) (try_result res)"
proof (rule t_bind[OF try_enter])
  fix x
  have "triple (\<lambda>m. (start m \<and> when_alone R (unlocked {}) m) \<and> \<not> alone R) (Ret 2) (try_result res)"
    by (rule t_ret, intro stab_intros) simp
  then show "triple (\<lambda>m. if x then settled m \<and> start m
      else (start m \<and> when_alone R (unlocked {}) m) \<and> \<not> alone R)
      (if \<not> x then Ret 2 else c) (try_result res)"
    using t_conseq[OF assms, of "\<lambda>m. settled m \<and> start m" "try_result res"] by (cases x) auto
qed

lemma rcu_list_try_add_spec:
  "triple (\<lambda>m. start m \<and> when_alone R (unlocked {}) m) (rcu_list_try_add w l key)
    (try_result add_result)"
  unfolding rcu_list_try_add_def by (rule try_section[OF add_section])

lemma rcu_list_try_remove_spec:
  "triple (\<lambda>m. start m \<and> when_alone R (unlocked {}) m) (rcu_list_try_remove w l key)
    (try_result del_result)"
  unfolding rcu_list_try_remove_def by (rule try_section[OF remove_section])

end

end
