(* ===== verification/RcuFine.thy ===== *)
theory RcuFine
  imports RcuCoarse
begin

text \<open>
  The fine-grained variants: \<open>rcu_list_fg_add\<close>, \<open>rcu_list_fg_remove\<close> and their NUMA versions. A
  thread protects the nodes whose global lock it holds. A node nobody has locked is in the list
  unless it is marked removed, so a thread that locks the nodes of its position and finds them
  unmarked and still adjacent owns a piece of the list.
\<close>

declare lock_get.simps [simp del] lock_set.simps [simp del]

definition prot_fg :: "tid \<Rightarrow> mach \<Rightarrow> ptr \<Rightarrow> bool" where
  "prot_fg s m p \<longleftrightarrow> lock_get m (Global p) = Some (Some s)"

definition fg_ok :: "mach \<Rightarrow> bool" where
  "fg_ok m \<longleftrightarrow> inv m \<and> (\<forall>l p. pub m l p \<longrightarrow> (rmvd m p \<longrightarrow> \<not> in_chain m l p) \<and>
     (lock_get m (Global p) = Some None \<and> \<not> rmvd m p \<longrightarrow> in_chain m l p))"

lemma fg_inv: "fg_ok m \<Longrightarrow> inv m"
  by (simp add: fg_ok_def)

lemma fg_free: "fg_ok m \<Longrightarrow> pub m l p \<Longrightarrow> lock_get m (Global p) = Some None \<Longrightarrow> in_chain m l p = (\<not> rmvd m p)"
  unfolding fg_ok_def by blast

lemma fg_nest: "fg_ok (m\<lparr>rcu_nest := f\<rparr>) = fg_ok m"
  by (simp add: fg_ok_def inv_nest lock_get.simps pub_def rmvd_def in_chain_def nxt_def[abs_def] hd_of_def)

lemma fg_frame:
  assumes "fg_ok m" "frame_eq m m'" "inv m'"
    and "\<And>l p. pub m l p \<Longrightarrow> rmvd m' p \<Longrightarrow> rmvd m p \<or> \<not> in_chain m l p"
    and "\<And>l p. pub m l p \<Longrightarrow> lock_get m' (Global p) = Some None \<Longrightarrow> \<not> rmvd m' p \<Longrightarrow> in_chain m l p"
  shows "fg_ok m'"
proof -
  have "in_chain m' l p = in_chain m l p" "pub m' l p = pub m l p" if "pub m l p" for l p
    using frame_in_chain[OF inv_wfm[OF fg_inv[OF assms(1)]] assms(2)]
      wf_pub_list[OF inv_wfm[OF fg_inv[OF assms(1)]] that] assms(2) by (auto simp: frame_eq_def)
  moreover have "pub m' l p \<Longrightarrow> pub m l p" for l p using assms(2) by (simp add: frame_eq_def)
  ultimately show ?thesis
    using assms(1,3,4,5) unfolding fg_ok_def by meson
qed

interpretation fine: protocol prot_fg fg_ok
proof
  fix s t m p assume "prot_fg s m p" "prot_fg t m p"
  then show "s = t" by (simp add: prot_fg_def)
next
  fix m m' t assume a: "fg_ok m" "local_step t m m'"
  have e: "pub m l p \<Longrightarrow> mem m' p = mem m p" for l p using a(2) by (auto simp: local_step_def)
  have f: "frame_eq m m'" by (rule local_frame(1)[OF a(2)])
  have "inv m'" using coarse.J_local fg_inv a by blast
  then show "fg_ok m'"
    using fg_frame[OF a(1) f] e a(1) unfolding fg_ok_def by (simp add: rmvd_def lock_get.simps)
next
  fix t m m' l p s assume "local_step t m m'" "pub m l p"
  then have "mem m' p = mem m p" by (auto simp: local_step_def)
  then show "prot_fg s m' p = prot_fg s m p" by (simp add: prot_fg_def lock_get.simps)
qed (simp_all add: fg_inv fg_nest prot_fg_def lock_get.simps)

text \<open>The locks of the nodes of all lists are free, but for the global locks of \<open>SG\<close> and, on the NUMA node of
  thread \<open>t\<close>, the node locks of \<open>SP\<close>.\<close>

definition quiet :: "tid \<Rightarrow> ptr set \<Rightarrow> ptr set \<Rightarrow> mach \<Rightarrow> bool" where
  "quiet t SG SP m \<longleftrightarrow> (\<forall>l p. pub m l p \<longrightarrow>
     (p \<notin> SG \<longrightarrow> lock_get m (Global p) = Some None) \<and>
     (\<forall>i \<in> set (nodes_with_cpus m). p \<notin> SP \<or> i \<noteq> node_of m t \<longrightarrow> lock_get m (Pnd p i) = Some None))"

lemma quiet_local: "stabJ (local_step t) J (quiet t SG SP)"
proof -
  have "quiet t SG SP m'" if "local_step t m m'" "quiet t SG SP m" for m m'
  proof -
    have "pub m' l p = pub m l p" "pub m l p \<Longrightarrow> lock_get m' (Global p) = lock_get m (Global p)"
        "pub m l p \<Longrightarrow> lock_get m' (Pnd p i) = lock_get m (Pnd p i)"
        "nodes_with_cpus m' = nodes_with_cpus m" "node_of m' = node_of m" for l p i
      using that(1) by (auto simp: local_step_def const_eq_def lock_get.simps)
    then show ?thesis using that(2) by (simp add: quiet_def)
  qed
  then show ?thesis by (auto simp: stabJ_def)
qed

text \<open>Lock steps of a thread that keep what it holds outside \<open>Q\<close>.\<close>

definition lock_keep :: "tid \<Rightarrow> ptr set \<Rightarrow> mrel" where
  "lock_keep t Q m m' \<longleftrightarrow> lock_step m m' \<and> (\<forall>p. p \<notin> Q \<longrightarrow> prot_fg t m p \<longrightarrow> prot_fg t m' p)"

lemma stabJ_keep: "stabJ lock_step J A \<Longrightarrow> stabJ (lock_keep t Q) J A"
  by (auto simp: stabJ_def lock_keep_def)

lemma lock_fg_ok:
  assumes "fg_ok m" "lock_step m (lock_set k v m)" "\<And>l. k \<noteq> RcuSpin l"
    and "\<And>p l. k = Global p \<Longrightarrow> v = None \<Longrightarrow> pub m l p \<Longrightarrow> \<not> rmvd m p \<Longrightarrow> in_chain m l p"
  shows "fg_ok (lock_set k v m)" (is "fg_ok ?m")
proof (rule fg_frame[OF assms(1)])
  show "frame_eq m ?m" using assms(2) by (simp add: lock_step_def)
  show "inv ?m" by (rule lock_step_inv[OF fg_inv[OF assms(1)] assms(2)])
next
  fix l p assume "pub m l p" "rmvd ?m p"
  then show "rmvd m p \<or> \<not> in_chain m l p" using assms(2) by (simp add: lock_step_def)
next
  fix l p assume p: "pub m l p" "lock_get ?m (Global p) = Some None" "\<not> rmvd ?m p"
  have r: "\<not> rmvd m p" using p(3) assms(2) by (simp add: lock_step_def)
  show "in_chain m l p"
  proof (cases "k = Global p")
    case True
    then show ?thesis using p assms(4)[OF True _ p(1) r] by (auto simp: lock_get_set)
  next
    case False
    then have "lock_get m (Global p) = Some None"
      using p(2) by (simp add: lock_get_set)
    then show ?thesis using fg_free[OF assms(1) p(1)] r by simp
  qed
qed

lemma assign_lock:
  assumes "mem m a = Some n0"
  shows "lock_get (assign_next t a x m) k = lock_get m k"
  using assms by (cases k) (auto simp: lock_get.simps assign_next_proj[OF assms])

lemma fg_link:
  assumes "fg_ok m" "can_link t l a x m" "\<not> rmvd m x"
  shows "fg_ok (assign_next t a x m)" (is "fg_ok ?m")
  unfolding fg_ok_def
proof (intro conjI allI impI)
  show "inv ?m" by (rule link_inv[OF fg_inv[OF assms(1)] assms(2)])
next
  obtain n0 where n0: "mem m a = Some n0" using can_link_mem[OF assms(2)] by blast
  have rm: "rmvd ?m p = rmvd m p" for p by (simp add: assign_next_proj[OF n0])
  fix l' p assume p: "pub ?m l' p"
  show "\<not> in_chain ?m l' p" if "rmvd ?m p"
  proof -
    have "pub m l' p" using p assms(3) that rm link_pub[OF assms(2)] by auto
    then show ?thesis
      using that rm assms(1) link_in_chain_iff[OF assms(2)] by (auto simp: fg_ok_def)
  qed
  show "in_chain ?m l' p" if "lock_get ?m (Global p) = Some None \<and> \<not> rmvd ?m p"
    using p that fg_free[OF assms(1), of l' p] link_pub[OF assms(2), of l' p]
      link_in_chain[OF assms(2), of l' p] link_in_chain_new[OF assms(2)]
    by (auto simp: assign_lock[OF n0] rm)
qed

lemma fg_unlink:
  assumes "fg_ok m" "can_unlink l a m" "lock_get m (Global (nxt m a)) \<noteq> Some None"
  shows "fg_ok (unlink t a m)" (is "fg_ok ?m")
  unfolding fg_ok_def
proof (intro conjI allI impI)
  show "inv ?m" by (rule unlink_inv[OF fg_inv[OF assms(1)] assms(2)])
next
  obtain n0 where n0: "mem m a = Some n0" using can_unlinkD(2)[OF assms(2)] by (auto simp: pub_def)
  have rm: "rmvd ?m p = rmvd m p" for p by (simp add: assign_next_proj[OF n0])
  fix l' p assume p: "pub ?m l' p"
  then have pb: "pub m l' p" using unlink_pub[OF assms(2)] by simp
  show "\<not> in_chain ?m l' p" if "rmvd ?m p"
    using that pb assms(1) unlink_reach_inv[OF assms(2), of t "hd_of m l'" p]
    by (auto simp: fg_ok_def rm in_chain_def assign_next_proj[OF n0])
  show "in_chain ?m l' p" if "lock_get ?m (Global p) = Some None \<and> \<not> rmvd ?m p"
  proof -
    have "lock_get m (Global p) = Some None" using that by (simp add: assign_lock[OF n0])
    then have "in_chain m l' p" "p \<noteq> nxt m a"
      using fg_free[OF assms(1) pb] that assms(3) by (auto simp: rm)
    then show ?thesis by (rule unlink_in_chain[OF assms(2)])
  qed
qed

locale fine_op = list_op prot_fg fg_ok t R K U D l key kn b H w
  for t R K U D l key kn b H w +
  assumes key_U: "(l, key) \<in> U" and blocking: "alone R \<or> may_block D"
begin

abbreviation "keep \<equiv> lock_keep t"

lemma stabJ_keep_basic [stab_intros]:
  "stabJ (keep Q) fg_ok (node_at l p v)"
  "stabJ (keep Q) fg_ok start"
  "stabJ (keep Q) fg_ok (pos l key prev next)"
  "stabJ (keep Q) fg_ok (add_done ins)"
  "stabJ (keep Q) fg_ok (del_done del)"
  "stabJ (keep Q) fg_ok (ready t x key next)"
  "stabJ (keep Q) fg_ok (own_node t x F)"
  by (intro stabJ_keep stab_intros)+

lemma stabJ_keep_found [stab_intros]: "stabJ (keep Q) fg_ok (found False x)"
proof -
  have "stabJ lock_step fg_ok (linked p q)" for p q
    by (auto simp: stabJ_def linked_def lock_step_pub lock_step_in_chain) (simp add: lock_step_def)
  then show ?thesis
    unfolding found_def at_def
    by (cases x) (simp, intro stabJ_keep stab_intros stabJ_imp stabJ_when_local; simp)
qed

lemma stabJ_keep_held [stab_intros]:
  "p \<notin> Q \<Longrightarrow> stabJ (keep Q) fg_ok (held prot_fg t l p)"
  "p \<notin> Q \<Longrightarrow> stabJ (keep Q) fg_ok (held_next prot_fg t l p q)"
  "p \<notin> Q \<Longrightarrow> stabJ (keep Q) fg_ok (held_removed prot_fg t l p r)"
  "p \<notin> Q \<Longrightarrow> stabJ (keep Q) fg_ok (held_gone prot_fg t l p)"
  "p \<notin> Q \<Longrightarrow> stabJ (keep Q) fg_ok (grabbed prot_fg t l p)"
  by (auto simp: stabJ_def lock_keep_def know_defs lock_step_pub lock_step_in_chain)
    (simp_all add: lock_step_def)

lemmas stabJ_quiet_local [stab_intros] = stabJ_when_local [OF quiet_local]

abbreviation "free SG SP \<equiv> when_alone R (quiet t SG SP)"

subsection \<open>Locks\<close>

lemma lock_global:
  assumes A: "stabJ R fg_ok A" "stabJ (keep {}) fg_ok A"
    and p: "\<And>m. fg_ok m \<Longrightarrow> A m \<Longrightarrow> pub m l p" "p \<notin> SG"
  shows "triple (\<lambda>m. A m \<and> free SG SP m) (spin_lock (Global p))
    (\<lambda>_ m. (A m \<and> grabbed prot_fg t l p m) \<and> free (insert p SG) SP m)"
proof (rule t_spin_lock, intro stab_intros A, intro stab_intros A)
  fix m let ?m = "lock_set (Global p) (Some t) m"
  assume m: "fg_ok m" "A m \<and> free SG SP m" "lock_get m (Global p) = Some None" "lock_step m ?m"
  have i: "fg_ok ?m" by (rule lock_fg_ok[OF m(1,4)]) auto
  have k: "keep {} m ?m" using m(3,4) by (auto simp: lock_keep_def prot_fg_def lock_get_set)
  have "A ?m" using A(2) m(1,2) i k unfolding stabJ_def by blast
  moreover have "grabbed prot_fg t l p ?m"
    using fg_free[OF m(1) p(1) m(3)] p(1)[OF m(1)] m
    by (auto simp: grabbed_def prot_fg_def lock_get_set lock_step_pub lock_step_in_chain)
      (simp_all add: lock_step_def)
  moreover have "free (insert p SG) SP ?m"
    using m(2) by (auto simp: when_alone_def quiet_def lock_get_set lock_step_proj[OF m(4)])
  moreover have "\<forall>s l' q. s \<noteq> t \<longrightarrow> pub m l' q \<longrightarrow> prot_fg s m q \<longrightarrow> prot_fg s ?m q"
    using m(3) by (auto simp: prot_fg_def lock_get_set)
  ultimately show "fg_ok ?m \<and> ((A ?m \<and> grabbed prot_fg t l p ?m) \<and> free (insert p SG) SP ?m) \<and>
      (\<forall>s l' q. s \<noteq> t \<longrightarrow> pub m l' q \<longrightarrow> prot_fg s m q \<longrightarrow> prot_fg s ?m q)"
    using i by blast
next
  fix m assume m: "fg_ok m" "A m \<and> free SG SP m"
  show "shared_lock m (Global p)" using p(1) m by auto
  show "lock_get m (Global p) = Some None \<or> may_block D"
    using m p blocking by (auto simp: when_alone_def quiet_def)
qed

lemma unlock_global:
  assumes A: "stabJ R fg_ok A" "stabJ (keep {p}) fg_ok A"
  shows "triple (\<lambda>m. (A m \<and> grabbed prot_fg t l p m) \<and> free SG SP m) (spin_unlock (Global p))
    (\<lambda>_ m. A m \<and> free (SG - {p}) SP m)"
proof (rule t_spin_unlock, intro stab_intros A, intro stab_intros A)
  fix m let ?m = "lock_set (Global p) None m"
  assume m: "fg_ok m" "(A m \<and> grabbed prot_fg t l p m) \<and> free SG SP m" "lock_step m ?m"
  have i: "fg_ok ?m"
    by (rule lock_fg_ok[OF m(1,3)]) (use m(2) in \<open>auto simp: grabbed_def dest: pub_fun\<close>)
  have k: "keep {p} m ?m" using m(3) by (auto simp: lock_keep_def prot_fg_def lock_get_set)
  have "A ?m" using A(2) m(1,2) i k unfolding stabJ_def by blast
  moreover have "free (SG - {p}) SP ?m"
    using m(2) lock_get_some[of m "Global p"]
    by (auto simp: when_alone_def quiet_def lock_get_set lock_step_proj[OF m(3)] grabbed_def)
  moreover have "\<forall>s l' q. s \<noteq> t \<longrightarrow> pub m l' q \<longrightarrow> prot_fg s m q \<longrightarrow> prot_fg s ?m q"
    using m(2) by (auto simp: prot_fg_def grabbed_def lock_get_set)
  ultimately show "fg_ok ?m \<and> (A ?m \<and> free (SG - {p}) SP ?m) \<and>
      (\<forall>s l' q. s \<noteq> t \<longrightarrow> pub m l' q \<longrightarrow> prot_fg s m q \<longrightarrow> prot_fg s ?m q)"
    using i by blast
next
  fix m assume "fg_ok m" "(A m \<and> grabbed prot_fg t l p m) \<and> free SG SP m"
  then show "shared_lock m (Global p)" by (auto simp: grabbed_def)
qed

lemma t_node_id:
  assumes "stabJ R fg_ok A"
  shows "triple A numa_node_id (\<lambda>i m. A m \<and> consts_are (\<lambda>m. node_of m t) i m)"
  unfolding numa_node_id_def
  by (rule t_get, intro stab_intros assms, intro stab_intros assms stabJ_R stabJ_node_of)
    (simp add: consts_are_def)

lemma lock_pnd:
  assumes A: "stabJ R fg_ok A" "stabJ (keep {}) fg_ok A"
    and p: "\<And>m. fg_ok m \<Longrightarrow> A m \<Longrightarrow> pub m l p" "p \<notin> SP"
  shows "triple (\<lambda>m. A m \<and> free SG SP m) (pnd_lock p) (\<lambda>_ m. A m \<and> free SG (insert p SP) m)"
  unfolding pnd_lock_def
proof (rule t_bind[OF t_node_id], intro stab_intros A)
  fix i
  show "triple (\<lambda>m. (A m \<and> free SG SP m) \<and> consts_are (\<lambda>m. node_of m t) i m) (spin_lock (Pnd p i))
      (\<lambda>_ m. A m \<and> free SG (insert p SP) m)"
  proof (rule t_spin_lock, intro stab_intros A stabJ_R stabJ_node_of, intro stab_intros A)
    fix m let ?m = "lock_set (Pnd p i) (Some t) m"
    assume m: "fg_ok m" "(A m \<and> free SG SP m) \<and> consts_are (\<lambda>m. node_of m t) i m" "lock_step m ?m"
    have i: "fg_ok ?m" by (rule lock_fg_ok[OF m(1,3)]) auto
    have pr: "prot_fg s ?m q = prot_fg s m q" for s q by (simp add: prot_fg_def lock_get_set)
    have "A ?m" using A(2) m i pr unfolding stabJ_def lock_keep_def by blast
    moreover have "free SG (insert p SP) ?m"
      using m(2) by (auto simp: when_alone_def quiet_def lock_get_set lock_step_proj[OF m(3)] consts_are_def)
    ultimately show "fg_ok ?m \<and> (A ?m \<and> free SG (insert p SP) ?m) \<and>
        (\<forall>s l' q. s \<noteq> t \<longrightarrow> pub m l' q \<longrightarrow> prot_fg s m q \<longrightarrow> prot_fg s ?m q)"
      using i pr by blast
  next
    fix m assume m: "fg_ok m" "(A m \<and> free SG SP m) \<and> consts_are (\<lambda>m. node_of m t) i m"
    have "i \<in> set (nodes_with_cpus m)" "i < NR_NUMA_NODES"
      using m fg_inv[OF m(1)] by (auto simp: inv_def env_ok_def consts_are_def)
    then show "shared_lock m (Pnd p i)" "lock_get m (Pnd p i) = Some None \<or> may_block D"
      using m p blocking by (auto simp: when_alone_def quiet_def)
  qed
qed

lemma unlock_pnd:
  assumes A: "stabJ R fg_ok A" "stabJ (keep {}) fg_ok A"
    and p: "\<And>m. fg_ok m \<Longrightarrow> A m \<Longrightarrow> pub m l p"
  shows "triple (\<lambda>m. A m \<and> free SG SP m) (pnd_unlock p) (\<lambda>_ m. A m \<and> free SG (SP - {p}) m)"
  unfolding pnd_unlock_def
proof (rule t_bind[OF t_node_id], intro stab_intros A)
  fix i
  show "triple (\<lambda>m. (A m \<and> free SG SP m) \<and> consts_are (\<lambda>m. node_of m t) i m) (spin_unlock (Pnd p i))
      (\<lambda>_ m. A m \<and> free SG (SP - {p}) m)"
  proof (rule t_spin_unlock, intro stab_intros A stabJ_R stabJ_node_of, intro stab_intros A)
    fix m let ?m = "lock_set (Pnd p i) None m"
    assume m: "fg_ok m" "(A m \<and> free SG SP m) \<and> consts_are (\<lambda>m. node_of m t) i m" "lock_step m ?m"
    have i: "fg_ok ?m" by (rule lock_fg_ok[OF m(1,3)]) auto
    have pr: "prot_fg s ?m q = prot_fg s m q" for s q by (simp add: prot_fg_def lock_get_set)
    have ii: "i \<in> set (nodes_with_cpus m)" "i < NR_NUMA_NODES"
      using m fg_inv[OF m(1)] by (auto simp: inv_def env_ok_def consts_are_def)
    have "A ?m" using A(2) m i pr unfolding stabJ_def lock_keep_def by blast
    moreover have "free SG (SP - {p}) ?m"
      using m(2) p[OF m(1)] ii lock_get_some[of m "Pnd p i"]
      by (auto simp: when_alone_def quiet_def lock_get_set lock_step_proj[OF m(3)] consts_are_def)
    ultimately show "fg_ok ?m \<and> (A ?m \<and> free SG (SP - {p}) ?m) \<and>
        (\<forall>s l' q. s \<noteq> t \<longrightarrow> pub m l' q \<longrightarrow> prot_fg s m q \<longrightarrow> prot_fg s ?m q)"
      using i pr by blast
  next
    fix m assume m: "fg_ok m" "(A m \<and> free SG SP m) \<and> consts_are (\<lambda>m. node_of m t) i m"
    have "i < NR_NUMA_NODES"
      using m fg_inv[OF m(1)] by (auto simp: inv_def env_ok_def consts_are_def)
    then show "shared_lock m (Pnd p i)" using m p by auto
  qed
qed

subsection \<open>The validation after locking\<close>

definition moved :: "(ptr \<times> ptr) list \<Rightarrow> mach \<Rightarrow> bool" where
  "moved ps m \<longleftrightarrow> (\<exists>p q q'. ((p, q) \<in> set ps \<and> q' \<noteq> q) \<and> held_next prot_fg t l p q' m)"

definition unmoved :: "(ptr \<times> ptr) list \<Rightarrow> mach \<Rightarrow> bool" where
  "unmoved ps m \<longleftrightarrow> (\<forall>x \<in> set ps. held_next prot_fg t l (fst x) (snd x) m)"

definition gone :: "ptr list \<Rightarrow> mach \<Rightarrow> bool" where
  "gone ps m \<longleftrightarrow> (\<exists>p. p \<in> set ps \<and> held_removed prot_fg t l p True m)"

definition present :: "ptr list \<Rightarrow> mach \<Rightarrow> bool" where
  "present ps m \<longleftrightarrow> (\<forall>p \<in> set ps. held_removed prot_fg t l p False m)"

lemma stabJ_validation [stab_intros]:
  "stabJ R fg_ok (moved ps)" "stabJ R fg_ok (unmoved ps)" "stabJ R fg_ok (gone qs)"
  "stabJ R fg_ok (present qs)"
  unfolding moved_def unmoved_def gone_def present_def by (intro stab_intros)+

lemma any_moved_spec:
  assumes "stabJ R fg_ok A"
    and "\<And>m p q. fg_ok m \<Longrightarrow> A m \<Longrightarrow> (p, q) \<in> set ps \<Longrightarrow> held prot_fg t l p m"
  shows "triple A (any_moved ps) (\<lambda>r m. A m \<and> (if r then moved ps m else unmoved ps m))"
  using assms
proof (induction ps arbitrary: A rule: any_moved.induct)
  case 1
  show ?case by (simp, rule t_ret[OF 1(1)]) (simp add: unmoved_def)
next
  case (2 p q ps)
  let ?A = "\<lambda>x m. A m \<and> held_next prot_fg t l p x m"
  have A: "stabJ R fg_ok (?A x)" for x by (intro stab_intros 2)
  have rd: "triple A (rd p p_next) ?A"
    by (rule t_rd, rule 2(2), rule A) (use 2(3) in \<open>fastforce simp: know_defs dest: pub_mem\<close>)
  have "triple (?A x) (if x \<noteq> q then Ret True else any_moved ps)
      (\<lambda>r m. A m \<and> (if r then moved ((p, q) # ps) m else unmoved ((p, q) # ps) m))" for x
  proof (rule t_if)
    assume "x \<noteq> q"
    then show "triple (?A x) (Ret True)
      (\<lambda>r m. A m \<and> (if r then moved ((p, q) # ps) m else unmoved ((p, q) # ps) m))"
      by (intro t_ret A) (auto simp: moved_def)
  next
    assume x: "\<not> x \<noteq> q"
    have "triple (?A x) (any_moved ps) (\<lambda>r m. ?A x m \<and> (if r then moved ps m else unmoved ps m))"
      by (rule 2(1)[OF _ A]) (use x 2(3) in auto)
    then show "triple (?A x) (any_moved ps)
      (\<lambda>r m. A m \<and> (if r then moved ((p, q) # ps) m else unmoved ((p, q) # ps) m))"
      by (rule t_conseq) (use x in \<open>auto simp: moved_def unmoved_def split: if_splits\<close>)
  qed
  then show ?case unfolding any_moved.simps by (rule t_bind[OF rd])
qed

lemma any_removed_spec:
  assumes "stabJ R fg_ok A"
    and "\<And>m p. fg_ok m \<Longrightarrow> A m \<Longrightarrow> p \<in> set ps \<Longrightarrow> held prot_fg t l p m"
  shows "triple A (any_removed ps) (\<lambda>r m. A m \<and> (if r then gone ps m else present ps m))"
  using assms
proof (induction ps arbitrary: A rule: any_removed.induct)
  case 1
  show ?case by (simp, rule t_ret[OF 1(1)]) (simp add: present_def)
next
  case (2 p ps)
  let ?A = "\<lambda>x m. A m \<and> held_removed prot_fg t l p (x \<noteq> 0) m"
  have A: "stabJ R fg_ok (?A x)" for x by (intro stab_intros 2)
  have rd: "triple A (rd p removed) ?A"
    by (rule t_rd, rule 2(2), rule A)
      (use 2(3) in \<open>fastforce simp: know_defs rmvd_def pub_def\<close>)
  have "triple (?A x) (if x \<noteq> 0 then Ret True else any_removed ps)
      (\<lambda>r m. A m \<and> (if r then gone (p # ps) m else present (p # ps) m))" for x
  proof (rule t_if)
    assume "x \<noteq> 0"
    then show "triple (?A x) (Ret True)
      (\<lambda>r m. A m \<and> (if r then gone (p # ps) m else present (p # ps) m))"
      by (intro t_ret A) (auto simp: gone_def)
  next
    assume x: "\<not> x \<noteq> 0"
    have "triple (?A x) (any_removed ps) (\<lambda>r m. ?A x m \<and> (if r then gone ps m else present ps m))"
      by (rule 2(1)[OF _ A]) (use x 2(3) in auto)
    then show "triple (?A x) (any_removed ps)
      (\<lambda>r m. A m \<and> (if r then gone (p # ps) m else present (p # ps) m))"
      by (rule t_conseq) (use x in \<open>auto simp: gone_def present_def split: if_splits\<close>)
  qed
  then show ?case unfolding any_removed.simps by (rule t_bind[OF rd])
qed

text \<open>A conflict needs another thread: alone, the nodes of the walk are still in place.\<close>

lemma no_conflict:
  assumes "fg_ok m" "alone R" "linked p q m" "linked q r m"
  shows "\<not> moved [(p, q)] m" "\<not> moved [(p, q), (q, r)] m" "\<not> gone [p, q] m"
    "r \<noteq> NULL \<Longrightarrow> \<not> gone [p, q, r] m"
proof -
  have pq: "pub m l p" "in_chain m l p" "nxt m p = q" "pub m l q" "in_chain m l q" "nxt m q = r"
    using assms(3,4) by (auto simp: linked_def)
  show "\<not> moved [(p, q)] m" "\<not> moved [(p, q), (q, r)] m"
    using pq by (auto simp: moved_def know_defs)
  show "\<not> gone [p, q] m"
    using pq assms(1) by (auto simp: gone_def know_defs fg_ok_def)
  assume "r \<noteq> NULL"
  then have "in_chain m l r" using pq by (auto simp: in_chain_def intro: reach_snoc)
  then show "\<not> gone [p, q, r] m"
    using pq assms(1) by (auto simp: gone_def know_defs fg_ok_def)
qed

lemma found_linked:
  assumes "fg_ok m" "alone R" "found lk (p, q, v) m"
  shows "linked p q m \<and> linked q (nxt m q) m"
proof -
  have p: "linked p q m" "pub m l q" using assms(2,3) by (auto simp: found_def at_def when_alone_def pos_def)
  then have "in_chain m l q"
    using reach_snoc[of "nxt m" "hd_of m l" p] pub_not_null[OF fine.J_wfm[OF assms(1)] p(2)]
    by (simp add: in_chain_def linked_def)
  with p show ?thesis by (simp add: linked_def)
qed

lemma found_neq: "found lk (p, q, v) m \<Longrightarrow> p \<noteq> q"
  by (auto simp: found_def at_def pos_def)

text \<open>Unlocking two nodes, in the reverse order of locking.\<close>

lemma unlock_two:
  assumes A: "stabJ R fg_ok A" "\<And>Q. stabJ (keep Q) fg_ok A" and pq: "p \<noteq> q"
    and c: "triple (\<lambda>m. A m \<and> free (SG - {q} - {p}) SP m) c B"
  shows "triple (\<lambda>m. ((A m \<and> grabbed prot_fg t l p m) \<and> grabbed prot_fg t l q m) \<and> free SG SP m)
    (bind (spin_unlock (Global q)) (\<lambda>_. bind (spin_unlock (Global p)) (\<lambda>_. c))) B"
proof (rule t_bind)
  show "triple (\<lambda>m. ((A m \<and> grabbed prot_fg t l p m) \<and> grabbed prot_fg t l q m) \<and> free SG SP m)
      (spin_unlock (Global q)) (\<lambda>_ m. (A m \<and> grabbed prot_fg t l p m) \<and> free (SG - {q}) SP m)"
    by (rule unlock_global, intro stab_intros A, intro stab_intros A) (use pq in simp)
  show "triple (\<lambda>m. (A m \<and> grabbed prot_fg t l p m) \<and> free (SG - {q}) SP m)
      (bind (spin_unlock (Global p)) (\<lambda>_. c)) B"
    by (rule t_bind[OF unlock_global[OF A] c])
qed

subsection \<open>Insertion\<close>

text \<open>The state after locking both neighbours, with the new node ready.\<close>

abbreviation "poised prev next v x SP \<equiv> \<lambda>m. (((start m \<and> found False (prev, next, v) m \<and>
   ready t x key next m) \<and> grabbed prot_fg t l prev m) \<and> grabbed prot_fg t l next m) \<and>
   free {next, prev} SP m"

lemma add_check:
  "triple (poised prev next v x SP) (bind (any_moved [(prev, next)]) (\<lambda>r.
      bind (if r then Ret True else any_removed [prev, next]) k)) B"
  if k: "\<And>c. triple (\<lambda>m. poised prev next v x SP m \<and> (if c then \<not> alone R else
      unmoved [(prev, next)] m \<and> present [prev, next] m)) (k c) B"
proof -
  let ?S = "poised prev next v x SP"
  have S: "stabJ R fg_ok ?S" by (intro stab_intros)
  have mv: "triple ?S (any_moved [(prev, next)])
      (\<lambda>r m. ?S m \<and> (if r then moved [(prev, next)] m else unmoved [(prev, next)] m))"
    by (rule any_moved_spec[OF S]) (auto simp: know_defs)
  have con: "\<not> alone R" if "fg_ok m" "?S m" "moved [(prev, next)] m \<or> gone [prev, next] m" for m
    using that no_conflict[OF that(1)] found_linked[OF that(1)] by blast
  have rm: "triple (\<lambda>m. ?S m \<and> (if r then moved [(prev, next)] m else unmoved [(prev, next)] m))
      (if r then Ret True else any_removed [prev, next])
      (\<lambda>c m. ?S m \<and> (if c then \<not> alone R else unmoved [(prev, next)] m \<and> present [prev, next] m))" for r
  proof (rule t_if)
    assume r
    then show "triple (\<lambda>m. ?S m \<and> (if r then moved [(prev, next)] m else unmoved [(prev, next)] m))
      (Ret True)
      (\<lambda>c m. ?S m \<and> (if c then \<not> alone R else unmoved [(prev, next)] m \<and> present [prev, next] m))"
      by (intro t_ret stab_intros) (use con in auto)
  next
    assume r: "\<not> r"
    have "triple (\<lambda>m. ?S m \<and> unmoved [(prev, next)] m) (any_removed [prev, next])
      (\<lambda>c m. (?S m \<and> unmoved [(prev, next)] m) \<and>
         (if c then gone [prev, next] m else present [prev, next] m))"
      by (rule any_removed_spec, intro stab_intros) (auto simp: know_defs)
    then show "triple (\<lambda>m. ?S m \<and> (if r then moved [(prev, next)] m else unmoved [(prev, next)] m))
      (any_removed [prev, next])
      (\<lambda>c m. ?S m \<and> (if c then \<not> alone R else unmoved [(prev, next)] m \<and> present [prev, next] m))"
      by (rule t_conseq) (use r con in \<open>auto split: if_splits\<close>)
  qed
  show ?thesis by (rule t_bind[OF mv t_bind[OF rm k]])
qed

lemma add_commit:
  assumes v: "v \<noteq> key"
  shows "triple (\<lambda>m. poised prev next v x SP m \<and> unmoved [(prev, next)] m \<and> present [prev, next] m)
    (rcu_assign_next prev x)
    (\<lambda>_ m. (((add_done True m \<and> pos l key prev next m) \<and> grabbed prot_fg t l prev m) \<and>
       grabbed prot_fg t l next m) \<and> free {next, prev} SP m)"
proof (rule t_conseq)
  let ?A = "\<lambda>m. (ready t x key next m \<and> grabbed prot_fg t l prev m) \<and> grabbed prot_fg t l next m \<and>
      free {next, prev} SP m \<and> pos l key prev next m"
  let ?B = "\<lambda>m. (grabbed prot_fg t l prev m \<and> grabbed prot_fg t l next m \<and> pos l key prev next m) \<and>
      free {next, prev} SP m"
  show "triple (\<lambda>m. (?A m \<and> gap prev next m \<and> start m \<and> (kn \<longrightarrow> \<not> b)) \<and> filled t x key next m)
      (rcu_assign_next prev x) (\<lambda>_ m. ?B m \<and> add_done True m)"
  proof (rule link_spec, intro stab_intros, intro stab_intros, rule key_U)
    fix m let ?m = "assign_next t prev x m"
    assume m: "fg_ok m" "?A m" "can_link t l prev x m" "prot_fg t m prev"
    obtain n0 where n0: "mem m prev = Some n0" using can_link_mem[OF m(3)] by blast
    obtain ns where x: "own_node t x (\<lambda>n. new_locks ns n \<and> val n = key \<and> p_next n = next) m"
        "nodes_with_cpus m = ns" using m(2) by (auto simp: ready_def consts_are_def)
    note lk = assign_lock[OF n0]
    have pr: "prot_fg s ?m p = prot_fg s m p" for s p by (simp add: prot_fg_def lk)
    have rm: "rmvd ?m p = rmvd m p" for p by (simp add: assign_next_proj[OF n0])
    have ok: "fg_ok ?m"
      by (rule fg_link[OF m(1,3)]) (use x(1) in \<open>auto simp: own_node_def rmvd_def new_locks_def\<close>)
    have gr: "grabbed prot_fg t l p ?m" if "grabbed prot_fg t l p m" for p
      using that link_pub[OF m(3)] link_in_chain_iff[OF m(3)] by (simp add: grabbed_def pr rm)
    have "i < NR_NUMA_NODES" if "i \<in> set (nodes_with_cpus m)" for i
      using that fg_inv[OF m(1)] by (simp add: inv_def env_ok_def)
    then have "lock_get m (Global x) = Some None" "\<forall>i \<in> set (nodes_with_cpus m). lock_get m (Pnd x i) = Some None"
      using x by (auto simp: own_node_def new_locks_def lock_get.simps)
    moreover have "nodes_with_cpus ?m = nodes_with_cpus m" "node_of ?m = node_of m"
      using n0 by (auto simp: assign_next_def set_node_def Let_def split: owner.splits)
    ultimately have "free {next, prev} SP ?m"
      using m(2) by (auto simp: when_alone_def quiet_def lk link_pub[OF m(3)])
    moreover have "pos l key prev next ?m"
      using m(2) link_pub[OF m(3)] by (auto simp: pos_def assign_next_proj[OF n0])
    ultimately show "fg_ok ?m \<and> ?B ?m \<and>
        (\<forall>s l' p. s \<noteq> t \<longrightarrow> pub m l' p \<longrightarrow> prot_fg s m p \<longrightarrow> prot_fg s ?m p)"
      using ok gr m(2) pr by blast
  qed
qed (use v in \<open>auto simp: unmoved_def present_def know_defs found_def at_def gap_def intro: ready_filled\<close>)

abbreviation "begin_op \<equiv> \<lambda>m. start m \<and> free {} {} m"
abbreviation "add_result \<equiv> \<lambda>r m. \<exists>ins. (add_done ins m \<and> free {} {} m) \<and> r = (of_bool ins :: int)"
abbreviation "del_result \<equiv> \<lambda>r m. \<exists>del. (del_done del m \<and> free {} {} m) \<and> r = (of_bool del :: int)"

lemma fg_find_pos: "triple begin_op (find_pos w l key) (\<lambda>x m. begin_op m \<and> found False x m)"
  by (rule t_conseq[OF find_pos_spec[where A = "free {} {}" and lk = False]], intro stab_intros) auto

lemma add_present:
  "v = key \<Longrightarrow> triple (\<lambda>m. begin_op m \<and> found lk (prev, next, v) m) (Ret 0) add_result"
  by (rule t_ret, intro stab_intros) (use found_known skip_add in \<open>fastforce intro!: exI[of _ False]\<close>)

text \<open>
  One attempt with the prepared node \<open>x\<close>: lock, validate, and either publish it or give up. What
  follows the unlocking is \<open>c\<close> after a success and \<open>d\<close> after a conflict, which needs another thread.
\<close>

lemma add_attempt:
  assumes v: "v \<noteq> key"
    and c: "triple (\<lambda>m. (add_done True m \<and> pos l key prev next m) \<and> free {} SP m) c B"
    and d: "\<not> alone R \<Longrightarrow> triple (\<lambda>m. (start m \<and> pos l key prev next m \<and> ready t x key next m) \<and>
      free {} SP m) d B"
  shows "triple (\<lambda>m. (start m \<and> found False (prev, next, v) m \<and> ready t x key next m) \<and> free {} SP m)
     (bind (spin_lock (Global prev)) (\<lambda>_.
      bind (spin_lock (Global next)) (\<lambda>_.
      bind (any_moved [(prev, next)]) (\<lambda>moved.
      bind (if moved then Ret True else any_removed [prev, next]) (\<lambda>conflict.
      if \<not> conflict then
        bind (rcu_assign_next prev x) (\<lambda>_.
        bind (spin_unlock (Global next)) (\<lambda>_.
        bind (spin_unlock (Global prev)) (\<lambda>_. c)))
      else
        bind (spin_unlock (Global next)) (\<lambda>_.
        bind (spin_unlock (Global prev)) (\<lambda>_. d))))))) B"
    (is "triple ?P _ _")
proof (rule t_drop[of _ "prev \<noteq> next"])
  fix m assume "?P m"
  then show "prev \<noteq> next" using found_neq by blast
next
  assume pn: "prev \<noteq> next"
  let ?F = "\<lambda>m. start m \<and> found False (prev, next, v) m \<and> ready t x key next m"
  have l1: "triple ?P (spin_lock (Global prev))
      (\<lambda>_ m. (?F m \<and> grabbed prot_fg t l prev m) \<and> free {prev} SP m)"
    by (rule lock_global, intro stab_intros, intro stab_intros) (use found_pub in auto)
  have l2: "triple (\<lambda>m. (?F m \<and> grabbed prot_fg t l prev m) \<and> free {prev} SP m)
      (spin_lock (Global next)) (\<lambda>_. poised prev next v x SP)"
    by (rule lock_global, intro stab_intros, intro stab_intros) (use found_pub pn in auto)
  have S: "{next, prev} - {next} - {prev} = {}" by auto
  note un = unlock_two[OF _ _ pn, where SG = "{next, prev}" and SP = SP, unfolded S]
  have c': "triple (\<lambda>m. poised prev next v x SP m \<and> unmoved [(prev, next)] m \<and> present [prev, next] m)
      (bind (rcu_assign_next prev x) (\<lambda>_.
       bind (spin_unlock (Global next)) (\<lambda>_. bind (spin_unlock (Global prev)) (\<lambda>_. c)))) B"
    by (rule t_bind[OF add_commit[OF v] un[OF _ _ c]]) (intro stab_intros)+
  have d': "triple (\<lambda>m. poised prev next v x SP m \<and> \<not> alone R)
      (bind (spin_unlock (Global next)) (\<lambda>_. bind (spin_unlock (Global prev)) (\<lambda>_. d))) B"
  proof (rule t_pull, rule t_pre)
    assume na: "\<not> alone R"
    show "triple (\<lambda>m. (((start m \<and> pos l key prev next m \<and> ready t x key next m) \<and>
        grabbed prot_fg t l prev m) \<and> grabbed prot_fg t l next m) \<and> free {next, prev} SP m)
        (bind (spin_unlock (Global next)) (\<lambda>_. bind (spin_unlock (Global prev)) (\<lambda>_. d))) B"
      by (rule un[OF _ _ d[OF na]]) (intro stab_intros)+
  qed (auto simp: found_def at_def)
  show ?thesis
    by (rule t_bind[OF l1 t_bind[OF l2 add_check]]) (use c' d' in \<open>auto split: if_splits\<close>)
qed

text \<open>The retries are bounded by the fuel \<open>f\<close>: alone, the first attempt succeeds.\<close>

lemma fg_add_spec:
  assumes "may_diverge D \<or> alone R \<and> 0 < f"
  shows "triple begin_op (rcu_list_fg_add w f l key) add_result"
  using assms
proof (induction f)
  case 0
  then show ?case using t_diverge by simp
next
  case (Suc f)
  have ok: "triple (\<lambda>m. (add_done True m \<and> pos l key prev next m) \<and> free {} {} m) (Ret 1) add_result"
    for prev "next" by (rule t_ret, intro stab_intros) (auto intro!: exI[of _ True])
  have retry: "triple (\<lambda>m. (start m \<and> pos l key prev next m \<and> ready t x key next m) \<and> free {} {} m)
      (bind (kfree_node x) (\<lambda>_. rcu_list_fg_add w f l key)) add_result"
    if "\<not> alone R" for prev "next" x
  proof (rule t_bind)
    show "triple (\<lambda>m. (start m \<and> pos l key prev next m \<and> ready t x key next m) \<and> free {} {} m)
        (kfree_node x) (\<lambda>_. begin_op)"
      by (rule t_pre[OF t_kfree_ready[where key = key and q = "next"]], intro stab_intros,
          intro stab_intros) simp
    show "triple begin_op (rcu_list_fg_add w f l key) add_result" using Suc that by blast
  qed
  show ?case
    unfolding rcu_list_fg_add.simps
  proof (rule t_bind[OF fg_find_pos], rule t_triple, rule t_if, goal_cases)
    case (1 _ prev "next" v)
    show ?case
      by (rule t_prepare, intro stab_intros, intro stab_intros)
        (rule t_pre[OF add_attempt[OF 1 ok retry]], auto)
  qed (rule add_present, simp)
qed

lemma unlock_pnds:
  assumes A: "stabJ R fg_ok A" "stabJ (keep {}) fg_ok A"
    and c: "triple (\<lambda>m. A m \<and> free {} {} m) c B"
  shows "triple (\<lambda>m. (A m \<and> pos l key prev next m) \<and> free {} {next, prev} m)
      (bind (pnd_unlock next) (\<lambda>_. bind (pnd_unlock prev) (\<lambda>_. c))) B"
proof (rule t_bind)
  show "triple (\<lambda>m. (A m \<and> pos l key prev next m) \<and> free {} {next, prev} m) (pnd_unlock next)
      (\<lambda>_ m. (A m \<and> pos l key prev next m) \<and> free {} ({next, prev} - {next}) m)"
    by (rule unlock_pnd, intro stab_intros A, intro stab_intros A) (simp add: pos_def)
  have S: "{prev} - {next} - {prev} = {}" by auto
  have "triple (\<lambda>m. (A m \<and> pos l key prev next m) \<and> free {} ({next, prev} - {next}) m) (pnd_unlock prev)
      (\<lambda>_ m. (A m \<and> pos l key prev next m) \<and> free {} ({next, prev} - {next} - {prev}) m)"
    by (rule unlock_pnd, intro stab_intros A, intro stab_intros A) (simp add: pos_def)
  then show "triple (\<lambda>m. (A m \<and> pos l key prev next m) \<and> free {} ({next, prev} - {next}) m)
      (bind (pnd_unlock prev) (\<lambda>_. c)) B"
    by (rule t_bind) (rule t_pre[OF c], simp add: S)
qed

lemma numa_add_spec:
  assumes "may_diverge D \<or> alone R \<and> 0 < f"
  shows "triple begin_op (rcu_list_numa_add w f l key) add_result"
  using assms
proof (induction f)
  case 0
  then show ?case using t_diverge by simp
next
  case (Suc f)
  let ?F = "\<lambda>prev next v x m. start m \<and> found False (prev, next, v) m \<and> ready t x key next m"
  have ok: "triple (\<lambda>m. (add_done True m \<and> pos l key prev next m) \<and> free {} {next, prev} m)
      (bind (pnd_unlock next) (\<lambda>_. bind (pnd_unlock prev) (\<lambda>_. Ret 1))) add_result" for prev "next"
    by (rule unlock_pnds, intro stab_intros, intro stab_intros, rule t_ret, intro stab_intros)
      (auto intro!: exI[of _ True])
  have retry: "triple (\<lambda>m. (start m \<and> pos l key prev next m \<and> ready t x key next m) \<and>
        free {} {next, prev} m)
      (bind (pnd_unlock next) (\<lambda>_. bind (pnd_unlock prev) (\<lambda>_. bind (kfree_node x) (\<lambda>_.
       rcu_list_numa_add w f l key)))) add_result"
    if "\<not> alone R" for prev "next" x
  proof -
    have "triple (\<lambda>m. (start m \<and> ready t x key next m) \<and> free {} {} m) (kfree_node x) (\<lambda>_. begin_op)"
      by (rule t_pre[OF t_kfree_ready[where key = key and q = "next"]], intro stab_intros,
          intro stab_intros) simp
    moreover have "triple begin_op (rcu_list_numa_add w f l key) add_result" using Suc that by blast
    ultimately have "triple (\<lambda>m. ((start m \<and> ready t x key next m) \<and> pos l key prev next m) \<and>
        free {} {next, prev} m)
      (bind (pnd_unlock next) (\<lambda>_. bind (pnd_unlock prev) (\<lambda>_. bind (kfree_node x) (\<lambda>_.
       rcu_list_numa_add w f l key)))) add_result"
      by (intro unlock_pnds stab_intros t_bind)
    then show ?thesis by (rule t_pre) auto
  qed
  have p1: "triple (\<lambda>m. ?F prev next v x m \<and> free {} {} m) (pnd_lock prev)
      (\<lambda>_ m. ?F prev next v x m \<and> free {} {prev} m)" for prev "next" v x
    by (rule lock_pnd, intro stab_intros, intro stab_intros) (use found_pub in auto)
  have p2: "triple (\<lambda>m. ?F prev next v x m \<and> free {} {prev} m) (pnd_lock next)
      (\<lambda>_ m. ?F prev next v x m \<and> free {} {next, prev} m)" if "prev \<noteq> next" for prev "next" v x
    by (rule lock_pnd, intro stab_intros, intro stab_intros) (use found_pub that in auto)
  show ?case
    unfolding rcu_list_numa_add.simps
  proof (rule t_bind[OF fg_find_pos], rule t_triple, rule t_if, goal_cases)
    case (1 _ prev "next" v)
    show ?case
    proof (rule t_drop[of _ "prev \<noteq> next"])
      fix m assume "begin_op m \<and> found False (prev, next, v) m"
      then show "prev \<noteq> next" using found_neq by blast
    next
      assume pn: "prev \<noteq> next"
      show ?thesis
        by (rule t_prepare, intro stab_intros, intro stab_intros)
          (rule t_pre[OF t_bind[OF p1 t_bind[OF p2[OF pn] add_attempt[OF 1 ok retry]]]], auto)
    qed
  qed (rule add_present, simp)
qed

subsection \<open>Removal\<close>

text \<open>\<open>n\<close> was the successor of \<open>next\<close> when it was read.\<close>

definition behind :: "ptr \<Rightarrow> ptr \<Rightarrow> mach \<Rightarrow> bool" where
  "behind next n m \<longleftrightarrow> (\<exists>v. node_at l n v m \<and> key < v) \<and> when_alone R (linked next n) m"

lemma stabJ_behind [stab_intros]:
  "stabJ R fg_ok (behind next n)" "stabJ (keep Q) fg_ok (behind next n)"
proof -
  show "stabJ R fg_ok (behind next n)" unfolding behind_def by (intro stab_intros)
  have "stabJ lock_step fg_ok (linked next n)"
    by (auto simp: stabJ_def linked_def lock_step_pub lock_step_in_chain lock_step_proj)
  then show "stabJ (keep Q) fg_ok (behind next n)"
    unfolding behind_def by (intro stabJ_keep stab_intros stabJ_when_local)
qed

text \<open>The state after locking the node, its predecessor and its successor.\<close>

abbreviation "poised3 prev next n SP \<equiv> \<lambda>m. ((((start m \<and> found False (prev, next, key) m \<and>
   behind next n m) \<and> grabbed prot_fg t l prev m) \<and> grabbed prot_fg t l next m) \<and>
   grabbed prot_fg t l n m) \<and> free {n, next, prev} SP m"

abbreviation "validated prev next n \<equiv> \<lambda>m. present [prev, next, n] m \<and> unmoved [(prev, next), (next, n)] m"

lemma del_check:
  "triple (poised3 prev next n SP) (bind (any_removed [prev, next, n]) (\<lambda>r.
      bind (if r then Ret True else any_moved [(prev, next), (next, n)]) k)) B"
  if k: "\<And>c. triple (\<lambda>m. poised3 prev next n SP m \<and> (if c then \<not> alone R else
      validated prev next n m)) (k c) B"
proof -
  let ?S = "poised3 prev next n SP"
  have S: "stabJ R fg_ok ?S" by (intro stab_intros)
  have con: "\<not> alone R" if m: "fg_ok m" "?S m"
      "moved [(prev, next), (next, n)] m \<or> gone [prev, next, n] m" for m
  proof
    assume al: "alone R"
    have "linked prev next m" using m al found_linked[of m False prev "next" key] by blast
    moreover have "linked next n m" "n \<noteq> NULL"
      using m(2) al pub_not_null[OF fine.J_wfm[OF m(1)]]
      by (auto simp: behind_def when_alone_def node_at_def)
    ultimately show False using no_conflict[OF m(1) al] m(3) by blast
  qed
  have rm: "triple ?S (any_removed [prev, next, n])
      (\<lambda>r m. ?S m \<and> (if r then gone [prev, next, n] m else present [prev, next, n] m))"
    by (rule any_removed_spec[OF S]) (auto simp: know_defs)
  have mv: "triple (\<lambda>m. ?S m \<and> (if r then gone [prev, next, n] m else present [prev, next, n] m))
      (if r then Ret True else any_moved [(prev, next), (next, n)])
      (\<lambda>c m. ?S m \<and> (if c then \<not> alone R else validated prev next n m))" for r
  proof (rule t_if)
    assume r
    then show "triple (\<lambda>m. ?S m \<and> (if r then gone [prev, next, n] m else present [prev, next, n] m))
      (Ret True) (\<lambda>c m. ?S m \<and> (if c then \<not> alone R else validated prev next n m))"
      by (intro t_ret stab_intros) (use con in auto)
  next
    assume r: "\<not> r"
    have "triple (\<lambda>m. ?S m \<and> present [prev, next, n] m) (any_moved [(prev, next), (next, n)])
      (\<lambda>c m. (?S m \<and> present [prev, next, n] m) \<and>
         (if c then moved [(prev, next), (next, n)] m else unmoved [(prev, next), (next, n)] m))"
      by (rule any_moved_spec, intro stab_intros) (auto simp: know_defs)
    then show "triple (\<lambda>m. ?S m \<and> (if r then gone [prev, next, n] m else present [prev, next, n] m))
      (any_moved [(prev, next), (next, n)])
      (\<lambda>c m. ?S m \<and> (if c then \<not> alone R else validated prev next n m))"
      by (rule t_conseq) (use r con in \<open>auto split: if_splits\<close>)
  qed
  show ?thesis by (rule t_bind[OF rm t_bind[OF mv k]])
qed

text \<open>What is left to do after the bypass: mark the node, queue it, unlock.\<close>

abbreviation "out prev next n SP \<equiv> \<lambda>m. ((del_done True m \<and> pos l key prev next m \<and>
   (\<exists>v. node_at l n v m)) \<and> grabbed prot_fg t l prev m) \<and> grabbed prot_fg t l n m \<and>
   free {n, next, prev} SP m"

lemma del_commit:
  assumes d: "prev \<noteq> next" "next \<noteq> n"
  shows "triple (\<lambda>m. poised3 prev next n SP m \<and> validated prev next n m) (rcu_assign_next prev n)
    (\<lambda>_ m. out prev next n SP m \<and> held_gone prot_fg t l next m)"
proof (rule t_conseq)
  let ?A = "\<lambda>m. (pos l key prev next m \<and> (\<exists>v. node_at l n v m)) \<and> grabbed prot_fg t l prev m \<and>
      grabbed prot_fg t l n m \<and> held prot_fg t l next m \<and> free {n, next, prev} SP m"
  let ?B = "\<lambda>m. (pos l key prev next m \<and> (\<exists>v. node_at l n v m)) \<and> grabbed prot_fg t l prev m \<and>
      grabbed prot_fg t l n m \<and> held_gone prot_fg t l next m \<and> free {n, next, prev} SP m"
  show "triple (\<lambda>m. ?A m \<and> bypass prev next n m \<and> start m \<and> (kn \<longrightarrow> b))
      (rcu_assign_next prev n) (\<lambda>_ m. ?B m \<and> del_done True m \<and> node_at l next key m)"
  proof (rule unlink_spec, intro stab_intros, intro stab_intros, rule key_U)
    fix m let ?m = "unlink t prev m"
    assume m: "fg_ok m" "?A m" "can_unlink l prev m" "prot_fg t m prev" "nxt m prev = next"
    obtain n0 where n0: "mem m prev = Some n0" using can_unlinkD(2)[OF m(3)] by (auto simp: pub_def)
    note lk = assign_lock[OF n0] and up = unlink_pub[OF m(3)]
    have pr: "prot_fg s ?m p = prot_fg s m p" for s p by (simp add: prot_fg_def lk)
    have rm: "rmvd ?m p = rmvd m p" for p by (simp add: assign_next_proj[OF n0])
    have ok: "fg_ok ?m"
      by (rule fg_unlink[OF m(1,3)]) (use m(2,5) in \<open>simp add: held_def prot_fg_def\<close>)
    have gr: "grabbed prot_fg t l p ?m" if "grabbed prot_fg t l p m" "p \<noteq> next" for p
      using that up[of t l p] unlink_in_chain_iff[OF m(3), of p t l] m(5) pr[of t p] rm[of p]
      by (auto simp: grabbed_def)
    have "held_gone prot_fg t l next ?m"
      using m(2,5) up[of t l "next"] unlink_gone[OF m(3), of t] pr[of t "next"]
      by (simp add: held_gone_def held_def)
    moreover have "nodes_with_cpus ?m = nodes_with_cpus m" "node_of ?m = node_of m"
      using n0 by (auto simp: assign_next_def set_node_def Let_def split: owner.splits)
    then have "free {n, next, prev} SP ?m"
      using m(2) by (simp add: when_alone_def quiet_def lk up)
    moreover have "pos l key prev next ?m" "\<exists>v. node_at l n v ?m"
      using m(2) up by (auto simp: pos_def node_at_def assign_next_proj[OF n0])
    ultimately show "fg_ok ?m \<and> ?B ?m \<and>
        (\<forall>s l' p. s \<noteq> t \<longrightarrow> pub m l' p \<longrightarrow> prot_fg s m p \<longrightarrow> prot_fg s ?m p)"
      using ok gr m(2) d pr by blast
  qed
next
  fix m assume m: "fg_ok m" "poised3 prev next n SP m \<and> validated prev next n m"
  then have "bypass prev next n m" "pos l key prev next m" "held prot_fg t l next m"
    by (auto simp: bypass_def unmoved_def present_def know_defs found_def at_def)
  moreover have "\<exists>v. node_at l n v m" using m(2) by (auto simp: behind_def)
  moreover have "kn \<longrightarrow> b" using m(2) found_known by blast
  ultimately show "((pos l key prev next m \<and> (\<exists>v. node_at l n v m)) \<and> grabbed prot_fg t l prev m \<and>
      grabbed prot_fg t l n m \<and> held prot_fg t l next m \<and> free {n, next, prev} SP m) \<and>
      bypass prev next n m \<and> start m \<and> (kn \<longrightarrow> b)"
    using m(2) by blast
qed auto

lemma mark_spec:
  assumes d: "prev \<noteq> next" "next \<noteq> n"
  shows "triple (\<lambda>m. out prev next n SP m \<and> held_gone prot_fg t l next m) (set_removed next)
    (\<lambda>_ m. out prev next n SP m \<and> grabbed prot_fg t l next m)"
  unfolding set_removed_def wr_def
proof (rule t_atomic, intro stab_intros, intro stab_intros)
  fix m assume m: "fg_ok m" "out prev next n SP m \<and> held_gone prot_fg t l next m"
  obtain n0 where n0: "mem m next = Some n0" using m(2) by (auto simp: held_gone_def pub_def)
  let ?m = "set_node next (n0\<lparr>removed := 1\<rparr>) m"
  have w: "wfm m" by (rule fine.J_wfm[OF m(1)])
  have pu: "pub m l next" using m(2) by (simp add: held_gone_def)
  have ss: "sync_step m ?m"
    using n0 wfm_heap_ok[OF w] pu
    by (auto simp: sync_step_def frame_eq_def const_eq_def heap_ok_def set_node_def pub_def priv_def
        nxt_def[abs_def] vl_def[abs_def] hd_of_def fun_eq_iff)
  have lk: "lock_get ?m k = lock_get m k" for k
    using n0 by (cases k) (auto simp: lock_get.simps set_node_def)
  have rm: "rmvd ?m p = (p = next \<or> rmvd m p)" for p
    by (auto simp: rmvd_def set_node_def)
  have pr: "prot_fg s ?m p = prot_fg s m p" for s p by (simp add: prot_fg_def lk)
  have f: "frame_eq m ?m" using ss by (simp add: sync_step_def)
  have pb: "pub ?m l' p = pub m l' p" for l' p using f by (simp add: frame_eq_def)
  have ch: "in_chain ?m l p = in_chain m l p" for p
    using frame_in_chain[OF w f wf_pub_list[OF w pu]] .
  have iv: "inv ?m" using inv_frame[OF fg_inv[OF m(1)] f] ss by (simp add: sync_step_def)
  have ok: "fg_ok ?m"
  proof (rule fg_frame[OF m(1) f iv])
    fix l' p assume "pub m l' p" "rmvd ?m p"
    then show "rmvd m p \<or> \<not> in_chain m l' p"
      using m(2) pu by (auto simp: rm held_gone_def dest: pub_fun)
  next
    fix l' p assume "pub m l' p" "lock_get ?m (Global p) = Some None" "\<not> rmvd ?m p"
    then show "in_chain m l' p" using fg_free[OF m(1)] by (simp add: lk rm)
  qed
  have "G m ?m"
  proof (rule fine.frame_guar[OF m(1) ok f])
    show "const_eq m ?m" using ss by (simp add: sync_step_def)
    fix s l' p assume "s \<noteq> t" "pub m l' p" "prot_fg s m p"
    then show "prot_fg s ?m p \<and> rmvd ?m p = rmvd m p"
      using m(2) fine.prot_excl[of s m p t] by (auto simp: pr rm held_gone_def)
  qed (use ss in \<open>auto simp: sync_step_def priv_def set_node_def\<close>)
  moreover have "(del_done True ?m \<and> pos l key prev next ?m) \<and> (\<exists>v. node_at l n v ?m)"
    using m ok ss stabJ_sync_op(3)[of True] stabJ_sync_basic(9)[of fg_ok l key prev "next"]
      stabJ_sync_basic(2)[of fg_ok l n] unfolding stabJ_def by blast
  moreover have "grabbed prot_fg t l prev ?m" "grabbed prot_fg t l n ?m" "grabbed prot_fg t l next ?m"
    using m(2) d by (auto simp: grabbed_def held_gone_def pb pr rm ch)
  moreover have "free {n, next, prev} SP ?m"
    using m(2) by (simp add: when_alone_def quiet_def lk pb) (simp add: set_node_def)
  ultimately show "\<exists>a m'. (case mem m next of Some n \<Rightarrow> Some ((), set_node next (n\<lparr>removed := 1\<rparr>) m)
      | None \<Rightarrow> None) = Some (a, m') \<and> G m m' \<and> fg_ok m' \<and> out prev next n SP m' \<and>
      grabbed prot_fg t l next m'"
    using n0 ok by auto
qed

text \<open>One attempt to remove, in the same form as \<open>add_attempt\<close>.\<close>

lemma del_attempt:
  assumes c: "triple (\<lambda>m. (del_done True m \<and> pos l key prev next m \<and> (\<exists>v. node_at l n v m)) \<and>
      free {} SP m) c B"
    and d: "\<not> alone R \<Longrightarrow> triple (\<lambda>m. (start m \<and> pos l key prev next m \<and> (\<exists>v. node_at l n v m)) \<and>
      free {} SP m) d B"
  shows "triple (\<lambda>m. (start m \<and> found False (prev, next, key) m \<and> behind next n m) \<and> free {} SP m)
     (bind (spin_lock (Global prev)) (\<lambda>_.
      bind (spin_lock (Global next)) (\<lambda>_.
      bind (spin_lock (Global n)) (\<lambda>_.
      bind (any_removed [prev, next, n]) (\<lambda>gone.
      bind (if gone then Ret True else any_moved [(prev, next), (next, n)]) (\<lambda>conflict.
      if \<not> conflict then
        bind (rcu_assign_next prev n) (\<lambda>_.
        bind (set_removed next) (\<lambda>_.
        bind (rcu_free_node next) (\<lambda>_.
        bind (spin_unlock (Global n)) (\<lambda>_.
        bind (spin_unlock (Global next)) (\<lambda>_.
        bind (spin_unlock (Global prev)) (\<lambda>_. c))))))
      else
        bind (spin_unlock (Global n)) (\<lambda>_.
        bind (spin_unlock (Global next)) (\<lambda>_.
        bind (spin_unlock (Global prev)) (\<lambda>_. d))))))))) B"
    (is "triple ?P _ _")
proof (rule t_drop[of _ "prev \<noteq> next \<and> next \<noteq> n \<and> prev \<noteq> n"])
  fix m assume "?P m"
  then show "prev \<noteq> next \<and> next \<noteq> n \<and> prev \<noteq> n"
    by (auto simp: found_def at_def pos_def behind_def node_at_def)
next
  assume ne: "prev \<noteq> next \<and> next \<noteq> n \<and> prev \<noteq> n"
  let ?F = "\<lambda>m. start m \<and> found False (prev, next, key) m \<and> behind next n m"
  let ?g = "grabbed prot_fg t l"
  let ?unlock = "\<lambda>c. bind (spin_unlock (Global n)) (\<lambda>_. bind (spin_unlock (Global next)) (\<lambda>_.
        bind (spin_unlock (Global prev)) (\<lambda>_. c)))"
  have l1: "triple ?P (spin_lock (Global prev)) (\<lambda>_ m. (?F m \<and> ?g prev m) \<and> free {prev} SP m)"
    by (rule lock_global, intro stab_intros, intro stab_intros) (use found_pub in auto)
  have l2: "triple (\<lambda>m. (?F m \<and> ?g prev m) \<and> free {prev} SP m) (spin_lock (Global next))
      (\<lambda>_ m. ((?F m \<and> ?g prev m) \<and> ?g next m) \<and> free {next, prev} SP m)"
    by (rule lock_global, intro stab_intros, intro stab_intros) (use found_pub ne in auto)
  have l3: "triple (\<lambda>m. ((?F m \<and> ?g prev m) \<and> ?g next m) \<and> free {next, prev} SP m)
      (spin_lock (Global n)) (\<lambda>_. poised3 prev next n SP)"
    by (rule lock_global, intro stab_intros, intro stab_intros)
      (use ne in \<open>auto simp: behind_def node_at_def\<close>)
  have unl: "triple (\<lambda>m. (((A m \<and> ?g prev m) \<and> ?g next m) \<and> ?g n m) \<and> free {n, next, prev} SP m)
      (?unlock e) B"
    if A: "stabJ R fg_ok A" "\<And>Q. stabJ (keep Q) fg_ok A" and e: "triple (\<lambda>m. A m \<and> free {} SP m) e B"
    for A e
  proof (rule t_bind[OF unlock_global])
    have S: "{n, next, prev} - {n} - {next} - {prev} = {}" by auto
    show "triple (\<lambda>m. ((A m \<and> ?g prev m) \<and> ?g next m) \<and> free ({n, next, prev} - {n}) SP m)
       (bind (spin_unlock (Global next)) (\<lambda>_. bind (spin_unlock (Global prev)) (\<lambda>_. e))) B"
      by (rule unlock_two[OF A]) (use ne e S in auto)
  qed (intro stab_intros A, intro stab_intros A, use ne in simp_all)
  have fr: "triple (\<lambda>m. out prev next n SP m \<and> ?g next m) (rcu_free_node next)
      (\<lambda>_ m. out prev next n SP m \<and> ?g next m)"
    unfolding rcu_free_node_def
    by (rule t_kfree_rcu[of _ l], intro stab_intros, intro stab_intros) (simp add: pos_def)
  have c': "triple (\<lambda>m. out prev next n SP m \<and> ?g next m) (?unlock c) B"
    by (rule t_pre[OF unl[OF _ _ c]], intro stab_intros, intro stab_intros) auto
  have ok: "triple (\<lambda>m. poised3 prev next n SP m \<and> validated prev next n m)
      (bind (rcu_assign_next prev n) (\<lambda>_. bind (set_removed next) (\<lambda>_.
       bind (rcu_free_node next) (\<lambda>_. ?unlock c)))) B"
    using ne by (intro t_bind[OF del_commit t_bind[OF mark_spec t_bind[OF fr c']]]) auto
  have d': "triple (\<lambda>m. poised3 prev next n SP m \<and> \<not> alone R) (?unlock d) B"
  proof (rule t_pull)
    assume "\<not> alone R"
    then show "triple (poised3 prev next n SP) (?unlock d) B"
      by (intro t_pre[OF unl[OF _ _ d]] stab_intros) (auto simp: found_def at_def behind_def)
  qed
  show ?thesis
    by (rule t_bind[OF l1 t_bind[OF l2 t_bind[OF l3 del_check]]])
      (use ok d' in \<open>auto split: if_splits\<close>)
qed

lemma del_absent:
  "u \<noteq> key \<Longrightarrow> triple (\<lambda>m. begin_op m \<and> found lk (prev, next, u) m) (Ret 0) del_result"
  by (rule t_ret, intro stab_intros) (use found_known skip_del in \<open>fastforce intro!: exI[of _ False]\<close>)

lemma read_behind:
  "triple (\<lambda>m. begin_op m \<and> found False (prev, next, key) m) (rd next p_next)
    (\<lambda>n m. (start m \<and> found False (prev, next, key) m \<and> behind next n m) \<and> free {} {} m)"
proof (rule t_rd, intro stab_intros, intro stab_intros)
  fix m assume m: "fg_ok m" "begin_op m \<and> found False (prev, next, key) m"
  have w: "wfm m" by (rule fine.J_wfm[OF m(1)])
  have p: "pub m l next" "vl m next = key" using m(2) by (auto simp: found_def at_def know_defs)
  have q: "nxt m next \<noteq> NULL" using wf_tail[OF w p(1)] p(2) key by (simp add: key_ok_def)
  have "behind next (nxt m next) m"
    using wf_next[OF w p(1) q] p(2) m(2) found_linked[OF m(1)]
    by (auto simp: behind_def node_at_def when_alone_def)
  then show "\<exists>n. mem m next = Some n \<and> (start m \<and> found False (prev, next, key) m \<and>
      behind next (p_next n) m) \<and> free {} {} m"
    using m(2) pub_mem[OF p(1)] by auto
qed

lemma fg_remove_spec:
  assumes "may_diverge D \<or> alone R \<and> 0 < f"
  shows "triple begin_op (rcu_list_fg_remove w f l key) del_result"
  using assms
proof (induction f)
  case 0
  then show ?case using t_diverge by simp
next
  case (Suc f)
  have IH: "triple begin_op (rcu_list_fg_remove w f l key) del_result" if "\<not> alone R"
    using Suc that by blast
  have ok: "triple (\<lambda>m. (del_done True m \<and> pos l key prev next m \<and> (\<exists>v. node_at l n v m)) \<and> free {} {} m)
      (Ret 1) del_result" for prev "next" n
    by (rule t_ret, intro stab_intros) (auto intro!: exI[of _ True])
  have retry: "triple (\<lambda>m. (start m \<and> pos l key prev next m \<and> (\<exists>v. node_at l n v m)) \<and> free {} {} m)
      (rcu_list_fg_remove w f l key) del_result" if "\<not> alone R" for prev "next" n
    by (rule t_pre[OF IH[OF that]]) auto
  show ?case
    unfolding rcu_list_fg_remove.simps
  proof (rule t_bind[OF fg_find_pos], rule t_triple, rule t_bind[OF reread_spec], intro stab_intros,
      intro t_pull t_if, goal_cases)
    case (1 _ prev "next" u v)
    then have e: "u = key" by simp
    show ?case unfolding e by (rule t_bind[OF read_behind del_attempt[OF ok retry]])
  qed (use del_absent in auto)
qed

lemma numa_remove_spec:
  assumes "may_diverge D \<or> alone R \<and> 0 < f"
  shows "triple begin_op (rcu_list_numa_remove w f l key) del_result"
  using assms
proof (induction f)
  case 0
  then show ?case using t_diverge by simp
next
  case (Suc f)
  have IH: "triple begin_op (rcu_list_numa_remove w f l key) del_result" if "\<not> alone R"
    using Suc that by blast
  let ?F = "\<lambda>prev next n m. start m \<and> found False (prev, next, key) m \<and> behind next n m"
  let ?N = "\<lambda>n m. \<exists>v. node_at l n v m"
  have unp: "triple (\<lambda>m. (A m \<and> pos l key prev next m \<and> ?N n m) \<and> free {} {n, next, prev} m)
      (bind (pnd_unlock n) (\<lambda>_. bind (pnd_unlock next) (\<lambda>_. bind (pnd_unlock prev) (\<lambda>_. c)))) B"
    if A: "stabJ R fg_ok A" "stabJ (keep {}) fg_ok A" and ne: "n \<noteq> next" "n \<noteq> prev"
      and c: "triple (\<lambda>m. A m \<and> free {} {} m) c B" for A prev "next" n and c :: "int prog" and B
  proof (rule t_bind[OF unlock_pnd], intro stab_intros A, intro stab_intros A)
    show "triple (\<lambda>m. (A m \<and> pos l key prev next m \<and> ?N n m) \<and> free {} ({n, next, prev} - {n}) m)
        (bind (pnd_unlock next) (\<lambda>_. bind (pnd_unlock prev) (\<lambda>_. c))) B"
      by (rule t_pre[OF unlock_pnds[OF A c]]) (use ne in \<open>auto simp: insert_Diff_if\<close>)
  qed (auto simp: node_at_def)
  have ok: "triple (\<lambda>m. (del_done True m \<and> pos l key prev next m \<and> ?N n m) \<and> free {} {n, next, prev} m)
      (bind (pnd_unlock n) (\<lambda>_. bind (pnd_unlock next) (\<lambda>_. bind (pnd_unlock prev) (\<lambda>_. Ret 1)))) del_result"
    if "n \<noteq> next" "n \<noteq> prev" for prev "next" n
    by (rule unp, intro stab_intros, intro stab_intros, use that in simp, use that in simp,
        rule t_ret, intro stab_intros) (auto intro!: exI[of _ True])
  have retry: "triple (\<lambda>m. (start m \<and> pos l key prev next m \<and> ?N n m) \<and> free {} {n, next, prev} m)
      (bind (pnd_unlock n) (\<lambda>_. bind (pnd_unlock next) (\<lambda>_. bind (pnd_unlock prev) (\<lambda>_.
       rcu_list_numa_remove w f l key)))) del_result"
    if "n \<noteq> next" "n \<noteq> prev" "\<not> alone R" for prev "next" n
    by (rule unp, intro stab_intros, intro stab_intros, use that in simp, use that in simp,
        rule IH[OF that(3)])
  have pn: "triple (\<lambda>m. ?F prev next n m \<and> free {} SP m) (pnd_lock q)
      (\<lambda>_ m. ?F prev next n m \<and> free {} (insert q SP) m)"
    if "q \<in> {prev, next, n}" "q \<notin> SP" for prev "next" n q SP
  proof (rule lock_pnd, intro stab_intros, intro stab_intros)
    fix m assume "?F prev next n m"
    then show "pub m l q" using that(1) found_pub by (auto simp: behind_def node_at_def)
  qed (use that in simp)
  have rd: "triple (\<lambda>m. begin_op m \<and> found False (prev, next, key) m) (rd next p_next)
    (\<lambda>n m. (?F prev next n m \<and> free {} {} m) \<and> prev \<noteq> next \<and> n \<noteq> next \<and> n \<noteq> prev)" for prev "next"
    by (rule t_conseq[OF read_behind]) (auto simp: found_def at_def pos_def behind_def node_at_def)
  show ?case
    unfolding rcu_list_numa_remove.simps
  proof (rule t_bind[OF fg_find_pos], rule t_triple, rule t_bind[OF reread_spec], intro stab_intros,
      intro t_pull t_if, goal_cases)
    case (1 _ prev "next" u v)
    then have e: "u = key" by simp
    show ?case unfolding e
    proof (rule t_bind[OF rd], rule t_pull, goal_cases)
      case (1 n)
      show ?case
        by (rule t_bind[OF pn t_bind[OF pn t_bind[OF pn del_attempt[OF ok retry]]]]) (use 1 in auto)
    qed
  qed (use del_absent in auto)
qed

end

end
