(* ===== verification/Client.thy ===== *)
theory Client
  imports Updates
begin

text \<open>
  Many threads using one hash table. The specification of an interface says of each call what its
  return value tells about the change it made and, when no other thread updates its key, that both
  are those of a sequential set. The locale \<open>client\<close> assumes of each call a triple with that
  specification and derives the guarantees of whole systems: every reachable state satisfies the
  invariant, no thread faults, and what a finished thread logged and returned is a trace of the
  specification.
\<close>

record 'c api =
  key_of :: "'c \<Rightarrow> val_t"
  upd_of :: "'c \<Rightarrow> upd"
  reports :: "'c \<Rightarrow> bool \<Rightarrow> int \<Rightarrow> bool"          \<comment> \<open>changed the set, value returned\<close>
  exact :: "'c \<Rightarrow> bool \<Rightarrow> bool \<Rightarrow> int \<Rightarrow> bool"   \<comment> \<open>key in the set, changed it, value returned\<close>

definition bucket_of :: "hash_list_t \<Rightarrow> val_t \<Rightarrow> ptr" where
  "bucket_of T key = buckets T (c_rem key (n_buckets T))"

definition table_ok :: "hash_list_t \<Rightarrow> bool" where
  "table_ok T \<longleftrightarrow> 0 < n_buckets T \<and> n_buckets T \<le> int MAX_BUCKETS"

definition table_is :: "hash_list_t \<Rightarrow> mach \<Rightarrow> bool" where
  "table_is T m \<longleftrightarrow> g_hash_list m = Some T \<and> (\<forall>i. 0 \<le> i \<and> i < n_buckets T \<longrightarrow> is_list (buckets T i) m)"

text \<open>Keys that can be stored: the sentinels are not keys, and a negative key has no bucket.\<close>

definition valid_key :: "val_t \<Rightarrow> bool" where
  "valid_key key \<longleftrightarrow> 0 \<le> key \<and> key < LIST_VAL_MAX"

definition slot :: "hash_list_t \<Rightarrow> val_t \<Rightarrow> ptr \<times> val_t" where
  "slot T key = (bucket_of T key, key)"

definition in_log :: "ptr \<times> val_t \<Rightarrow> (tid \<times> ptr \<times> upd) list \<Rightarrow> bool" where
  "in_log s H \<longleftrightarrow> snd s \<in> replay {} (upds (fst s) H)"

text \<open>The calls \<open>cs\<close> of a thread that return \<open>rs\<close> extend the log \<open>H\<close> to \<open>H'\<close>.\<close>

definition log_after :: "'c api \<Rightarrow> hash_list_t \<Rightarrow> tid \<Rightarrow> 'c \<Rightarrow> bool \<Rightarrow> (tid \<times> ptr \<times> upd) list \<Rightarrow>
    (tid \<times> ptr \<times> upd) list" where
  "log_after A T t c chg H = (if chg then H @ [(t, bucket_of T (key_of A c), upd_of A c)] else H)"

fun trace :: "'c api \<Rightarrow> hash_list_t \<Rightarrow> (ptr \<times> val_t) set \<Rightarrow> tid \<Rightarrow> (tid \<times> ptr \<times> upd) list \<Rightarrow>
    'c list \<Rightarrow> int list \<Rightarrow> (tid \<times> ptr \<times> upd) list \<Rightarrow> bool" where
  "trace A T K t H [] rs H' \<longleftrightarrow> rs = [] \<and> H' = H"
| "trace A T K t H (c # cs) rs H' \<longleftrightarrow> (\<exists>chg. rs \<noteq> [] \<and> reports A c chg (hd rs) \<and>
     (slot T (key_of A c) \<in> K \<longrightarrow> exact A c (in_log (slot T (key_of A c)) H) chg (hd rs)) \<and>
     trace A T K t (log_after A T t c chg H) cs (tl rs) H')"

lemma traceI:
  "reports A c chg r \<and> (slot T (key_of A c) \<in> K \<longrightarrow> exact A c (in_log (slot T (key_of A c)) H) chg r) \<Longrightarrow>
    trace A T K t (log_after A T t c chg H) cs rs H' \<Longrightarrow> trace A T K t H (c # cs) (r # rs) H'"
  by auto

fun calls :: "('c \<Rightarrow> ('s, int) proc) \<Rightarrow> 'c list \<Rightarrow> ('s, int list) proc" where
  "calls f [] = Ret []"
| "calls f (c # cs) = bind (f c) (\<lambda>r. bind (calls f cs) (\<lambda>rs. Ret (r # rs)))"

text \<open>The slots a thread's calls may update.\<close>

definition slots :: "'c api \<Rightarrow> hash_list_t \<Rightarrow> (tid \<Rightarrow> 'c list option) \<Rightarrow> tid \<Rightarrow> (ptr \<times> val_t) set" where
  "slots A T cs t = (case cs t of None \<Rightarrow> {} | Some l \<Rightarrow> slot T ` key_of A ` set l)"

lemma valid_key_ok: "valid_key key \<Longrightarrow> key_ok key"
  by (simp add: valid_key_def key_ok_def LIST_VAL_MIN_def)

lemma bucket_is_list:
  "table_ok T \<Longrightarrow> table_is T m \<Longrightarrow> valid_key key \<Longrightarrow> is_list (bucket_of T key) m"
  using c_rem_nonneg[of key "n_buckets T"]
  by (simp add: table_is_def table_ok_def bucket_of_def valid_key_def)

text \<open>Nobody changes which lists a table has.\<close>

context protocol
begin

lemma table_rely: "J m \<and> table_is T m \<Longrightarrow> rely J K prot t m m' \<Longrightarrow> J m' \<and> table_is T m'"
proof -
  assume m: "J m \<and> table_is T m" and r: "rely J K prot t m m'"
  then have "J m'" "g_hash_list m' = g_hash_list m" "\<forall>l. (lists m' l = None) = (lists m l = None)"
    by (auto simp: rely_def const_eq_def)
  then show "J m' \<and> table_is T m'" using m by (simp add: table_is_def is_list_def)
qed

lemma table_guar: "J m \<and> table_is T m \<Longrightarrow> guar J U prot t m m' \<Longrightarrow> J m' \<and> table_is T m'"
proof -
  assume m: "J m \<and> table_is T m" and g: "guar J U prot t m m'"
  have "rely J (- U) prot (Suc t) m m'" using g by (simp add: guar_def)
  then show "J m' \<and> table_is T m'" by (rule table_rely[OF m])
qed

end

locale client = protocol +
  fixes A :: "'c api" and f :: "'c \<Rightarrow> int prog" and T :: hash_list_t and D :: mode and Ok :: "'c \<Rightarrow> bool"
  assumes call_spec: "Ok c \<Longrightarrow> slot T (key_of A c) \<in> U \<Longrightarrow>
      hoare D (rely J K prot t) (guar J U prot t) t
        (\<lambda>m. J m \<and> table_is T m \<and> log_is (rely J K prot t) K t H m) (f c)
        (\<lambda>r m. J m \<and> (\<exists>chg. reports A c chg r \<and>
           (slot T (key_of A c) \<in> K \<longrightarrow> exact A c (in_log (slot T (key_of A c)) H) chg r) \<and>
           log_is (rely J K prot t) K t (log_after A T t c chg H) m))"
begin

lemma call_table:
  assumes "Ok c" "slot T (key_of A c) \<in> U"
  shows "hoare D (rely J K prot t) (guar J U prot t) t
        (\<lambda>m. J m \<and> table_is T m \<and> log_is (rely J K prot t) K t H m) (f c)
        (\<lambda>r m. \<exists>chg. (J m \<and> table_is T m \<and> log_is (rely J K prot t) K t (log_after A T t c chg H) m) \<and>
           reports A c chg r \<and>
           (slot T (key_of A c) \<in> K \<longrightarrow> exact A c (in_log (slot T (key_of A c)) H) chg r))"
proof -
  let ?F = "\<lambda>m. J m \<and> table_is T m"
  have th: "rg_thread (rely J K prot t) (guar J U prot t)"
    by unfold_locales (auto intro: rely_refl rely_trans guar_refl)
  show ?thesis
    by (rule rg_thread.hoare_conseq[OF th hoare_frame[where F = ?F, OF call_spec[OF assms] table_rely table_guar]])
      auto
qed

lemma calls_spec:
  assumes "\<forall>c \<in> set cs. Ok c \<and> slot T (key_of A c) \<in> U"
  shows "hoare D (rely J K prot t) (guar J U prot t) t
        (\<lambda>m. J m \<and> table_is T m \<and> log_is (rely J K prot t) K t H m) (calls f cs)
        (\<lambda>rs m. \<exists>H'. (J m \<and> table_is T m \<and> log_is (rely J K prot t) K t H' m) \<and>
           trace A T K t H cs rs H')"
  using assms
proof (induction cs arbitrary: H)
  case Nil
  have pt: "protocol_thread prot J t (rely J K prot t) K"
    by (intro_locales, unfold_locales) (auto intro: rely_refl rely_trans)
  have "log_is (rely J K prot t) K t H m'"
    if "J m" "rely J K prot t m m'" "log_is (rely J K prot t) K t H m" for m m'
    using protocol_thread.stabJ_log_is[OF pt, of H] that unfolding stabJ_def rely_def by blast
  then show ?case
    unfolding hoare_def calls.simps wp.simps trace.simps using table_rely by blast
next
  case (Cons c cs)
  let ?R = "rely J K prot t"
  let ?S = "\<lambda>H m. J m \<and> table_is T m \<and> log_is ?R K t H m"
  have th: "rg_thread ?R (guar J U prot t)"
    by unfold_locales (auto intro: rely_refl rely_trans guar_refl)
  have c: "Ok c" "slot T (key_of A c) \<in> U" using Cons.prems by auto
  let ?X = "\<lambda>r chg. reports A c chg r \<and>
      (slot T (key_of A c) \<in> K \<longrightarrow> exact A c (in_log (slot T (key_of A c)) H) chg r)"
  have rest: "hoare D ?R (guar J U prot t) t (\<lambda>m. \<exists>chg. ?S (log_after A T t c chg H) m \<and> ?X r chg)
      (bind (calls f cs) (\<lambda>rs. Ret (r # rs)))
      (\<lambda>rs m. \<exists>H'. ?S H' m \<and> trace A T K t H (c # cs) rs H')" for r
  proof (rule rg_thread.hoare_ex[OF th])
    fix chg
    have IH: "hoare D ?R (guar J U prot t) t (?S (log_after A T t c chg H)) (calls f cs)
        (\<lambda>rs m. \<exists>H'. ?S H' m \<and> trace A T K t (log_after A T t c chg H) cs rs H')"
      by (rule Cons.IH) (use Cons.prems in simp)
    show "hoare D ?R (guar J U prot t) t (\<lambda>m. ?S (log_after A T t c chg H) m \<and> ?X r chg)
      (bind (calls f cs) (\<lambda>rs. Ret (r # rs))) (\<lambda>rs m. \<exists>H'. ?S H' m \<and> trace A T K t H (c # cs) rs H')"
    proof (rule rg_thread.hoare_pull[OF th, of "?X r chg"])
      assume X: "?X r chg"
      show "hoare D ?R (guar J U prot t) t (\<lambda>m. ?S (log_after A T t c chg H) m \<and> ?X r chg)
        (bind (calls f cs) (\<lambda>rs. Ret (r # rs))) (\<lambda>rs m. \<exists>H'. ?S H' m \<and> trace A T K t H (c # cs) rs H')"
        by (rule rg_thread.hoare_conseq[OF th hoare_map[OF IH, of "\<lambda>rs. r # rs"]])
          (use X in \<open>blast intro: traceI\<close>)+
    qed simp
  qed
  show ?case
    unfolding calls.simps by (rule rg_thread.hoare_bind[OF th call_table[OF c] rest])
qed

subsection \<open>Systems\<close>

text \<open>Thread \<open>t\<close> makes the calls \<open>cs t\<close>, one after the other.\<close>

abbreviation pool_of :: "(tid \<Rightarrow> 'c list option) \<Rightarrow> int list pool" where
  "pool_of cs \<equiv> \<lambda>t. map_option (calls f) (cs t)"

abbreviation "sysR cs t \<equiv> rely J (untouched (slots A T cs) t) prot t"
abbreviation "sysG cs t \<equiv> guar J (slots A T cs t) prot t"

lemma sys: "rg_system (sysR cs) (sysG cs)"
proof
  show "s \<noteq> t \<Longrightarrow> sysG cs t m m' \<Longrightarrow> sysR cs s m m'" for s t m m'
    by (rule guar_compat)
qed (auto intro: rely_refl rely_trans guar_refl)

lemma sys_wp:
  assumes "J m" "table_is T m" "\<And>t l. cs t = Some l \<Longrightarrow> \<forall>c \<in> set l. Ok c"
    and "pool_of cs t = Some c"
  shows "wp D (sysR cs t) (sysG cs t) t c
    (\<lambda>rs m'. \<exists>H'. (J m' \<and> table_is T m' \<and> log_is (sysR cs t) (untouched (slots A T cs) t) t H' m') \<and>
       trace A T (untouched (slots A T cs) t) t (hist m) (the (cs t)) rs H') m"
proof -
  obtain l where l: "cs t = Some l" "c = calls f l" using assms(4) by auto
  have "\<forall>c \<in> set l. Ok c \<and> slot T (key_of A c) \<in> slots A T cs t"
    using assms(3)[OF l(1)] l(1) by (simp add: slots_def)
  from calls_spec[OF this, of "untouched (slots A T cs) t" t "hist m"]
  show ?thesis
    using assms(1,2) l by (simp add: hoare_def log_is_def when_alone_def)
qed

abbreviation "sysQ cs m t rs m' \<equiv> \<exists>H'. (J m' \<and> table_is T m' \<and>
    log_is (sysR cs t) (untouched (slots A T cs) t) t H' m') \<and>
    trace A T (untouched (slots A T cs) t) t (hist m) (the (cs t)) rs H'"

lemma sys_safe:
  assumes "J m" "table_is T m" "\<And>t l. cs t = Some l \<Longrightarrow> \<forall>c \<in> set l. Ok c"
    and "sys_reach (pool_of cs, m) (pool', m')"
  shows "J m' \<and> table_is T m'" and "pool' t \<noteq> Some Fault"
    and "\<not> may_diverge D \<Longrightarrow> pool' t \<noteq> Some Diverge"
proof -
  have w: "wp D (sysR cs t) (sysG cs t) t c (sysQ cs m t) m" if "pool_of cs t = Some c" for t c
    by (rule sys_wp) (use assms that in auto)
  have g: "J m' \<and> table_is T m'" if "sysG cs t m m'" "J m \<and> table_is T m" for t m m'
    by (rule table_guar[OF that(2,1)])
  have "J (snd (pool', m')) \<and> table_is T (snd (pool', m'))"
    by (rule rg_system.reach_step_inv[where J = "\<lambda>m. J m \<and> table_is T m", OF sys assms(4) w])
      (use assms(1,2) g in auto)
  then show "J m' \<and> table_is T m'" by simp
  show "pool' t \<noteq> Some Fault" by (rule rg_system.no_fault[OF sys assms(4) w])
  show "\<not> may_diverge D \<Longrightarrow> pool' t \<noteq> Some Diverge"
    by (rule rg_system.no_diverge[OF sys assms(4) w])
qed

lemma sys_never_blocked:
  assumes "J m" "table_is T m" "\<And>t l. cs t = Some l \<Longrightarrow> \<forall>c \<in> set l. Ok c"
    and "sys_reach (pool_of cs, m) (pool', m')" "\<not> may_block D" "pool' t = Some (Act b u n)"
  shows "b t m'"
proof -
  have w: "wp D (sysR cs t) (sysG cs t) t c (sysQ cs m t) m" if "pool_of cs t = Some c" for t c
    by (rule sys_wp) (use assms that in auto)
  show ?thesis by (rule rg_system.never_blocked[OF sys assms(4) w assms(5,6)])
qed

lemma sys_result:
  assumes "J m" "table_is T m" "\<And>t l. cs t = Some l \<Longrightarrow> \<forall>c \<in> set l. Ok c"
    and "sys_reach (pool_of cs, m) (pool', m')" "pool' t = Some (Ret rs)"
  shows "\<exists>H. trace A T (untouched (slots A T cs) t) t (hist m) (the (cs t)) rs H \<and>
    mine t (hist m') = mine t H \<and>
    touch (untouched (slots A T cs) t) (hist m') = touch (untouched (slots A T cs) t) H"
proof -
  have w: "wp D (sysR cs t) (sysG cs t) t c (sysQ cs m t) m" if "pool_of cs t = Some c" for t c
    by (rule sys_wp) (use assms that in auto)
  have "sysQ cs m t rs m'" by (rule rg_system.finished[OF sys assms(4) w assms(5)])
  then show ?thesis unfolding log_is_def by blast
qed

end

end
