(* ===== verification/RcuTable.thy ===== *)
theory RcuTable
  imports RcuFine Client
begin

text \<open>
  The RCU hash table as its users see it: the calls of rcu-hash-list.c on the global table with their
  specification, and the interpretations of the operation locales, once for a thread among others and
  once for a thread that runs alone.
\<close>

datatype rcu_op = Contains | Add | TryAdd | FgAdd | NumaAdd | Remove | TryRemove | FgRemove | NumaRemove

type_synonym rcu_call = "rcu_op \<times> val_t"

text \<open>Walks never need more than \<open>2 ^ 32\<close> iterations.\<close>

definition WALK :: nat where
  "WALK = 2 ^ 32"

fun rcu_hash_call :: "nat \<Rightarrow> rcu_call \<Rightarrow> int prog" where
  "rcu_hash_call f (Contains, key) = rcu_hash_list_contains WALK key"
| "rcu_hash_call f (Add, key) = rcu_hash_list_add WALK key"
| "rcu_hash_call f (TryAdd, key) = rcu_hash_list_try_add WALK key"
| "rcu_hash_call f (FgAdd, key) = rcu_hash_list_fg_add WALK f key"
| "rcu_hash_call f (NumaAdd, key) = rcu_hash_list_numa_add WALK f key"
| "rcu_hash_call f (Remove, key) = rcu_hash_list_remove WALK key"
| "rcu_hash_call f (TryRemove, key) = rcu_hash_list_try_remove WALK key"
| "rcu_hash_call f (FgRemove, key) = rcu_hash_list_fg_remove WALK f key"
| "rcu_hash_call f (NumaRemove, key) = rcu_hash_list_numa_remove WALK f key"

definition adding :: "rcu_op set" where
  "adding = {Add, TryAdd, FgAdd, NumaAdd}"

definition rcu_upd :: "rcu_call \<Rightarrow> upd" where
  "rcu_upd c = (if fst c \<in> adding then Ins (snd c) else Del (snd c))"

text \<open>What the returned value says about the change: nothing for the versions with one lock per
  list, which return 0 unless a try-lock failed; everything for the fine-grained ones.\<close>

fun rcu_reports :: "rcu_call \<Rightarrow> bool \<Rightarrow> int \<Rightarrow> bool" where
  "rcu_reports (Contains, _) chg r \<longleftrightarrow> \<not> chg \<and> r \<in> {0, - ENOENT}"
| "rcu_reports (Add, _) chg r \<longleftrightarrow> r = 0"
| "rcu_reports (Remove, _) chg r \<longleftrightarrow> r = 0"
| "rcu_reports (TryAdd, _) chg r \<longleftrightarrow> r = 0 \<or> (r = 2 \<and> \<not> chg)"
| "rcu_reports (TryRemove, _) chg r \<longleftrightarrow> r = 0 \<or> (r = 2 \<and> \<not> chg)"
| "rcu_reports _ chg r \<longleftrightarrow> r = of_bool chg"

text \<open>What a sequential set does, \<open>pre\<close> being whether the key is in it. A try version that fails
  to get its lock does nothing.\<close>

fun rcu_exact :: "rcu_call \<Rightarrow> bool \<Rightarrow> bool \<Rightarrow> int \<Rightarrow> bool" where
  "rcu_exact (Contains, _) pre chg r \<longleftrightarrow> (r = 0) = pre"
| "rcu_exact (TryAdd, _) pre chg r \<longleftrightarrow> r = 2 \<or> chg = (\<not> pre)"
| "rcu_exact (TryRemove, _) pre chg r \<longleftrightarrow> r = 2 \<or> chg = pre"
| "rcu_exact (oper, _) pre chg r \<longleftrightarrow> chg = (if oper \<in> adding then \<not> pre else pre)"

definition rcu_api :: "rcu_call api" where
  "rcu_api = \<lparr>key_of = snd, upd_of = rcu_upd, reports = rcu_reports, exact = rcu_exact\<rparr>"

text \<open>The two families of calls: each maintains its own locking protocol, and lookups go with both.\<close>

definition coarse_call :: "rcu_call \<Rightarrow> bool" where
  "coarse_call c \<longleftrightarrow> fst c \<in> {Contains, Add, TryAdd, Remove, TryRemove} \<and> valid_key (snd c)"

definition fine_call :: "rcu_call \<Rightarrow> bool" where
  "fine_call c \<longleftrightarrow> fst c \<in> {Contains, FgAdd, NumaAdd, FgRemove, NumaRemove} \<and> valid_key (snd c)"

text \<open>A system of threads: thread \<open>t\<close> makes the calls \<open>cs t\<close>, if any, one after the other.\<close>

definition rcu_pool :: "nat \<Rightarrow> (tid \<Rightarrow> rcu_call list option) \<Rightarrow> int list pool" where
  "rcu_pool f cs = (\<lambda>t. map_option (calls (rcu_hash_call f)) (cs t))"

text \<open>The keys of a table that no other thread than \<open>t\<close> may update.\<close>

definition own_keys :: "hash_list_t \<Rightarrow> (tid \<Rightarrow> rcu_call list option) \<Rightarrow> tid \<Rightarrow> (ptr \<times> val_t) set" where
  "own_keys T cs t = untouched (slots rcu_api T cs) t"

subsection \<open>Calls on the table\<close>

context list_op
begin

lemma stabJ_table_is [stab_intros]: "stabJ R J (table_is T)"
proof -
  have "table_is T = (\<lambda>m. consts_are g_hash_list (Some T) m \<and>
      (\<forall>i \<in> {i. 0 \<le> i \<and> i < n_buckets T}. is_list (buckets T i) m))"
    by (auto simp: table_is_def consts_are_def fun_eq_iff)
  then show ?thesis by (simp only:) (intro stab_intros)
qed

text \<open>A call on the table is the list operation on the list of its key.\<close>

lemma t_hash_call:
  assumes T: "table_ok T" "valid_key key" "l = bucket_of T key"
    and kn: "kn = ((l, key) \<in> K)" and b: "b = in_log (l, key) H"
    and E: "stabJ R J E" and op: "triple (\<lambda>m. start m \<and> E m) (opr l key) B"
  shows "triple (\<lambda>m. (table_is T m \<and> log_is R K t H m) \<and> E m) (with_bucket opr key) B"
proof (rule t_with_bucket[where T = T])
  show "stabJ R J (\<lambda>m. (table_is T m \<and> log_is R K t H m) \<and> E m)" by (intro stab_intros E)
  show "triple (\<lambda>m. (table_is T m \<and> log_is R K t H m) \<and> E m) (opr l key) B"
  proof (rule t_pre[OF op])
    fix m assume m: "J m" "(table_is T m \<and> log_is R K t H m) \<and> E m"
    then have "is_list l m" using bucket_is_list[OF T(1) _ T(2)] T(3) by blast
    then show "start m \<and> E m"
      using m log_decides[OF m(1)] by (auto simp: started_def kn b in_log_def)
  qed
qed (use T in \<open>auto simp: table_is_def table_ok_def bucket_of_def valid_key_def\<close>)

lemma contains_any:
  assumes A: "stabJ R J A" "\<And>m f. A (m\<lparr>rcu_nest := f\<rparr>) = A m"
  shows "triple (\<lambda>m. start m \<and> A m) (rcu_list_contains w l key)
    (\<lambda>r m. (start m \<and> A m) \<and> (r = 0 \<or> r = 1) \<and> (kn \<longrightarrow> (r = 1) = b))"
proof (rule t_conseq)
  show "triple (\<lambda>m. \<exists>c. (start m \<and> A m) \<and> nest_is t c m) (rcu_list_contains w l key)
    (\<lambda>r m. (start m \<and> A m) \<and> (r = 0 \<or> r = 1) \<and> (kn \<longrightarrow> (r = 1) = b))"
    by (rule t_ex, rule t_conseq[OF contains_spec[OF A]]) auto
qed (auto simp: nest_is_def)

lemma t_map:
  assumes "triple A c B" "\<And>a m. J m \<Longrightarrow> B a m \<Longrightarrow> C (g a) m"
  shows "triple A (bind c (\<lambda>a. Ret (g a))) C"
proof -
  from hoare_map[OF assms(1)[unfolded triple_def], of g] show ?thesis
    unfolding triple_def by (rule th.hoare_conseq) (use assms(2) in auto)
qed

definition meets :: "rcu_op \<Rightarrow> int \<Rightarrow> mach \<Rightarrow> bool" where
  "meets oper r m \<longleftrightarrow> (\<exists>chg. rcu_reports (oper, key) chg r \<and>
     ((l, key) \<in> K \<longrightarrow> rcu_exact (oper, key) (in_log (l, key) H) chg r) \<and> (alone R \<longrightarrow> r \<noteq> 2) \<and>
     log_is R K t (if chg then H @ [(t, l, rcu_upd (oper, key))] else H) m)"

lemma meets_add:
  assumes kn: "kn = ((l, key) \<in> K)" and b: "b = in_log (l, key) H" and oper: "oper \<in> adding"
    and r: "rcu_reports (oper, key) ins r" "r \<noteq> 2" and d: "add_done ins m"
  shows "meets oper r m"
proof -
  have x: "kn \<longrightarrow> ins = (\<not> b)" and lg: "log_is R K t (if ins then H @ [(t, l, Ins key)] else H) m"
    using d unfolding added_def by blast+
  have u: "rcu_upd (oper, key) = Ins key" using oper by (auto simp: rcu_upd_def adding_def)
  have ex: "rcu_exact (oper, key) (in_log (l, key) H) ins r" if "(l, key) \<in> K"
  proof -
    have "ins = (\<not> in_log (l, key) H)" using x that unfolding kn b by blast
    then show ?thesis using oper by (cases oper) (simp_all add: adding_def)
  qed
  show ?thesis unfolding meets_def u using r ex lg by blast
qed

lemma meets_del:
  assumes kn: "kn = ((l, key) \<in> K)" and b: "b = in_log (l, key) H"
    and oper: "oper \<in> {Remove, TryRemove, FgRemove, NumaRemove}"
    and r: "rcu_reports (oper, key) del r" "r \<noteq> 2" and d: "del_done del m"
  shows "meets oper r m"
proof -
  have x: "kn \<longrightarrow> del = (b)" and lg: "log_is R K t (if del then H @ [(t, l, Del key)] else H) m"
    using d unfolding deleted_def by blast+
  have u: "rcu_upd (oper, key) = Del key" using oper by (auto simp: rcu_upd_def adding_def)
  have ex: "rcu_exact (oper, key) (in_log (l, key) H) del r" if "(l, key) \<in> K"
  proof -
    have "del = (in_log (l, key) H)" using x that unfolding kn b by blast
    then show ?thesis using oper by (cases oper) (simp_all add: adding_def)
  qed
  show ?thesis unfolding meets_def u using r ex lg by blast
qed

lemma meets_idle:
  assumes "oper = TryAdd \<or> oper = TryRemove" "start m" "\<not> alone R"
  shows "meets oper 2 m"
proof -
  have "rcu_reports (oper, key) False 2" "rcu_exact (oper, key) (in_log (l, key) H) False 2"
    using assms(1) by auto
  then show ?thesis
    unfolding meets_def using assms(2,3) by (intro exI[of _ False]) (simp add: started_def)
qed

text \<open>The lookup on the table, with its return values 0 and \<open>-ENOENT\<close>.\<close>

lemma hash_contains:
  assumes T: "table_ok T" "valid_key key" "l = bucket_of T key"
    and kn: "kn = ((l, key) \<in> K)" and b: "b = in_log (l, key) H"
    and A: "stabJ R J A" "\<And>m f. A (m\<lparr>rcu_nest := f\<rparr>) = A m"
  shows "triple (\<lambda>m. (table_is T m \<and> log_is R K t H m) \<and> A m) (rcu_hash_list_contains w key)
    (\<lambda>r m. meets Contains r m \<and> A m)"
  unfolding rcu_hash_list_contains_def
proof (rule t_map[OF t_hash_call[where opr = "rcu_list_contains w", OF T kn b A(1) contains_any[OF A]]])
  fix r :: int and m
  assume m: "(start m \<and> A m) \<and> (r = 0 \<or> r = 1) \<and> (kn \<longrightarrow> (r = 1) = b)"
  then have "rcu_reports (Contains, key) False (if r \<noteq> 0 then 0 else - ENOENT)"
    "(l, key) \<in> K \<longrightarrow> rcu_exact (Contains, key) (in_log (l, key) H) False (if r \<noteq> 0 then 0 else - ENOENT)"
    "(if r \<noteq> 0 then 0 else - ENOENT) \<noteq> 2" "log_is R K t H m"
    by (auto simp: kn b ENOENT_def started_def)
  then show "meets Contains (if r \<noteq> 0 then 0 else - ENOENT) m \<and> A m"
    using m unfolding meets_def by (intro conjI exI[of _ False]) auto
qed

end

context coarse_op
begin

lemma hash_call_spec:
  assumes c: "coarse_call (oper, key)" and T: "table_ok T" "l = bucket_of T key" and w: "w = WALK"
    and kn: "kn = ((l, key) \<in> K)" and b: "b = in_log (l, key) H"
  shows "triple (\<lambda>m. (table_is T m \<and> log_is R K t H m) \<and> when_alone R (unlocked {}) m)
    (rcu_hash_call f (oper, key)) (\<lambda>r m. meets oper r m \<and> when_alone R (unlocked {}) m)"
proof -
  have k: "valid_key key" using c by (simp add: coarse_call_def)
  have st: "stabJ R inv (when_alone R (unlocked {}))" by (intro stab_intros)
  note call = t_hash_call[OF T(1) k T(2) kn b st]
  have add: "meets oper r m \<and> when_alone R (unlocked {}) m"
    if "add_result r m" "oper = Add \<or> oper = TryAdd" for oper r m
    using that meets_add[OF kn b, of oper _ r m] by (auto simp: adding_def)
  have del: "meets oper r m \<and> when_alone R (unlocked {}) m"
    if "del_result r m" "oper = Remove \<or> oper = TryRemove" for oper r m
    using that meets_del[OF kn b, of oper _ r m] by auto
  consider "oper = Contains" | "oper = Add" | "oper = TryAdd" | "oper = Remove" | "oper = TryRemove"
    using c by (auto simp: coarse_call_def)
  then show ?thesis
  proof cases
    case 1
    show ?thesis
      unfolding 1 rcu_hash_call.simps w[symmetric]
      by (rule hash_contains[OF T(1) k T(2) kn b st]) (simp add: when_alone_def unlocked_def)
  next
    case 2
    show ?thesis
      unfolding 2 rcu_hash_call.simps rcu_hash_list_add_def w[symmetric]
      by (rule t_conseq[OF call[of "rcu_list_add w", OF rcu_list_add_spec]])
        (use add in blast)+
  next
    case 3
    show ?thesis
      unfolding 3 rcu_hash_call.simps rcu_hash_list_try_add_def w[symmetric]
      by (rule t_conseq[OF call[of "rcu_list_try_add w", OF rcu_list_try_add_spec]])
        (use add meets_idle in blast)+
  next
    case 4
    show ?thesis
      unfolding 4 rcu_hash_call.simps rcu_hash_list_remove_def w[symmetric]
      by (rule t_conseq[OF call[of "rcu_list_remove w", OF rcu_list_remove_spec]])
        (use del in blast)+
  next
    case 5
    show ?thesis
      unfolding 5 rcu_hash_call.simps rcu_hash_list_try_remove_def w[symmetric]
      by (rule t_conseq[OF call[of "rcu_list_try_remove w", OF rcu_list_try_remove_spec]])
        (use del meets_idle in blast)+
  qed
qed

end

context fine_op
begin

lemma quiet_nest [simp]: "when_alone R (quiet t SG SP) (m\<lparr>rcu_nest := g\<rparr>) = free SG SP m"
  by (simp add: when_alone_def quiet_def pub_def lock_get.simps)

lemma hash_call_spec:
  assumes c: "fine_call (oper, key)" and T: "table_ok T" "l = bucket_of T key" and w: "w = WALK"
    and kn: "kn = ((l, key) \<in> K)" and b: "b = in_log (l, key) H"
    and f: "may_diverge D \<or> alone R \<and> 0 < f"
  shows "triple (\<lambda>m. (table_is T m \<and> log_is R K t H m) \<and> free {} {} m)
    (rcu_hash_call f (oper, key)) (\<lambda>r m. meets oper r m \<and> free {} {} m)"
proof -
  have k: "valid_key key" using c by (simp add: fine_call_def)
  have st: "stabJ R fg_ok (free {} {})" by (intro stab_intros)
  note call = t_hash_call[OF T(1) k T(2) kn b st]
  have add: "meets oper r m \<and> free {} {} m"
    if "add_result r m" "oper = FgAdd \<or> oper = NumaAdd" for oper r m
    using that meets_add[OF kn b, of oper _ r m] by (auto simp: adding_def)
  have del: "meets oper r m \<and> free {} {} m"
    if "del_result r m" "oper = FgRemove \<or> oper = NumaRemove" for oper r m
    using that meets_del[OF kn b, of oper _ r m] by auto
  consider "oper = Contains" | "oper = FgAdd" | "oper = NumaAdd" | "oper = FgRemove" | "oper = NumaRemove"
    using c by (auto simp: fine_call_def)
  then show ?thesis
  proof cases
    case 1
    show ?thesis
      unfolding 1 rcu_hash_call.simps w[symmetric]
      by (rule hash_contains[OF T(1) k T(2) kn b st]) simp
  next
    case 2
    show ?thesis
      unfolding 2 rcu_hash_call.simps rcu_hash_list_fg_add_def w[symmetric]
      by (rule t_conseq[OF call[of "rcu_list_fg_add w f", OF fg_add_spec[OF f]]]) (use add in blast)+
  next
    case 3
    show ?thesis
      unfolding 3 rcu_hash_call.simps rcu_hash_list_numa_add_def w[symmetric]
      by (rule t_conseq[OF call[of "rcu_list_numa_add w f", OF numa_add_spec[OF f]]]) (use add in blast)+
  next
    case 4
    show ?thesis
      unfolding 4 rcu_hash_call.simps rcu_hash_list_fg_remove_def w[symmetric]
      by (rule t_conseq[OF call[of "rcu_list_fg_remove w f", OF fg_remove_spec[OF f]]]) (use del in blast)+
  next
    case 5
    show ?thesis
      unfolding 5 rcu_hash_call.simps rcu_hash_list_numa_remove_def w[symmetric]
      by (rule t_conseq[OF call[of "rcu_list_numa_remove w f", OF numa_remove_spec[OF f]]]) (use del in blast)+
  qed
qed

end

text \<open>The rely of a protocol never forbids everything.\<close>

lemma rely_not_alone:
  assumes "\<And>m. J m \<Longrightarrow> inv m"
  shows "\<not> alone (rely J K prot t)"
proof
  assume a: "alone (rely J K prot t)"
  define m :: mach where "m = undefined\<lparr>mem := \<lambda>p. Some undefined\<rparr>"
  have "\<not> inv m" by (simp add: m_def inv_def wfm_def)
  then have "rely J K prot t m (m\<lparr>kcnt := kcnt m + 1\<rparr>)" using assms by (auto simp: rely_def)
  then have "m\<lparr>kcnt := kcnt m + 1\<rparr> = m" using a by (simp add: alone_def)
  then have "kcnt (m\<lparr>kcnt := kcnt m + 1\<rparr>) = kcnt m" by simp
  then show False by simp
qed

subsection \<open>A thread among others\<close>

text \<open>The locales ask for a storable key; \<open>a_key\<close> makes one of every number.\<close>

definition a_key :: "val_t \<Rightarrow> val_t" where
  "a_key key = (if key_ok key then key else 0)"

lemma a_key_ok: "key_ok (a_key key)"
  by (simp add: a_key_def key_ok_def LIST_VAL_MIN_def LIST_VAL_MAX_def)

text \<open>With one lock per list no operation runs out of fuel; the retries of the fine-grained
  ones may.\<close>

definition coarse_mode :: mode where
  "coarse_mode = \<lparr>may_diverge = False, may_block = True\<rparr>"

definition fine_mode :: mode where
  "fine_mode = \<lparr>may_diverge = True, may_block = True\<rparr>"

interpretation coarse_among: coarse_op t "rely inv K prot_rcu t" K "insert (l, a_key key) U" coarse_mode l
  "a_key key" "(l, a_key key) \<in> K" "in_log (l, a_key key) H" H WALK for t K U l key H
  by (intro_locales, unfold_locales)
    (auto intro: rely_refl rely_trans a_key_ok simp: coarse_mode_def WALK_def)

interpretation fine_among: fine_op t "rely fg_ok K prot_fg t" K "insert (l, a_key key) U" fine_mode l
  "a_key key" "(l, a_key key) \<in> K" "in_log (l, a_key key) H" H WALK for t K U l key H
  by (intro_locales, unfold_locales)
    (auto intro: rely_refl rely_trans a_key_ok simp: fine_mode_def WALK_def)

subsection \<open>The calls meet their specification\<close>

lemma api_simps:
  "reports rcu_api = rcu_reports" "exact rcu_api = rcu_exact" "key_of rcu_api (oper, key) = key"
  "log_after rcu_api T t (oper, key) chg H =
    (if chg then H @ [(t, bucket_of T key, rcu_upd (oper, key))] else H)"
  by (simp_all add: rcu_api_def log_after_def)

lemma coarse_call_spec:
  fixes t :: tid and K U H T
  defines "R \<equiv> rely inv K prot_rcu t"
  assumes c: "coarse_call c \<and> table_ok T" and U: "slot T (key_of rcu_api c) \<in> U"
  shows "hoare coarse_mode R (guar inv U prot_rcu t) t
    (\<lambda>m. inv m \<and> table_is T m \<and> log_is R K t H m) (rcu_hash_call f c)
    (\<lambda>r m. inv m \<and> (\<exists>chg. reports rcu_api c chg r \<and>
       (slot T (key_of rcu_api c) \<in> K \<longrightarrow> exact rcu_api c (in_log (slot T (key_of rcu_api c)) H) chg r) \<and>
       log_is R K t (log_after rcu_api T t c chg H) m))"
proof -
  obtain oper key where ok: "c = (oper, key)" by (cases c)
  define l where "l = bucket_of T key"
  have k: "a_key key = key" "slot T key = (l, key)" "insert (l, key) U = U"
    using c U valid_key_ok by (auto simp: coarse_call_def ok a_key_def slot_def l_def rcu_api_def)
  have cc: "coarse_call (oper, a_key key)" "l = bucket_of T (a_key key)"
    using c by (simp_all add: ok k l_def)
  have na: "\<not> alone R" unfolding R_def by (rule rely_not_alone)
  have T: "table_ok T" using c by simp
  note sp = coarse_among.hash_call_spec[where t = t and K = K and U = U and H = H and l = l and
      key = key and f = f, OF cc(1) T cc(2) refl refl refl,
      unfolded coarse_among.triple_def coarse_among.meets_def, unfolded k, folded R_def]
  show ?thesis
    unfolding ok api_simps k(2) l_def[symmetric]
    by (rule coarse_among.th.hoare_conseq[where t = t and K = K and U = U and l = l and key = key,
          unfolded k, folded R_def, OF sp])
      (use na in \<open>unfold when_alone_def, blast+\<close>)
qed

lemma fine_call_spec:
  fixes t :: tid and K U H T
  defines "R \<equiv> rely fg_ok K prot_fg t"
  assumes c: "fine_call c \<and> table_ok T" and U: "slot T (key_of rcu_api c) \<in> U"
  shows "hoare fine_mode R (guar fg_ok U prot_fg t) t
    (\<lambda>m. fg_ok m \<and> table_is T m \<and> log_is R K t H m) (rcu_hash_call f c)
    (\<lambda>r m. fg_ok m \<and> (\<exists>chg. reports rcu_api c chg r \<and>
       (slot T (key_of rcu_api c) \<in> K \<longrightarrow> exact rcu_api c (in_log (slot T (key_of rcu_api c)) H) chg r) \<and>
       log_is R K t (log_after rcu_api T t c chg H) m))"
proof -
  obtain oper key where ok: "c = (oper, key)" by (cases c)
  define l where "l = bucket_of T key"
  have k: "a_key key = key" "slot T key = (l, key)" "insert (l, key) U = U"
    using c U valid_key_ok by (auto simp: fine_call_def ok a_key_def slot_def l_def rcu_api_def)
  have cc: "fine_call (oper, a_key key)" "l = bucket_of T (a_key key)"
    using c by (simp_all add: ok k l_def)
  have na: "\<not> alone R" unfolding R_def by (rule rely_not_alone) (rule fg_inv)
  have T: "table_ok T" using c by simp
  have md: "may_diverge fine_mode \<or> alone R \<and> 0 < f" by (simp add: fine_mode_def)
  note sp = fine_among.hash_call_spec[where t = t and K = K and U = U and H = H and l = l and
      key = key and f = f, OF cc(1) T cc(2) refl refl refl md[unfolded R_def],
      unfolded fine_among.triple_def fine_among.meets_def, unfolded k, folded R_def]
  show ?thesis
    unfolding ok api_simps k(2) l_def[symmetric]
    by (rule fine_among.th.hoare_conseq[where t = t and K = K and U = U and l = l and key = key,
          unfolded k, folded R_def, OF sp])
      (use na in \<open>unfold when_alone_def, blast+\<close>)
qed

interpretation coarse_client: client prot_rcu inv rcu_api "rcu_hash_call f" T coarse_mode
  "\<lambda>c. coarse_call c \<and> table_ok T" for f T
  by (intro_locales, unfold_locales) (rule coarse_call_spec)

interpretation fine_client: client prot_fg fg_ok rcu_api "rcu_hash_call f" T fine_mode
  "\<lambda>c. fine_call c \<and> table_ok T" for f T
  by (intro_locales, unfold_locales) (rule fine_call_spec)

interpretation coarse_system: rg_system "coarse_client.sysR T cs" "coarse_client.sysG T cs" for T cs
  by (rule coarse_client.sys)

interpretation fine_system: rg_system "fine_client.sysR T cs" "fine_client.sysG T cs" for T cs
  by (rule fine_client.sys)

end
