(* ===== verification/RcuAlone.thy ===== *)
theory RcuAlone
  imports RcuTable
begin

text \<open>
  A thread that runs alone: no call blocks, faults or runs out of fuel, and each is the operation
  of a sequential set on the content of the table. The locales of the operations are interpreted
  with a rely that allows the other threads nothing.
\<close>

definition only_me :: mrel where
  "only_me m m' \<longleftrightarrow> m' = m"

lemma only_me_alone: "alone only_me"
  by (simp add: alone_def only_me_def)

definition alone_mode :: mode where
  "alone_mode = \<lparr>may_diverge = False, may_block = False\<rparr>"

interpretation coarse_alone: coarse_op t only_me UNIV UNIV alone_mode l "a_key key"
  "(l, a_key key) \<in> UNIV" "in_log (l, a_key key) H" H WALK for t l key H
  by (intro_locales, unfold_locales)
    (auto intro: rely_refl a_key_ok only_me_alone simp: WALK_def only_me_def)

interpretation fine_alone: fine_op t only_me UNIV UNIV alone_mode l "a_key key"
  "(l, a_key key) \<in> UNIV" "in_log (l, a_key key) H" H WALK for t l key H
  by (intro_locales, unfold_locales)
    (auto intro: rely_refl a_key_ok only_me_alone simp: WALK_def only_me_def)

subsection \<open>The table as a set\<close>

definition table_set :: "hash_list_t \<Rightarrow> mach \<Rightarrow> val_t set" where
  "table_set T m = {k. valid_key k \<and> k \<in> contents m (bucket_of T k)}"

text \<open>The operations of a set, with the values the calls return.\<close>

fun set_spec :: "rcu_call \<Rightarrow> val_t set \<Rightarrow> int \<times> val_t set" where
  "set_spec (Contains, k) S = (if k \<in> S then 0 else - ENOENT, S)"
| "set_spec (Add, k) S = (0, insert k S)"
| "set_spec (TryAdd, k) S = (0, insert k S)"
| "set_spec (FgAdd, k) S = (of_bool (k \<notin> S), insert k S)"
| "set_spec (NumaAdd, k) S = (of_bool (k \<notin> S), insert k S)"
| "set_spec (Remove, k) S = (0, S - {k})"
| "set_spec (TryRemove, k) S = (0, S - {k})"
| "set_spec (FgRemove, k) S = (of_bool (k \<in> S), S - {k})"
| "set_spec (NumaRemove, k) S = (of_bool (k \<in> S), S - {k})"

lemma in_log_contents:
  assumes "inv m" "table_ok T" "table_is T m" "valid_key k"
  shows "in_log (slot T k) (hist m) \<longleftrightarrow> k \<in> table_set T m"
  using assms bucket_is_list[OF assms(2,3,4)]
  by (simp add: in_log_def slot_def table_set_def inv_def hist_ok_def is_list_def)

lemma table_set_log:
  assumes i: "inv m" "inv m'" and T: "table_ok T" "table_is T m" "table_is T m'"
    and h: "hist m' = (if chg then hist m @ [(t, bucket_of T key, u)] else hist m)"
    and u: "u = Ins key \<or> u = Del key" and k: "valid_key key"
  shows "table_set T m' = (if chg then upd_apply (table_set T m) u else table_set T m)"
proof -
  have "k' \<in> table_set T m' \<longleftrightarrow> k' \<in> (if chg then upd_apply (table_set T m) u else table_set T m)"
    if "valid_key k'" for k'
    using in_log_contents[OF i(1) T(1,2) that] in_log_contents[OF i(2) T(1,3) that] h u
    by (cases u) (auto simp: in_log_def slot_def upds_snoc replay_snoc split: if_splits)
  moreover have "valid_key k'" if "k' \<in> table_set T m' \<or> k' \<in> table_set T m" for k'
    using that by (auto simp: table_set_def)
  ultimately show ?thesis using u k by (cases chg) auto
qed

lemma exact_set_spec:
  assumes "rcu_reports c chg r" "rcu_exact c (snd c \<in> S) chg r" "r \<noteq> 2"
  shows "set_spec c S = (r, if chg then upd_apply S (rcu_upd c) else S)"
  using assms by (cases "(c, S)" rule: set_spec.cases) (auto simp: rcu_upd_def adding_def)

subsection \<open>Single calls\<close>

text \<open>The table is at rest: the invariant of the family holds and all its locks are free.\<close>

definition coarse_idle :: "hash_list_t \<Rightarrow> mach \<Rightarrow> bool" where
  "coarse_idle T m \<longleftrightarrow> inv m \<and> table_is T m \<and> unlocked {} m"

definition fine_idle :: "tid \<Rightarrow> hash_list_t \<Rightarrow> mach \<Rightarrow> bool" where
  "fine_idle t T m \<longleftrightarrow> fg_ok m \<and> table_is T m \<and> quiet t {} {} m"

text \<open>What a call of either family does, read off its triple.\<close>

definition outcome :: "hash_list_t \<Rightarrow> tid \<Rightarrow> rcu_call \<Rightarrow> (tid \<times> ptr \<times> upd) list \<Rightarrow> int \<Rightarrow> mach \<Rightarrow> bool" where
  "outcome T t c H r m \<longleftrightarrow> (\<exists>chg. rcu_reports c chg r \<and> rcu_exact c (in_log (slot T (snd c)) H) chg r \<and> r \<noteq> 2 \<and>
     hist m = (if chg then H @ [(t, bucket_of T (snd c), rcu_upd c)] else H))"

lemma outcome_set:
  assumes "inv m" "inv m'" "table_ok T" "table_is T m" "table_is T m'" "valid_key (snd c)"
    and "outcome T t c (hist m) r m'"
  shows "(r, table_set T m') = set_spec c (table_set T m)"
proof -
  obtain chg where c: "rcu_reports c chg r" "rcu_exact c (in_log (slot T (snd c)) (hist m)) chg r" "r \<noteq> 2"
    and h: "hist m' = (if chg then hist m @ [(t, bucket_of T (snd c), rcu_upd c)] else hist m)"
    using assms(7) by (auto simp: outcome_def)
  have "table_set T m' = (if chg then upd_apply (table_set T m) (rcu_upd c) else table_set T m)"
    by (rule table_set_log[OF assms(1-5) h _ assms(6)]) (simp add: rcu_upd_def)
  moreover have "in_log (slot T (snd c)) (hist m) = (snd c \<in> table_set T m)"
    by (rule in_log_contents[OF assms(1,3,4,6)])
  ultimately show ?thesis using exact_set_spec[OF c(1) _ c(3)] c(2) by simp
qed

lemma alone_wp_run:
  assumes "hoare alone_mode only_me G t P c Q" "P m"
  shows "\<exists>r m'. run t c m = Returned r m' \<and> Q r m'"
proof -
  have "wp alone_mode only_me G t c Q m" using assms by (simp add: hoare_def)
  from wp_run[OF this] show ?thesis
    by (auto simp: only_me_def alone_mode_def split: result.splits)
qed

lemma log_only_me: "log_is only_me K t H m \<longleftrightarrow> hist m = H"
  using only_me_alone by (auto simp: log_is_def when_alone_def)

lemma when_only_me: "when_alone only_me A m = A m"
  using only_me_alone by (simp add: when_alone_def)

text \<open>A triple of a thread that runs alone, for a call from a table at rest.\<close>

lemma alone_table_run:
  assumes pr: "protocol prot J"
    and h: "hoare alone_mode only_me (guar J UNIV prot t) t P c Q" "P m" and T: "J m" "table_is T m"
  shows "\<exists>r m'. run t c m = Returned r m' \<and> Q r m' \<and> J m' \<and> table_is T m'"
proof -
  let ?F = "\<lambda>m. J m \<and> table_is T m"
  have "hoare alone_mode only_me (guar J UNIV prot t) t (\<lambda>m. P m \<and> ?F m) c (\<lambda>r m. Q r m \<and> ?F m)"
    by (rule hoare_frame[where F = ?F, OF h(1)])
      (simp add: only_me_def, rule protocol.table_guar[OF pr])
  from alone_wp_run[OF this] show ?thesis using h(2) T by blast
qed

lemma coarse_outcome:
  assumes c: "coarse_call c" "table_ok T" and m: "coarse_idle T m"
  shows "\<exists>r m'. run t (rcu_hash_call f c) m = Returned r m' \<and>
    (inv m' \<and> outcome T t c (hist m) r m' \<and> unlocked {} m') \<and> inv m' \<and> table_is T m'"
proof -
  obtain oper key where ok: "c = (oper, key)" by (cases c)
  define l where "l = bucket_of T key"
  have k: "a_key key = key" "slot T key = (l, key)" "bucket_of T key = l"
    using c valid_key_ok by (auto simp: coarse_call_def ok a_key_def slot_def l_def)
  have cc: "coarse_call (oper, a_key key)" "l = bucket_of T (a_key key)"
    using c by (simp_all add: ok k)
  note sp = coarse_alone.hash_call_spec[where t = t and H = "hist m" and l = l and key = key and f = f,
      OF cc(1) c(2) cc(2) refl refl refl, unfolded coarse_alone.triple_def coarse_alone.meets_def,
      unfolded k log_only_me when_only_me]
  let ?P = "\<lambda>m'. inv m' \<and> table_is T m' \<and> hist m' = hist m \<and> unlocked {} m'"
  let ?Q = "\<lambda>r m'. inv m' \<and> outcome T t c (hist m) r m' \<and> unlocked {} m'"
  have th: "rg_thread only_me (guar inv UNIV prot_rcu t)"
    by (unfold_locales) (auto intro: guar_refl simp: only_me_def)
  have h: "hoare alone_mode only_me (guar inv UNIV prot_rcu t) t ?P (rcu_hash_call f c) ?Q"
    unfolding ok outcome_def snd_conv k
    by (rule rg_thread.hoare_conseq[OF th sp]) (use only_me_alone in blast)+
  from alone_table_run[OF coarse.protocol_axioms h, of m T] m show ?thesis by (simp add: coarse_idle_def)
qed

lemma fine_outcome:
  assumes c: "fine_call c" "table_ok T" and m: "fine_idle t T m" and f: "0 < f"
  shows "\<exists>r m'. run t (rcu_hash_call f c) m = Returned r m' \<and>
    (fg_ok m' \<and> outcome T t c (hist m) r m' \<and> quiet t {} {} m') \<and> fg_ok m' \<and> table_is T m'"
proof -
  obtain oper key where ok: "c = (oper, key)" by (cases c)
  define l where "l = bucket_of T key"
  have k: "a_key key = key" "slot T key = (l, key)" "bucket_of T key = l"
    using c valid_key_ok by (auto simp: fine_call_def ok a_key_def slot_def l_def)
  have cc: "fine_call (oper, a_key key)" "l = bucket_of T (a_key key)"
    using c by (simp_all add: ok k)
  have md: "may_diverge alone_mode \<or> alone only_me \<and> 0 < f" using only_me_alone f by simp
  note sp = fine_alone.hash_call_spec[where t = t and H = "hist m" and l = l and key = key and f = f,
      OF cc(1) c(2) cc(2) refl refl refl md, unfolded fine_alone.triple_def fine_alone.meets_def,
      unfolded k log_only_me when_only_me]
  let ?P = "\<lambda>m'. fg_ok m' \<and> table_is T m' \<and> hist m' = hist m \<and> quiet t {} {} m'"
  let ?Q = "\<lambda>r m'. fg_ok m' \<and> outcome T t c (hist m) r m' \<and> quiet t {} {} m'"
  have th: "rg_thread only_me (guar fg_ok UNIV prot_fg t)"
    by (unfold_locales) (auto intro: guar_refl simp: only_me_def)
  have h: "hoare alone_mode only_me (guar fg_ok UNIV prot_fg t) t ?P (rcu_hash_call f c) ?Q"
    unfolding ok outcome_def snd_conv k
    by (rule rg_thread.hoare_conseq[OF th sp]) (use only_me_alone in blast)+
  from alone_table_run[OF fine.protocol_axioms h, of m T] m show ?thesis by (simp add: fine_idle_def)
qed

subsection \<open>Sequences of calls\<close>

fun set_specs :: "rcu_call list \<Rightarrow> val_t set \<Rightarrow> int list \<times> val_t set" where
  "set_specs [] S = ([], S)"
| "set_specs (c # cs) S =
    (let (r, S') = set_spec c S; (rs, S'') = set_specs cs S' in (r # rs, S''))"

lemma coarse_call_set:
  assumes "coarse_call c" "table_ok T" "coarse_idle T m"
  shows "\<exists>r m'. run t (rcu_hash_call f c) m = Returned r m' \<and> coarse_idle T m' \<and>
    (r, table_set T m') = set_spec c (table_set T m)"
proof -
  from coarse_outcome[OF assms, of t f] obtain r m' where
    r: "run t (rcu_hash_call f c) m = Returned r m'" "inv m'" "outcome T t c (hist m) r m'"
      "unlocked {} m'" "table_is T m'" by blast
  moreover have "(r, table_set T m') = set_spec c (table_set T m)"
    by (rule outcome_set[OF _ r(2) assms(2) _ r(5) _ r(3)])
      (use assms in \<open>auto simp: coarse_idle_def coarse_call_def\<close>)
  ultimately show ?thesis by (auto simp: coarse_idle_def)
qed

lemma fine_call_set:
  assumes "fine_call c" "table_ok T" "fine_idle t T m" "0 < f"
  shows "\<exists>r m'. run t (rcu_hash_call f c) m = Returned r m' \<and> fine_idle t T m' \<and>
    (r, table_set T m') = set_spec c (table_set T m)"
proof -
  from fine_outcome[OF assms] obtain r m' where
    r: "run t (rcu_hash_call f c) m = Returned r m'" "fg_ok m'" "outcome T t c (hist m) r m'"
      "quiet t {} {} m'" "table_is T m'" by blast
  moreover have "(r, table_set T m') = set_spec c (table_set T m)"
    by (rule outcome_set[OF _ fg_inv[OF r(2)] assms(2) _ r(5) _ r(3)])
      (use assms in \<open>auto simp: fine_idle_def fine_call_def intro: fg_inv\<close>)
  ultimately show ?thesis by (auto simp: fine_idle_def)
qed

lemma calls_set:
  assumes step: "\<And>c m. c \<in> set cs \<Longrightarrow> I m \<Longrightarrow> \<exists>r m'. run t (f c) m = Returned r m' \<and> I m' \<and>
      (r, table_set T m') = set_spec c (table_set T m)"
    and "I m"
  shows "\<exists>rs m'. run t (calls f cs) m = Returned rs m' \<and> I m' \<and>
    (rs, table_set T m') = set_specs cs (table_set T m)"
  using assms
proof (induction cs arbitrary: m)
  case (Cons c cs)
  obtain r m' where c: "run t (f c) m = Returned r m'" "I m'"
    "(r, table_set T m') = set_spec c (table_set T m)" using Cons.prems by (meson list.set_intros(1))
  obtain rs m'' where cs: "run t (calls f cs) m' = Returned rs m''" "I m''"
    "(rs, table_set T m'') = set_specs cs (table_set T m')"
    using Cons.IH[OF _ c(2)] Cons.prems(1) by (meson list.set_intros(2))
  then show ?case using c by (auto simp: run_bind split_beta Let_def dest!: sym[of "(_, _)"])
qed simp

lemma coarse_calls_set:
  assumes "\<forall>c \<in> set cs. coarse_call c" "table_ok T" "coarse_idle T m"
  shows "\<exists>rs m'. run t (calls (rcu_hash_call f) cs) m = Returned rs m' \<and> coarse_idle T m' \<and>
    (rs, table_set T m') = set_specs cs (table_set T m)"
  by (rule calls_set[where I = "coarse_idle T", OF coarse_call_set assms(3)]) (use assms in blast)+

lemma fine_calls_set:
  assumes "\<forall>c \<in> set cs. fine_call c" "table_ok T" "fine_idle t T m" "0 < f"
  shows "\<exists>rs m'. run t (calls (rcu_hash_call f) cs) m = Returned rs m' \<and> fine_idle t T m' \<and>
    (rs, table_set T m') = set_specs cs (table_set T m)"
  by (rule calls_set[where I = "fine_idle t T", OF fine_call_set assms(3)]) (use assms in blast)+

end
