(* ===== verification/RcuInit.thy ===== *)
theory RcuInit
  imports RcuAlone
begin

text \<open>
  Setting the table up, measuring it and tearing it down: \<open>rcu_hash_list_init\<close> on a machine without
  lists establishes what all other operations start from, \<open>list_size\<close> counts the content, and
  \<open>rcu_hash_list_destroy\<close> reads a node after it has freed it.
\<close>

subsection \<open>Machines whose lists are empty\<close>

definition idle_node :: "mach \<Rightarrow> node_t \<Rightarrow> bool" where
  "idle_node m n \<longleftrightarrow> removed n = 0 \<and> global_lock n = None \<and>
     (\<forall>i \<in> set (nodes_with_cpus m). pnd_slocks n i = None)"

text \<open>A list of its two sentinels.\<close>

definition two_nodes :: "mach \<Rightarrow> ptr \<Rightarrow> bool" where
  "two_nodes m l \<longleftrightarrow> (\<exists>L a b na nb. lists m l = Some L \<and> p_head L = b \<and> rcuspin L = None \<and>
     mem m a = Some na \<and> mem m b = Some nb \<and> own m a = Pub l \<and> own m b = Pub l \<and>
     idle_node m na \<and> idle_node m nb \<and> val nb = LIST_VAL_MIN \<and> p_next nb = a \<and>
     val na = LIST_VAL_MAX \<and> p_next na = NULL \<and> (\<forall>p. pub m l p \<longrightarrow> p = a \<or> p = b))"

text \<open>What the allocator gives out is recorded as in use.\<close>

definition heap_known :: "mach \<Rightarrow> bool" where
  "heap_known m \<longleftrightarrow> mem m NULL = None \<and> (\<forall>p. mem m p \<noteq> None \<longrightarrow> p \<in> set (live m)) \<and>
     (\<forall>l. lists m l \<noteq> None \<longrightarrow> l \<in> set (llive m))"

definition blank :: "mach \<Rightarrow> bool" where
  "blank m \<longleftrightarrow> heap_known m \<and> env_ok m \<and> hist m = [] \<and>
     (\<forall>l. lists m l \<noteq> None \<longrightarrow> two_nodes m l) \<and> (\<forall>l p. pub m l p \<longrightarrow> lists m l \<noteq> None)"

lemma two_nodes_facts:
  assumes "blank m" "pub m l p"
  obtains a b where "two_nodes m l" "hd_of m l = b" "pub m l a" "pub m l b" "p = a \<or> p = b"
    "a \<noteq> NULL" "nxt m b = a" "nxt m a = NULL" "vl m b = LIST_VAL_MIN" "vl m a = LIST_VAL_MAX"
proof -
  have l: "two_nodes m l" using assms by (auto simp: blank_def)
  have "mem m NULL = None" using assms(1) by (simp add: blank_def heap_known_def)
  then show ?thesis
    using l assms(2) that unfolding two_nodes_def hd_of_def pub_def nxt_def vl_def by fastforce
qed

lemma two_nodes_hd:
  assumes "blank m" "lists m l \<noteq> None"
  shows "pub m l (hd_of m l) \<and> vl m (hd_of m l) = LIST_VAL_MIN"
  using assms by (auto simp: blank_def two_nodes_def hd_of_def pub_def vl_def)

lemma blank_wfm: "blank m \<Longrightarrow> wfm m"
proof -
  assume b: "blank m"
  have "lists m l \<noteq> None \<and> LIST_VAL_MIN \<le> vl m p \<and> vl m p \<le> LIST_VAL_MAX \<and>
       (if nxt m p = NULL then vl m p = LIST_VAL_MAX else pub m l (nxt m p) \<and> vl m p < vl m (nxt m p))"
    if p: "pub m l p" for l p
    by (rule two_nodes_facts[OF b p], use b p in \<open>auto simp: blank_def intro: less_imp_le\<close>)
  then show ?thesis
    using b two_nodes_hd[OF b] by (auto simp: wfm_def blank_def heap_known_def)
qed

lemma blank_chain:
  assumes b: "blank m" and p: "pub m l p"
  shows "in_chain m l p" and "contents m l = {}"
proof -
  obtain c d where f: "hd_of m l = d" "p = c \<or> p = d" "c \<noteq> NULL" "nxt m d = c" "nxt m c = NULL"
    "vl m d = LIST_VAL_MIN" "vl m c = LIST_VAL_MAX"
    by (rule two_nodes_facts[OF b p]) blast
  have r: "reach (nxt m) d q \<longleftrightarrow> q = d \<or> q = c" for q
    using f by (subst reach_cases, subst reach_cases) auto
  show "in_chain m l p" using f r by (auto simp: in_chain_def)
  show "contents m l = {}" using f r by (auto simp: contents_def ahead_def key_ok_def)
qed

lemma blank_pub_idle: "blank m \<Longrightarrow> pub m l p \<Longrightarrow> \<exists>n. mem m p = Some n \<and> idle_node m n"
proof -
  assume b: "blank m" and p: "pub m l p"
  then have "two_nodes m l" unfolding blank_def by blast
  then show ?thesis using p unfolding two_nodes_def by metis
qed

lemma blank_rest:
  assumes "blank m"
  shows "inv m" "fg_ok m" "unlocked {} m" "quiet t {} {} m"
proof -
  have "contents m l = {}" if "lists m l \<noteq> None" for l
    using blank_chain(2)[OF assms] two_nodes_hd[OF assms that] by blast
  then show i: "inv m"
    using assms blank_wfm[OF assms]
    by (auto simp: inv_def hist_ok_def blank_def upds_def replay_def)
  show "fg_ok m"
    using i blank_chain(1)[OF assms] blank_pub_idle[OF assms]
    by (fastforce simp: fg_ok_def rmvd_def idle_node_def)
  show "unlocked {} m"
    using assms by (force simp: unlocked_def lock_get.simps blank_def two_nodes_def)
  have "i < NR_NUMA_NODES" if "i \<in> set (nodes_with_cpus m)" for i
    using assms that by (simp add: blank_def env_ok_def)
  then show "quiet t {} {} m"
    using blank_pub_idle[OF assms] by (fastforce simp: quiet_def lock_get.simps idle_node_def)
qed

subsection \<open>A new node and a new list\<close>

lemmas run_rdefs = run_bind run_atomic wr_def rd_def set_node_def get_def set_val_def set_next_def

lemma run_pnd_init:
  assumes "mem m p = Some n" "\<forall>i \<in> set is. i < NR_NUMA_NODES"
  shows "\<exists>g. run t (for_each is (pnd_init p)) m =
      Returned () (m\<lparr>mem := (mem m)(p \<mapsto> n\<lparr>pnd_slocks := g\<rparr>)\<rparr>) \<and>
    (\<forall>i. g i = (if i \<in> set is then None else pnd_slocks n i))"
  using assms
proof (induction "is" arbitrary: m n)
  case Nil
  have "m\<lparr>mem := (mem m)(p \<mapsto> n\<lparr>pnd_slocks := pnd_slocks n\<rparr>)\<rparr> = m"
    using Nil(1) by (simp add: fun_upd_idem)
  then have "run t (for_each [] (pnd_init p)) m = Returned () (m\<lparr>mem := (mem m)(p \<mapsto> n\<lparr>pnd_slocks := pnd_slocks n\<rparr>)\<rparr>)"
    by simp
  then show ?case by (intro exI[of _ "pnd_slocks n"] conjI) (assumption, simp)
next
  case (Cons i "is")
  let ?n = "n\<lparr>pnd_slocks := (pnd_slocks n)(i := None)\<rparr>"
  let ?m = "m\<lparr>mem := (mem m)(p \<mapsto> ?n)\<rparr>"
  have s: "run t (pnd_init p i) m = Returned () ?m"
    using Cons.prems by (simp add: pnd_init_def run_rdefs)
  have "mem ?m p = Some ?n" "\<forall>i \<in> set is. i < NR_NUMA_NODES" using Cons.prems by simp_all
  from Cons.IH[OF this] obtain g where "run t (for_each is (pnd_init p)) ?m =
      Returned () (?m\<lparr>mem := (mem ?m)(p \<mapsto> ?n\<lparr>pnd_slocks := g\<rparr>)\<rparr>)"
    "\<forall>i. g i = (if i \<in> set is then None else pnd_slocks ?n i)" by blast
  then have "run t (for_each (i # is) (pnd_init p)) m =
      Returned () (m\<lparr>mem := (mem m)(p \<mapsto> n\<lparr>pnd_slocks := g\<rparr>)\<rparr>)"
    "\<forall>j. g j = (if j \<in> set (i # is) then None else pnd_slocks n j)"
    using s by (simp_all add: run_bind)
  then show ?case by blast
qed

text \<open>What a call of \<open>rcu_new_node\<close> does to the machine.\<close>

definition with_node :: "tid \<Rightarrow> ptr \<Rightarrow> node_t \<Rightarrow> mach \<Rightarrow> mach" where
  "with_node t a n m = m\<lparr>mem := (mem m)(a \<mapsto> n), own := (own m)(a := Priv t), live := a # live m,
     kcnt := kcnt m + 1\<rparr>"

lemma run_wr: "run t (wr a f) (with_node t a n m) = Returned () (with_node t a (f n) m)"
  by (simp add: wr_def run_atomic set_node_def with_node_def)

lemma run_new_node:
  assumes "heap_known m" "env_ok m"
  shows "\<exists>a n. run t rcu_new_node m = Returned a (with_node t a n m) \<and>
    a \<noteq> NULL \<and> mem m a = None \<and> idle_node m n"
proof -
  define a where "a = fresh_node m"
  have a: "a \<noteq> NULL" "mem m a = None"
    using assms by (auto simp: a_def fresh_node_def Let_def heap_known_def env_ok_def)
  define n where "n = (kjunk m (kcnt m))\<lparr>removed := 0\<rparr>"
  let ?m = "with_node t a n m"
  obtain g where g: "run t (for_each (nodes_with_cpus m) (pnd_init a)) ?m =
      Returned () (?m\<lparr>mem := (mem ?m)(a \<mapsto> n\<lparr>pnd_slocks := g\<rparr>)\<rparr>)"
    "\<forall>i. g i = (if i \<in> set (nodes_with_cpus m) then None else pnd_slocks n i)"
    using run_pnd_init[of ?m a n "nodes_with_cpus m" t] assms(2)
    by (auto simp: with_node_def env_ok_def)
  let ?n = "n\<lparr>pnd_slocks := g, global_lock := None\<rparr>"
  have s1: "run t kmalloc_node m = Returned a (with_node t a (kjunk m (kcnt m)) m)"
    using a by (simp add: kmalloc_node_def Let_def a_def[symmetric] run_atomic with_node_def)
  have s2: "run t (wr a (\<lambda>n. n\<lparr>removed := 0\<rparr>)) (with_node t a (kjunk m (kcnt m)) m) = Returned () ?m"
    by (simp add: wr_def run_atomic set_node_def with_node_def n_def)
  have s3: "run t (wr a (\<lambda>n. n\<lparr>global_lock := None\<rparr>)) (?m\<lparr>mem := (mem ?m)(a \<mapsto> n\<lparr>pnd_slocks := g\<rparr>)\<rparr>) =
      Returned () (with_node t a ?n m)"
    by (simp add: wr_def run_atomic set_node_def with_node_def)
  have "run t rcu_new_node m = Returned a (with_node t a ?n m)"
    using a(1) s1 s2 g(1) s3
    by (simp add: rcu_new_node_def run_bind run_atomic get_def) (simp add: with_node_def)
  moreover have "idle_node m ?n" using g(2) by (simp add: idle_node_def n_def)
  ultimately show ?thesis using a by blast
qed

text \<open>A new list of two new nodes.\<close>

lemma blank_extend:
  assumes b: "blank m"
    and f: "mem m3 = (mem m)(a \<mapsto> na\<lparr>val := LIST_VAL_MAX, p_next := NULL\<rparr>, c \<mapsto> nc\<lparr>val := LIST_VAL_MIN, p_next := a\<rparr>)"
      "own m3 = (own m)(a := Pub l, c := Pub l)" "lists m3 = (lists m)(l \<mapsto> \<lparr>p_head = c, rcuspin = None\<rparr>)"
      "hist m3 = hist m" "nodes_with_cpus m3 = nodes_with_cpus m" "live m3 = c # a # live m"
      "llive m3 = l # llive m" "env_ok m3 = env_ok m"
    and n: "mem m a = None" "mem m c = None" "idle_node m na" "idle_node m nc" "a \<noteq> NULL" "c \<noteq> NULL"
      "l \<noteq> NULL" "lists m l = None" "a \<noteq> c"
  shows "blank m3"
proof -
  have i: "idle_node m3 n = idle_node m n" for n by (simp add: idle_node_def f)
  have nl: "\<not> pub m l p" for p using b n(8) unfolding blank_def by blast
  have p: "pub m3 k p \<longleftrightarrow> (if k = l then p = a \<or> p = c else pub m k p)" for k p
    using nl[of p] n(1,2) by (cases "k = l") (auto simp: pub_def f)
  have "two_nodes m3 k" if k: "lists m3 k \<noteq> None" for k
  proof (cases "k = l")
    case True
    then show ?thesis
      using n unfolding two_nodes_def p i
      by (intro exI[of _ "\<lparr>p_head = c, rcuspin = None\<rparr>"] exI[of _ a] exI[of _ c]
          exI[of _ "na\<lparr>val := LIST_VAL_MAX, p_next := NULL\<rparr>"] exI[of _ "nc\<lparr>val := LIST_VAL_MIN, p_next := a\<rparr>"])
        (simp add: f idle_node_def)
  next
    case False
    then have "two_nodes m k" using k b by (auto simp: f blank_def)
    then obtain L x y nx ny where t: "lists m k = Some L" "p_head L = y" "rcuspin L = None"
      "mem m x = Some nx" "mem m y = Some ny" "own m x = Pub k" "own m y = Pub k" "idle_node m nx"
      "idle_node m ny" "val ny = LIST_VAL_MIN" "p_next ny = x" "val nx = LIST_VAL_MAX"
      "p_next nx = NULL" "\<forall>p. pub m k p \<longrightarrow> p = x \<or> p = y"
      unfolding two_nodes_def by blast
    then have "x \<noteq> a" "x \<noteq> c" "y \<noteq> a" "y \<noteq> c" using n by auto
    then show ?thesis
      using t False unfolding two_nodes_def p i
      by (intro exI[of _ L] exI[of _ x] exI[of _ y] exI[of _ nx] exI[of _ ny]) (simp add: f)
  qed
  moreover have "heap_known m3" using b n by (auto simp: heap_known_def blank_def f)
  ultimately show ?thesis
    using b p by (auto simp: blank_def f split: if_splits)
qed

lemma run_new_list:
  assumes b: "blank m"
  shows "\<exists>l m'. run t rcu_new_list m = Returned l m' \<and> blank m' \<and> lists m l = None \<and> lists m' l \<noteq> None \<and>
    (\<forall>k. lists m k \<noteq> None \<longrightarrow> lists m' k \<noteq> None) \<and> g_hash_list m' = g_hash_list m"
proof -
  have k: "heap_known m" "env_ok m" using b by (simp_all add: blank_def)
  define l where "l = fresh_list m"
  have l: "l \<noteq> NULL" "lists m l = None"
    using k by (auto simp: l_def fresh_list_def Let_def heap_known_def env_ok_def)
  define m1 where "m1 = m\<lparr>lists := (lists m)(l \<mapsto> ljunk m (kcnt m)), llive := l # llive m, kcnt := kcnt m + 1\<rparr>"
  have m1: "heap_known m1" "env_ok m1" using k by (auto simp: m1_def heap_known_def env_ok_def)
  obtain a na where a: "run t rcu_new_node m1 = Returned a (with_node t a na m1)" "a \<noteq> NULL"
    "mem m1 a = None" "idle_node m1 na" using run_new_node[OF m1] by blast
  define m2 where "m2 = with_node t a (na\<lparr>val := LIST_VAL_MAX, p_next := NULL\<rparr>) m1"
  have m2: "heap_known m2" "env_ok m2"
    using m1 a by (auto simp: m2_def with_node_def heap_known_def env_ok_def)
  obtain c nc where c: "run t rcu_new_node m2 = Returned c (with_node t c nc m2)" "c \<noteq> NULL"
    "mem m2 c = None" "idle_node m2 nc" using run_new_node[OF m2] by blast
  have ac: "a \<noteq> c" using c(3) by (auto simp: m2_def with_node_def)
  define m3 where "m3 = publish t l c ((with_node t c (nc\<lparr>val := LIST_VAL_MIN, p_next := a\<rparr>) m2)
    \<lparr>lists := (lists m2)(l \<mapsto> \<lparr>p_head = c, rcuspin = None\<rparr>)\<rparr>)"
  have s1: "run t kmalloc_list m = Returned l m1"
    using l by (simp add: kmalloc_list_def Let_def l_def[symmetric] run_atomic m1_def)
  have s2: "run t (set_val a LIST_VAL_MAX) (with_node t a na m1) =
      Returned () (with_node t a (na\<lparr>val := LIST_VAL_MAX\<rparr>) m1)"
    "run t (set_next a NULL) (with_node t a (na\<lparr>val := LIST_VAL_MAX\<rparr>) m1) = Returned () m2"
    by (simp_all add: set_val_def set_next_def run_wr m2_def)
  have s3: "run t (set_val c LIST_VAL_MIN) (with_node t c nc m2) =
      Returned () (with_node t c (nc\<lparr>val := LIST_VAL_MIN\<rparr>) m2)"
    "run t (set_next c a) (with_node t c (nc\<lparr>val := LIST_VAL_MIN\<rparr>) m2) =
      Returned () (with_node t c (nc\<lparr>val := LIST_VAL_MIN, p_next := a\<rparr>) m2)"
    by (simp_all add: set_val_def set_next_def run_wr)
  have L: "L\<lparr>p_head := c, rcuspin := None\<rparr> = \<lparr>p_head = c, rcuspin = None\<rparr>" for L :: list_t
    by (cases L) simp
  have "lists m2 l = Some (ljunk m (kcnt m))" by (simp add: m2_def m1_def with_node_def)
  then have s4: "run t (bind (set_head l c) (\<lambda>_. set_list l (\<lambda>L. L\<lparr>rcuspin := None\<rparr>)))
      (with_node t c (nc\<lparr>val := LIST_VAL_MIN, p_next := a\<rparr>) m2) = Returned () m3"
    by (simp add: run_bind set_head_def set_list_def run_atomic publish_def with_node_def m3_def nxt_def L)
  have r: "run t rcu_new_list m = Returned l m3"
    using s1 l(1) a(1) s2 c(1) s3 s4
    by (cases "run t (set_head l c) (with_node t c (nc\<lparr>val := LIST_VAL_MIN, p_next := a\<rparr>) m2)")
      (simp_all add: rcu_new_list_def run_bind)
  let ?na = "na\<lparr>val := LIST_VAL_MAX, p_next := NULL\<rparr>"
  let ?nc = "nc\<lparr>val := LIST_VAL_MIN, p_next := a\<rparr>"
  have f: "mem m3 = (mem m)(a \<mapsto> ?na, c \<mapsto> ?nc)" "own m3 = (own m)(a := Pub l, c := Pub l)"
    "lists m3 = (lists m)(l \<mapsto> \<lparr>p_head = c, rcuspin = None\<rparr>)" "hist m3 = hist m"
    "nodes_with_cpus m3 = nodes_with_cpus m" "live m3 = c # a # live m" "llive m3 = l # llive m"
    "env_ok m3 = env_ok m" "g_hash_list m3 = g_hash_list m"
    using ac by (auto simp: m3_def m2_def m1_def with_node_def publish_def nxt_def env_ok_def)
  have n: "mem m a = None" "mem m c = None" "idle_node m na" "idle_node m nc"
    using a(3,4) c(3,4) ac by (auto simp: m1_def m2_def with_node_def idle_node_def split: if_splits)
  have "blank m3" by (rule blank_extend[OF b f(1-8) n a(2) c(2) l ac])
  then show ?thesis using r l(2) f(3,9) by (intro exI[of _ l] exI[of _ m3]) auto
qed

subsection \<open>The table\<close>

lemma run_fill_buckets:
  assumes "blank m" "g_hash_list m = Some T" "n_buckets T = n" "0 \<le> i" "n \<le> int MAX_BUCKETS"
    "nat (n - i) \<le> k" "\<forall>j. 0 \<le> j \<and> j < i \<longrightarrow> is_list (buckets T j) m"
  shows "\<exists>T' m'. run t (fill_buckets k i n) m = Returned () m' \<and> blank m' \<and> n_buckets T' = n \<and> table_is T' m'"
  using assms
proof (induction k arbitrary: i m T)
  case 0
  then show ?case by (intro exI[of _ T] exI[of _ m]) (simp add: table_is_def)
next
  case (Suc k)
  show ?case
  proof (cases "i < n")
    case False
    then show ?thesis using Suc.prems by (intro exI[of _ T] exI[of _ m]) (simp add: table_is_def)
  next
    case True
    obtain l m1 where l: "run t rcu_new_list m = Returned l m1" "blank m1" "lists m1 l \<noteq> None"
      "\<forall>k. lists m k \<noteq> None \<longrightarrow> lists m1 k \<noteq> None" "g_hash_list m1 = g_hash_list m"
      using run_new_list[OF Suc.prems(1)] by blast
    define T' where "T' = T\<lparr>buckets := (buckets T)(i := l)\<rparr>"
    define m2 where "m2 = m1\<lparr>g_hash_list := Some T'\<rparr>"
    have s: "run t (set_bucket i l) m1 = Returned () m2"
      using l(5) Suc.prems True by (simp add: set_bucket_def run_atomic m2_def T'_def)
    have "blank m2"
      using l(2) unfolding blank_def heap_known_def env_ok_def two_nodes_def idle_node_def pub_def m2_def by simp
    moreover have "\<forall>j. 0 \<le> j \<and> j < i + 1 \<longrightarrow> is_list (buckets T' j) m2"
      using Suc.prems(7) l(3,4) by (auto simp: T'_def m2_def is_list_def)
    moreover have "n_buckets T' = n" "g_hash_list m2 = Some T'" using Suc.prems(3) by (simp_all add: T'_def m2_def)
    ultimately have "\<exists>T' m'. run t (fill_buckets k (i + 1) n) m2 = Returned () m' \<and> blank m' \<and>
        n_buckets T' = n \<and> table_is T' m'"
      using Suc.IH[of m2 T' "i + 1"] Suc.prems by (simp add: add.commute)
    then show ?thesis using True l(1) s by (simp add: run_bind)
  qed
qed

text \<open>A machine on which no list has been allocated yet.\<close>

definition boot :: "mach \<Rightarrow> bool" where
  "boot m \<longleftrightarrow> heap_known m \<and> env_ok m \<and> hist m = [] \<and> (\<forall>l. lists m l = None) \<and> (\<forall>l p. \<not> pub m l p)"

lemma run_init:
  assumes "boot m" "0 < n" "n \<le> int MAX_BUCKETS"
  shows "\<exists>T m'. run t (rcu_hash_list_init n) m = Returned 0 m' \<and> table_ok T \<and> n_buckets T = n \<and>
    coarse_idle T m' \<and> (\<forall>s. fine_idle s T m') \<and> table_set T m' = {}"
proof -
  let ?m = "m\<lparr>g_hash_list := Some \<lparr>n_buckets = n, buckets = \<lambda>_. NULL\<rparr>\<rparr>"
  have "blank ?m"
    using assms(1) by (simp add: boot_def blank_def heap_known_def env_ok_def pub_def)
  then have "\<exists>T m'. run t (fill_buckets (nat n) 0 n) ?m = Returned () m' \<and> blank m' \<and> n_buckets T = n \<and> table_is T m'"
    by (rule run_fill_buckets) (use assms in auto)
  then obtain T m' where f: "run t (fill_buckets (nat n) 0 n) ?m = Returned () m'" "blank m'"
    "n_buckets T = n" "table_is T m'" by blast
  have "kalloc m [] (kcnt m) \<noteq> NULL" using assms(1) by (simp add: boot_def env_ok_def)
  then have r: "run t (rcu_hash_list_init n) m = Returned 0 m'"
    using f(1) by (simp add: rcu_hash_list_init_def rcu_new_hash_list_def run_bind run_atomic get_def)
  have T: "table_ok T" using f(3) assms by (simp add: table_ok_def)
  have "contents m' (bucket_of T k) = {}" if "valid_key k" for k
    using bucket_is_list[OF T f(4) that] two_nodes_hd[OF f(2)] blank_chain(2)[OF f(2)]
    by (metis is_list_def)
  then have "table_set T m' = {}" by (auto simp: table_set_def)
  then show ?thesis
    using r T f(3,4) blank_rest[OF f(2)] by (auto simp: coarse_idle_def fine_idle_def)
qed

subsection \<open>Size\<close>

definition rest_of :: "mach \<Rightarrow> ptr \<Rightarrow> val_t set" where
  "rest_of m p = {v. v < LIST_VAL_MAX \<and> ahead m p v}"

lemma rest_of_tail:
  assumes "wfm m" "pub m l p" "nxt m p = NULL"
  shows "rest_of m p = {}"
proof -
  have "vl m p = LIST_VAL_MAX" using assms unfolding wfm_def by metis
  then show ?thesis using assms(3) by (auto simp: rest_of_def ahead_def reach_cases[of _ p])
qed

lemma ahead_step: "nxt m p \<noteq> NULL \<Longrightarrow> ahead m p v \<longleftrightarrow> v = vl m p \<or> ahead m (nxt m p) v"
  unfolding ahead_def by (subst reach_cases) auto

lemma rest_of_step:
  assumes "wfm m" "pub m l p" "nxt m p \<noteq> NULL"
  shows "rest_of m p = insert (vl m p) (rest_of m (nxt m p))" "vl m p \<notin> rest_of m (nxt m p)"
    "finite (rest_of m p)"
proof -
  have n: "pub m l (nxt m p)" "vl m p < vl m (nxt m p)" using wf_next[OF assms] by auto
  have "vl m p < LIST_VAL_MAX" using wf_max[OF assms(1) n(1)] n(2) by simp
  then show "rest_of m p = insert (vl m p) (rest_of m (nxt m p))"
    using ahead_step[OF assms(3)] by (auto simp: rest_of_def)
  show "vl m p \<notin> rest_of m (nxt m p)"
    using ahead_less[OF assms(1) n] by (simp add: rest_of_def)
  have "rest_of m p \<subseteq> {vl m p ..< LIST_VAL_MAX}"
    using wf_reach_val[OF assms(1,2)] by (auto simp: rest_of_def ahead_def)
  then show "finite (rest_of m p)" using finite_subset by blast
qed

lemma run_size_loop:
  assumes "wfm m" "pub m l p" "nat (LIST_VAL_MAX - vl m p) < w"
  shows "run t (list_size_loop w p s) m = Returned (s + int (card (rest_of m p))) m"
  using assms(2,3)
proof (induction w arbitrary: p s)
  case (Suc w)
  obtain n where n: "mem m p = Some n" "p_next n = nxt m p" using pub_mem[OF Suc.prems(1)] by blast
  show ?case
  proof (cases "nxt m p = NULL")
    case True
    then show ?thesis
      using n rest_of_tail[OF assms(1) Suc.prems(1)] by (simp add: rd_def run_bind run_atomic)
  next
    case False
    have nx: "pub m l (nxt m p)" "vl m p < vl m (nxt m p)" using wf_next[OF assms(1) Suc.prems(1) False] by auto
    have "vl m (nxt m p) \<le> LIST_VAL_MAX" by (rule wf_max[OF assms(1) nx(1)])
    then have "run t (list_size_loop w (nxt m p) (s + 1)) m =
        Returned (s + 1 + int (card (rest_of m (nxt m p)))) m"
      using Suc.IH[OF nx(1), of "s + 1"] nx(2) Suc.prems(2) by simp
    moreover have "card (rest_of m p) = Suc (card (rest_of m (nxt m p)))"
      using rest_of_step[OF assms(1) Suc.prems(1) False] by simp
    ultimately show ?thesis using n False by (simp add: rd_def run_bind run_atomic)
  qed
qed simp

lemma run_list_size:
  assumes "wfm m" "is_list l m"
  shows "run t (list_size WALK l) m = Returned (int (card (contents m l))) m"
proof -
  obtain L where L: "lists m l = Some L" using assms(2) by (auto simp: is_list_def)
  have h: "pub m l (hd_of m l)" "vl m (hd_of m l) = LIST_VAL_MIN"
    using wf_hd[OF assms(1)] L by auto
  obtain n where n: "mem m (hd_of m l) = Some n" "p_next n = nxt m (hd_of m l)" using pub_mem[OF h(1)] by blast
  have nn: "nxt m (hd_of m l) \<noteq> NULL" by (rule wf_tail[OF assms(1) h(1)]) (simp add: h(2))
  have x: "pub m l (nxt m (hd_of m l))" "LIST_VAL_MIN < vl m (nxt m (hd_of m l))"
    using wf_next[OF assms(1) h(1) nn] h(2) by auto
  have "LIST_VAL_MIN < v" if "ahead m (nxt m (hd_of m l)) v" for v
    using ahead_less[OF assms(1) x(1), of v] that x(2) by linarith
  then have "contents m l = rest_of m (nxt m (hd_of m l))"
    by (auto simp: contents_def rest_of_def key_ok_def ahead_step[OF nn] h(2))
  moreover have "run t (list_size_loop WALK (nxt m (hd_of m l)) 0) m =
      Returned (0 + int (card (rest_of m (nxt m (hd_of m l))))) m"
    by (rule run_size_loop[OF assms(1) x(1)])
      (use x(2) in \<open>simp add: WALK_def LIST_VAL_MIN_def LIST_VAL_MAX_def\<close>)
  ultimately show ?thesis
    using L n by (simp add: list_size_def head_of_def rd_def run_bind run_atomic hd_of_def)
qed

subsection \<open>Destruction\<close>

lemma run_destroy:
  assumes "wfm m" "is_list l m" "0 < w"
  shows "run t (rcu_list_destroy w l) m = Faulted"
proof -
  obtain L where L: "lists m l = Some L" using assms(2) by (auto simp: is_list_def)
  have h: "pub m l (hd_of m l)" using wf_hd[OF assms(1)] L by auto
  have "hd_of m l \<noteq> NULL" by (rule pub_not_null[OF assms(1) h])
  moreover obtain n where "mem m (hd_of m l) = Some n" using pub_mem[OF h] by blast
  moreover obtain v where "w = Suc v" using assms(3) by (cases w) auto
  ultimately show ?thesis
    using L by (simp add: rcu_list_destroy_def head_of_def rd_def run_bind run_atomic hd_of_def set_head_def
        publish_def kfree_node_def)
qed

lemma run_hash_destroy:
  assumes "wfm m" "table_ok T" "table_is T m"
  shows "run t (rcu_hash_list_destroy WALK) m = Faulted"
proof -
  have g: "g_hash_list m = Some T" "0 < n_buckets T" using assms by (auto simp: table_is_def table_ok_def)
  have l: "is_list (buckets T 0) m" using assms by (auto simp: table_is_def table_ok_def)
  have w: "0 < WALK" by (simp add: WALK_def)
  have b: "0 < int MAX_BUCKETS" by (simp add: MAX_BUCKETS_def)
  show ?thesis
    using g b run_destroy[OF assms(1) l w, of t]
    by (simp add: rcu_hash_list_destroy_def n_buckets_of_def bucket_at_def get_def run_bind run_atomic)
qed

end
