(* ===== verification/RcuSpec.thy ===== *)
theory RcuSpec
  imports RcuInit
begin

text \<open>
  The set behind the calls on a table. A trace of a thread whose keys no other thread updates is a run
  of the sequential set; the two families of calls have the same effect on the set; the log balances
  insertions and removals of each key; lookups are wait-free and leave the machine unchanged.
\<close>

subsection \<open>Traces and the sequential set\<close>

definition log_set :: "hash_list_t \<Rightarrow> (tid \<times> ptr \<times> upd) list \<Rightarrow> val_t set" where
  "log_set T H = {k. valid_key k \<and> in_log (slot T k) H}"

lemma log_set_hist: "inv m \<Longrightarrow> table_ok T \<Longrightarrow> table_is T m \<Longrightarrow> log_set T (hist m) = table_set T m"
  using in_log_contents by (auto simp: log_set_def table_set_def)

lemma in_log_append:
  "in_log (slot T k) (H @ [(t, bucket_of T k', u)]) \<longleftrightarrow>
    (if bucket_of T k' = bucket_of T k then k \<in> upd_apply (replay {} (upds (bucket_of T k) H)) u
     else in_log (slot T k) H)"
  by (simp add: in_log_def slot_def upds_snoc replay_snoc)

lemma log_set_append:
  assumes "u = Ins k \<or> u = Del k" "valid_key k"
  shows "log_set T (H @ [(t, bucket_of T k, u)]) = upd_apply (log_set T H) u"
  using assms by (auto simp: log_set_def in_log_append) (auto simp: in_log_def slot_def)

lemma trace_set:
  assumes "trace rcu_api T K t H cs rs H'"
    and "\<forall>c \<in> set cs. fst c \<notin> {TryAdd, TryRemove} \<and> valid_key (snd c) \<and> slot T (snd c) \<in> K"
  shows "set_specs cs (log_set T H) = (rs, log_set T H')"
  using assms
proof (induction cs arbitrary: H rs)
  case (Cons c cs)
  have c: "fst c \<notin> {TryAdd, TryRemove}" "valid_key (snd c)" "slot T (snd c) \<in> K" using Cons.prems(2) by auto
  obtain oper key where ok: "c = (oper, key)" by (cases c)
  obtain chg where g: "rs \<noteq> []" "rcu_reports c chg (hd rs)" "rcu_exact c (in_log (slot T (snd c)) H) chg (hd rs)"
    "trace rcu_api T K t (log_after rcu_api T t c chg H) cs (tl rs) H'"
    using Cons.prems(1) c(3) by (auto simp: api_simps ok)
  have "rcu_exact c (snd c \<in> log_set T H) chg (hd rs)" using g(3) c(2) by (simp add: log_set_def)
  moreover have "hd rs \<noteq> 2" using g(2) c(1) by (cases oper) (auto simp: ok ENOENT_def of_bool_def split: if_splits)
  ultimately have s: "set_spec c (log_set T H) = (hd rs, if chg then upd_apply (log_set T H) (rcu_upd c) else log_set T H)"
    using exact_set_spec[OF g(2)] by blast
  have l: "log_set T (log_after rcu_api T t c chg H) = (if chg then upd_apply (log_set T H) (rcu_upd c) else log_set T H)"
    using log_set_append[of "rcu_upd c" "snd c" T H t] c(2) by (simp add: ok api_simps rcu_upd_def)
  have "set_specs cs (log_set T (log_after rcu_api T t c chg H)) = (tl rs, log_set T H')"
    using Cons.IH[OF g(4)] Cons.prems(2) by simp
  then show ?case using s l g(1) by (simp add: Let_def split_beta)
qed simp

lemma log_set_touch:
  "touch K H = touch K H' \<Longrightarrow> valid_key k \<Longrightarrow> slot T k \<in> K \<Longrightarrow> k \<in> log_set T H \<longleftrightarrow> k \<in> log_set T H'"
  using replay_touch[of K H H' "bucket_of T k" k] by (simp add: log_set_def in_log_def slot_def)

subsection \<open>Insertions and removals in balance\<close>

fun count_ins :: "val_t \<Rightarrow> upd list \<Rightarrow> nat" where
  "count_ins k [] = 0"
| "count_ins k (Ins v # us) = of_bool (v = k) + count_ins k us"
| "count_ins k (Del v # us) = count_ins k us"

fun count_del :: "val_t \<Rightarrow> upd list \<Rightarrow> nat" where
  "count_del k [] = 0"
| "count_del k (Ins v # us) = count_del k us"
| "count_del k (Del v # us) = of_bool (v = k) + count_del k us"

lemma legal_balance:
  "legal S us \<Longrightarrow> count_ins k us + of_bool (k \<in> S) = count_del k us + of_bool (k \<in> replay S us)"
proof (induction us arbitrary: S)
  case (Cons u us)
  then show ?case by (cases u) (force simp: replay_def)+
qed (simp add: replay_def)

subsection \<open>The families have the same effect\<close>

fun fine_version :: "rcu_op \<Rightarrow> rcu_op" where
  "fine_version Add = FgAdd"
| "fine_version TryAdd = NumaAdd"
| "fine_version Remove = FgRemove"
| "fine_version TryRemove = NumaRemove"
| "fine_version oper = oper"

lemma set_spec_fine: "snd (set_spec (fine_version oper, k) S) = snd (set_spec (oper, k) S)"
  by (cases oper) simp_all

lemma set_specs_fine: "snd (set_specs (map (map_prod fine_version id) cs) S) = snd (set_specs cs S)"
proof (induction cs arbitrary: S)
  case (Cons c cs)
  then show ?case using set_spec_fine[of "fst c" "snd c" S] by (cases c) (simp add: split_beta Let_def)
qed simp

lemma fine_version_call: "coarse_call c \<Longrightarrow> fine_call (map_prod fine_version id c)"
  by (cases c) (auto simp: coarse_call_def fine_call_def)

subsection \<open>Lookups\<close>

definition wait_free :: mode where
  "wait_free = \<lparr>may_diverge = False, may_block = False\<rparr>"

interpretation coarse_reader: list_op prot_rcu inv t "rely inv K prot_rcu t" K "{}" wait_free l
  "a_key key" "(l, a_key key) \<in> K" "in_log (l, a_key key) H" H WALK for t :: tid and K l key H
  by (intro_locales, unfold_locales)
    (auto intro: rely_refl rely_trans a_key_ok simp: WALK_def)

interpretation fine_reader: list_op prot_fg fg_ok t "rely fg_ok K prot_fg t" K "{}" wait_free l
  "a_key key" "(l, a_key key) \<in> K" "in_log (l, a_key key) H" H WALK for t :: tid and K l key H
  by (intro_locales, unfold_locales)
    (auto intro: rely_refl rely_trans a_key_ok simp: WALK_def)

text \<open>Walks only read.\<close>

lemma run_search_pure: "run t (search w key p q) m = Returned x m' \<Longrightarrow> m' = m"
  by (induction w key p q rule: search.induct)
    (auto simp: run_bind rd_def run_atomic split: option.splits if_splits)

lemma run_find_pos_pure: "run t (find_pos w l key) m = Returned x m' \<Longrightarrow> m' = m"
  using run_search_pure[of t w key _ _ m x m']
  by (auto simp: find_pos_def head_of_def run_bind rd_def run_atomic split: option.splits)

lemma run_contains_pure: "run t (rcu_list_contains w l key) m = Returned r m' \<Longrightarrow> m' = m"
proof -
  assume r: "run t (rcu_list_contains w l key) m = Returned r m'"
  let ?m = "m\<lparr>rcu_nest := (rcu_nest m)(t := rcu_nest m t + 1)\<rparr>"
  show "m' = m"
    using r run_find_pos_pure[of t w l key ?m]
    by (cases "run t (find_pos w l key) ?m")
      (auto simp: rcu_list_contains_def rcu_read_lock_def rcu_read_unlock_def run_bind run_atomic split_beta)
qed

lemma run_hash_contains_pure: "run t (rcu_hash_list_contains w key) m = Returned r m' \<Longrightarrow> m' = m"
proof -
  assume r: "run t (rcu_hash_list_contains w key) m = Returned r m'"
  show "m' = m"
    using r run_contains_pure[of t w _ key m]
    by (auto simp: rcu_hash_list_contains_def with_bucket_def HASH_VALUE_def n_buckets_of_def bucket_at_def
        get_def run_bind run_atomic split: option.splits if_splits elim!: result_bind.elims)
qed

subsection \<open>Keys and buckets\<close>

lemma run_hash_value:
  "run t (HASH_VALUE key) m = (case g_hash_list m of None \<Rightarrow> Faulted
     | Some T \<Rightarrow> if n_buckets T = 0 then Faulted else Returned (c_rem key (n_buckets T)) m)"
  by (simp add: HASH_VALUE_def n_buckets_of_def get_def run_bind run_atomic split: option.splits)

lemma run_negative_key:
  assumes "table_is T m" "0 < n_buckets T" "c_rem key (n_buckets T) < 0"
  shows "run t (with_bucket opr key) m = Faulted"
  using assms
  by (simp add: with_bucket_def run_bind run_hash_value bucket_at_def get_def run_atomic table_is_def)

end
