(* ===== verification/Examples.thy ===== *)
theory Examples
  imports RcuSpec
begin

text \<open>
  A concrete machine: two CPUs' worth of counters, one NUMA node, an allocator that gives out the
  address above all that are in use, and the table of two buckets that \<open>rcu_hash_list_init\<close> makes
  on it. The properties are applied to it where they have hypotheses.
\<close>

definition ex_node :: node_t where
  "ex_node = \<lparr>val = 0, p_next = 0, removed = 0, pnode_locks = (\<lambda>_. 0), pnd_slocks = (\<lambda>_. None),
     global_lock = None, global_htmlock = 0\<rparr>"

definition ex_boot :: mach where
  "ex_boot = \<lparr>mem = (\<lambda>_. None), lists = (\<lambda>_. None), g_hash_list = None, own = (\<lambda>_. Priv 0), hist = [],
     live = [], llive = [], kalloc = (\<lambda>L k. Suc (fold max L 0)), kjunk = (\<lambda>_. ex_node),
     ljunk = (\<lambda>_. \<lparr>p_head = 0, rcuspin = None\<rparr>), kcnt = 0, rcu_nest = (\<lambda>_. 0), rcu_cbs = [],
     htm = (\<lambda>_. XBEGIN_STARTED), hcnt = 0, cpu_of = (\<lambda>_. 0), node_of = (\<lambda>_. 0), nodes_with_cpus = [0],
     abort_cnt = (\<lambda>_. zero_abort_cnt), ktime = (\<lambda>k. \<lparr>tv_sec = int k, tv_nsec = 0\<rparr>), tcnt = 0,
     bench_start_time = \<lparr>tv_sec = 0, tv_nsec = 0\<rparr>, duration = 100\<rparr>"

lemma fold_max_ge: "x \<in> set L \<Longrightarrow> x \<le> fold max L (y :: nat)"
  using Max_ge[of "set (y # L)" x] by (simp only: Max.set_eq_fold) simp

lemma ex_boot: "boot ex_boot"
proof -
  have "Suc (fold max L 0) \<notin> set L" for L :: "nat list"
    using fold_max_ge[of _ L 0] by force
  then show ?thesis
    by (simp add: boot_def heap_known_def env_ok_def pub_def ex_boot_def NULL_def NR_NUMA_NODES_def)
qed

definition ex_mach :: mach where
  "ex_mach = (case run 0 (rcu_hash_list_init 2) ex_boot of Returned _ m \<Rightarrow> m | _ \<Rightarrow> ex_boot)"

definition ex_table :: hash_list_t where
  "ex_table = the (g_hash_list ex_mach)"

lemma ex_ready:
  "table_ok ex_table" "n_buckets ex_table = 2" "coarse_idle ex_table ex_mach" "fine_idle t ex_table ex_mach"
  "table_set ex_table ex_mach = {}"
proof -
  obtain T m where i: "run 0 (rcu_hash_list_init 2) ex_boot = Returned 0 m" "table_ok T" "n_buckets T = 2"
    "coarse_idle T m" "\<forall>s. fine_idle s T m" "table_set T m = {}"
    using run_init[OF ex_boot, of 2 0] by (auto simp: MAX_BUCKETS_def)
  have m: "ex_mach = m" using i(1) by (simp add: ex_mach_def)
  then have "ex_table = T" using i(4) by (simp add: ex_table_def coarse_idle_def table_is_def)
  then show "table_ok ex_table" "n_buckets ex_table = 2" "coarse_idle ex_table ex_mach"
    "fine_idle t ex_table ex_mach" "table_set ex_table ex_mach = {}" using i m by simp_all
qed

subsection \<open>Two systems\<close>

text \<open>The calls of two threads, and what the first of them finishes with.\<close>

definition ex_coarse :: "tid \<Rightarrow> rcu_call list option" where
  "ex_coarse = [0 \<mapsto> [(Add, 3), (Contains, 3), (Remove, 5)], 1 \<mapsto> [(TryAdd, 4)]]"

definition ex_fine :: "tid \<Rightarrow> rcu_call list option" where
  "ex_fine = [0 \<mapsto> [(FgAdd, 3), (NumaAdd, 3), (NumaRemove, 3)], 1 \<mapsto> [(FgAdd, 4)]]"

lemma ex_calls:
  "\<And>t l. ex_coarse t = Some l \<Longrightarrow> \<forall>c \<in> set l. coarse_call c"
  "\<And>t l. ex_fine t = Some l \<Longrightarrow> \<forall>c \<in> set l. fine_call c"
  by (auto simp: ex_coarse_def ex_fine_def coarse_call_def fine_call_def valid_key_def LIST_VAL_MAX_def
      split: if_splits)

lemma ex_rest:
  "inv ex_mach" "fg_ok ex_mach" "table_is ex_table ex_mach"
  using ex_ready by (auto simp: coarse_idle_def fine_idle_def)

lemma ex_coarse_run: "\<exists>m. sys_reach (rcu_pool 1 ex_coarse, ex_mach)
    ((rcu_pool 1 ex_coarse)(0 \<mapsto> Ret [0, 0, 0]), m)"
proof -
  let ?cs = "[(Add, 3), (Contains, 3), (Remove, 5)]"
  have "\<exists>rs m'. run 0 (calls (rcu_hash_call 1) ?cs) ex_mach = Returned rs m' \<and> coarse_idle ex_table m' \<and>
      (rs, table_set ex_table m') = set_specs ?cs (table_set ex_table ex_mach)"
    by (rule coarse_calls_set[OF _ ex_ready(1,3)]) (use ex_calls(1)[of 0 ?cs] in \<open>simp add: ex_coarse_def\<close>)
  moreover have "fst (set_specs ?cs (table_set ex_table ex_mach)) = [0, 0, 0]"
    by (simp add: ex_ready(5) Let_def)
  ultimately obtain m' where r: "run 0 (calls (rcu_hash_call 1) ?cs) ex_mach = Returned [0, 0, 0] m'"
    by (metis fst_conv)
  have p: "rcu_pool 1 ex_coarse 0 = Some (calls (rcu_hash_call 1) ?cs)"
    unfolding rcu_pool_def ex_coarse_def by (simp del: calls.simps)
  show ?thesis by (rule exI, rule run_reach[where pool = "rcu_pool 1 ex_coarse", OF r sys_start p])
qed

lemma ex_fine_run: "\<exists>m. sys_reach (rcu_pool 1 ex_fine, ex_mach)
    ((rcu_pool 1 ex_fine)(0 \<mapsto> Ret [1, 0, 1]), m)"
proof -
  let ?cs = "[(FgAdd, 3), (NumaAdd, 3), (NumaRemove, 3)]"
  have "\<exists>rs m'. run 0 (calls (rcu_hash_call 1) ?cs) ex_mach = Returned rs m' \<and> fine_idle 0 ex_table m' \<and>
      (rs, table_set ex_table m') = set_specs ?cs (table_set ex_table ex_mach)"
    by (rule fine_calls_set[OF _ ex_ready(1,4)]) (use ex_calls(2)[of 0 ?cs] in \<open>simp_all add: ex_fine_def\<close>)
  moreover have "fst (set_specs ?cs (table_set ex_table ex_mach)) = [1, 0, 1]"
    by (simp add: ex_ready(5) Let_def)
  ultimately obtain m' where r: "run 0 (calls (rcu_hash_call 1) ?cs) ex_mach = Returned [1, 0, 1] m'"
    by (metis fst_conv)
  have p: "rcu_pool 1 ex_fine 0 = Some (calls (rcu_hash_call 1) ?cs)"
    unfolding rcu_pool_def ex_fine_def by (simp del: calls.simps)
  show ?thesis by (rule exI, rule run_reach[where pool = "rcu_pool 1 ex_fine", OF r sys_start p])
qed

lemma ex_own:
  "\<forall>c \<in> set (the (ex_coarse 0)). fst c \<notin> {TryAdd, TryRemove} \<and> slot ex_table (snd c) \<in> own_keys ex_table ex_coarse 0"
  "\<forall>c \<in> set (the (ex_fine 0)). slot ex_table (snd c) \<in> own_keys ex_table ex_fine 0"
  "the (ex_coarse 0) = [(Add, 3), (Contains, 3), (Remove, 5)]" "ex_coarse 0 \<noteq> None"
  "the (ex_fine 0) = [(FgAdd, 3), (NumaAdd, 3), (NumaRemove, 3)]" "ex_fine 0 \<noteq> None"
  by (simp_all add: ex_coarse_def ex_fine_def own_keys_def untouched_def slots_def slot_def rcu_api_def)

end
