(* ===== verification/RcxList.thy ===== *)
theory RcxList
  imports RcuList
begin

text \<open>
  rcx-hash-list.c, function by function: the list whose updates are hardware transactions
  (\<open>rcx_list_add\<close>), the versions that fall back to the lock of the list, after a number of
  aborts (\<open>lf\<close>) or when the hardware advises against a retry (\<open>fb1\<close>), and the versions whose
  transactions only take the locks of nodes (\<open>htmlock\<close>, \<open>hhtmlock\<close>, \<open>numa\<close>). \<open>w\<close> bounds a list walk,
  \<open>f\<close> the retries of a \<open>goto\<close>, and \<open>g\<close> a busy-wait on lock bytes. The unions of a node with a
  spinlock and a lock byte are separate fields: no version uses both members of one.
\<close>

subsection \<open>Nodes and lists\<close>

definition pnode_init :: "ptr \<Rightarrow> nat \<Rightarrow> unit prog" where
  "pnode_init p nodeid =
    (if nodeid < NR_NUMA_NODES then wr p (\<lambda>n. n\<lparr>pnode_locks := (pnode_locks n)(nodeid := 0)\<rparr>)
     else Fault)"

definition rcx_new_node :: "ptr prog" where
  "rcx_new_node =
    bind kmalloc_node (\<lambda>p_new_node.
    if p_new_node = NULL then Ret NULL else
    bind (wr p_new_node (\<lambda>n. n\<lparr>removed := 0\<rparr>)) (\<lambda>_.
    bind (pnode_init p_new_node 0) (\<lambda>_.
    bind (get (\<lambda>t m. nodes_with_cpus m)) (\<lambda>nodeids.
    bind (for_each nodeids (pnode_init p_new_node)) (\<lambda>_.
    bind (wr p_new_node (\<lambda>n. n\<lparr>global_lock := None\<rparr>)) (\<lambda>_.
    bind (wr p_new_node (\<lambda>n. n\<lparr>global_htmlock := 0\<rparr>)) (\<lambda>_.
    Ret p_new_node)))))))"

definition rcx_free_node :: "ptr \<Rightarrow> unit prog" where
  "rcx_free_node p_node = kfree_rcu p_node"

definition rcx_new_list :: "ptr prog" where
  "rcx_new_list =
    bind kmalloc_list (\<lambda>p_list.
    if p_list = NULL then Ret NULL else
    bind rcx_new_node (\<lambda>p_max_node.
    bind (set_val p_max_node LIST_VAL_MAX) (\<lambda>_.
    bind (set_next p_max_node NULL) (\<lambda>_.
    bind rcx_new_node (\<lambda>p_min_node.
    bind (set_val p_min_node LIST_VAL_MIN) (\<lambda>_.
    bind (set_next p_min_node p_max_node) (\<lambda>_.
    bind (set_head p_list p_min_node) (\<lambda>_.
    bind (set_list p_list (\<lambda>L. L\<lparr>rcuspin := None\<rparr>)) (\<lambda>_.
    Ret p_list)))))))))"

fun rcx_destroy_loop :: "nat \<Rightarrow> ptr \<Rightarrow> ptr \<Rightarrow> unit prog" where
  "rcx_destroy_loop 0 p_list iter = Diverge"
| "rcx_destroy_loop (Suc w) p_list iter =
    (if iter \<noteq> NULL then
       bind (rd iter p_next) (\<lambda>q.
       bind (set_head p_list q) (\<lambda>_.
       bind (kfree_node iter) (\<lambda>_.
       bind (rd iter p_next) (\<lambda>iter.
       rcx_destroy_loop w p_list iter))))
     else Ret ())"

definition rcx_list_destroy :: "nat \<Rightarrow> ptr \<Rightarrow> unit prog" where
  "rcx_list_destroy w p_list = bind (head_of p_list) (\<lambda>h. rcx_destroy_loop w p_list h)"

text \<open>The size loop of this file, over lists and over buckets.\<close>

fun rcx_list_size_loop :: "nat \<Rightarrow> ptr \<Rightarrow> int \<Rightarrow> int prog" where
  "rcx_list_size_loop 0 p_node sz = Diverge"
| "rcx_list_size_loop (Suc w) p_node sz =
    bind (rd p_node p_next) (\<lambda>q.
    if q \<noteq> NULL
    then bind (rd p_node p_next) (\<lambda>p_node. rcx_list_size_loop w p_node (sz + 1))
    else Ret sz)"

definition rcx_list_size :: "nat \<Rightarrow> ptr \<Rightarrow> int prog" where
  "rcx_list_size w p_list =
    bind (head_of p_list) (\<lambda>h.
    bind (rd h p_next) (\<lambda>p_node.
    rcx_list_size_loop w p_node 0))"

definition rcx_list_contains :: "nat \<Rightarrow> ptr \<Rightarrow> val_t \<Rightarrow> int prog" where
  "rcx_list_contains w p_list key =
    bind rcu_read_lock (\<lambda>_.
    bind (find_pos w p_list key) (\<lambda>(prev, next, v).
    bind rcu_read_unlock (\<lambda>_.
    Ret (of_bool (v = key)))))"

subsection \<open>Transactions\<close>

text \<open>The codes of \<open>_xabort\<close>.\<close>

definition xabort :: "nat \<Rightarrow> 8 word option prog" where
  "xabort code = Ret (Some (of_nat code))"

definition new_node_at :: "val_t \<Rightarrow> ptr \<Rightarrow> ptr prog" where
  "new_node_at key next =
    bind rcx_new_node (\<lambda>p_new_node.
    bind (set_val p_new_node key) (\<lambda>_.
    bind (set_next p_new_node next) (\<lambda>_.
    Ret p_new_node)))"

text \<open>The body of an insertion: validate, then publish.\<close>

definition link_tx :: "ptr \<Rightarrow> ptr \<Rightarrow> ptr \<Rightarrow> 8 word option prog" where
  "link_tx prev next p_new_node =
    bind (any_moved [(prev, next)]) (\<lambda>moved.
    if moved then xabort ABORT_CONFLICT else
    bind (any_removed [prev, next]) (\<lambda>gone.
    if gone then xabort ABORT_DOUBLE_FREE else
    bind (rcu_assign_next prev p_new_node) (\<lambda>_.
    Ret None)))"

text \<open>The body of a removal: validate, bypass and mark.\<close>

definition unlink_tx :: "ptr \<Rightarrow> ptr \<Rightarrow> ptr \<Rightarrow> 8 word option prog" where
  "unlink_tx prev next n =
    bind (any_removed [prev, next, n]) (\<lambda>gone.
    if gone then xabort ABORT_DOUBLE_FREE else
    bind (any_moved [(prev, next), (next, n)]) (\<lambda>moved.
    if moved then xabort ABORT_CONFLICT else
    bind (rcu_assign_next prev n) (\<lambda>_.
    bind (set_removed next) (\<lambda>_.
    Ret None))))"

text \<open>The versions with a fallback read the lock of the list first.\<close>

definition if_unlocked :: "ptr \<Rightarrow> 8 word option prog \<Rightarrow> 8 word option prog" where
  "if_unlocked p_list body =
    bind (spin_is_locked (RcuSpin p_list)) (\<lambda>b.
    if b then xabort ABORT_LF_CONFLICT else body)"

subsection \<open>One transaction\<close>

definition rcx_list_add :: "nat \<Rightarrow> ptr \<Rightarrow> val_t \<Rightarrow> int prog" where
  "rcx_list_add w p_list key =
    bind rcu_read_lock (\<lambda>_.
    bind (find_pos w p_list key) (\<lambda>(prev, next, v).
    if v \<noteq> key then
      bind (new_node_at key next) (\<lambda>p_new_node.
      bind (xact (link_tx prev next p_new_node)) (\<lambda>tx_stat.
      if tx_stat = XBEGIN_STARTED then
        bind rcu_read_unlock (\<lambda>_. Ret 1)
      else
        bind rcu_read_unlock (\<lambda>_.
        bind (record_abort tx_stat) (\<lambda>_.
        bind (kfree_node p_new_node) (\<lambda>_.
        Ret 2)))))
    else bind rcu_read_unlock (\<lambda>_. Ret 0)))"

definition rcx_list_remove :: "nat \<Rightarrow> ptr \<Rightarrow> val_t \<Rightarrow> int prog" where
  "rcx_list_remove w p_list key =
    bind rcu_read_lock (\<lambda>_.
    bind (find_pos w p_list key) (\<lambda>(prev, next, _).
    bind (rd next val) (\<lambda>v.
    if v = key then
      bind (rd next p_next) (\<lambda>n.
      bind (xact (unlink_tx prev next n)) (\<lambda>tx_stat.
      if tx_stat = XBEGIN_STARTED then
        bind rcu_read_unlock (\<lambda>_.
        bind (rcx_free_node next) (\<lambda>_.
        Ret 1))
      else
        bind rcu_read_unlock (\<lambda>_.
        bind (record_abort tx_stat) (\<lambda>_.
        Ret 2))))
    else Ret 0)))"

subsection \<open>Falling back to the lock\<close>

definition LF_RETRY_LIMIT :: nat where "LF_RETRY_LIMIT = 10"

definition new_after :: "ptr \<Rightarrow> ptr \<Rightarrow> val_t \<Rightarrow> unit prog" where
  "new_after prev next key =
    bind (new_node_at key next) (\<lambda>p_new_node. rcu_assign_next prev p_new_node)"

text \<open>The locked path of an insertion, inside the read-side section.\<close>

definition locked_add :: "nat \<Rightarrow> ptr \<Rightarrow> val_t \<Rightarrow> int prog" where
  "locked_add w p_list key =
    bind (spin_lock (RcuSpin p_list)) (\<lambda>_.
    bind (find_pos w p_list key) (\<lambda>(prev, next, v).
    bind (if v \<noteq> key then new_after prev next key else Ret ()) (\<lambda>_.
    bind (spin_unlock (RcuSpin p_list)) (\<lambda>_.
    bind rcu_read_unlock (\<lambda>_.
    Ret (of_bool (v \<noteq> key)))))))"

text \<open>The locked path of a removal marks \<open>n\<close>, the successor of the node it bypasses.\<close>

definition locked_remove :: "nat \<Rightarrow> ptr \<Rightarrow> val_t \<Rightarrow> int prog" where
  "locked_remove w p_list key =
    bind (spin_lock (RcuSpin p_list)) (\<lambda>_.
    bind (find_pos w p_list key) (\<lambda>(prev, next, _).
    bind (rd next val) (\<lambda>v.
    if v = key then
      bind (rd next p_next) (\<lambda>n.
      bind (rcu_assign_next prev n) (\<lambda>_.
      bind (set_removed n) (\<lambda>_.
      bind (spin_unlock (RcuSpin p_list)) (\<lambda>_.
      bind rcu_read_unlock (\<lambda>_.
      bind (rcx_free_node next) (\<lambda>_.
      Ret 1))))))
    else
      bind (spin_unlock (RcuSpin p_list)) (\<lambda>_.
      bind rcu_read_unlock (\<lambda>_.
      Ret 0)))))"

text \<open>\<open>retries\<close> is the counter before the test increments it.\<close>

function lf_add_from :: "nat \<Rightarrow> ptr \<Rightarrow> val_t \<Rightarrow> nat \<Rightarrow> int prog" where
  "lf_add_from w p_list key retries =
    bind rcu_read_lock (\<lambda>_.
    if LF_RETRY_LIMIT < retries then locked_add w p_list key
    else
      bind (find_pos w p_list key) (\<lambda>(prev, next, v).
      if v \<noteq> key then
        bind (new_node_at key next) (\<lambda>p_new_node.
        bind (wait_unlocked (RcuSpin p_list)) (\<lambda>_.
        bind (xact (if_unlocked p_list (link_tx prev next p_new_node))) (\<lambda>tx_stat.
        if tx_stat = XBEGIN_STARTED then
          bind rcu_read_unlock (\<lambda>_. Ret 1)
        else
          bind (record_abort tx_stat) (\<lambda>_.
          bind (kfree_node p_new_node) (\<lambda>_.
          bind rcu_read_unlock (\<lambda>_.
          lf_add_from w p_list key (Suc retries)))))))
      else bind rcu_read_unlock (\<lambda>_. Ret 0)))"
  by pat_completeness auto
termination
  by (relation "measure (\<lambda>(w, p_list, key, retries). Suc LF_RETRY_LIMIT - retries)") auto

declare lf_add_from.simps [simp del]

definition rcx_list_lf_add :: "nat \<Rightarrow> ptr \<Rightarrow> val_t \<Rightarrow> int prog" where
  "rcx_list_lf_add w p_list key = lf_add_from w p_list key 0"

function lf_remove_from :: "nat \<Rightarrow> ptr \<Rightarrow> val_t \<Rightarrow> nat \<Rightarrow> int prog" where
  "lf_remove_from w p_list key retries =
    bind rcu_read_lock (\<lambda>_.
    if LF_RETRY_LIMIT \<le> retries then locked_remove w p_list key
    else
      bind (find_pos w p_list key) (\<lambda>(prev, next, _).
      bind (rd next val) (\<lambda>v.
      if v = key then
        bind (wait_unlocked (RcuSpin p_list)) (\<lambda>_.
        bind (rd next p_next) (\<lambda>n.
        bind (xact (if_unlocked p_list (unlink_tx prev next n))) (\<lambda>tx_stat.
        if tx_stat = XBEGIN_STARTED then
          bind rcu_read_unlock (\<lambda>_.
          bind (rcx_free_node next) (\<lambda>_.
          Ret 1))
        else
          bind rcu_read_unlock (\<lambda>_.
          bind (record_abort tx_stat) (\<lambda>_.
          lf_remove_from w p_list key (Suc retries))))))
      else bind rcu_read_unlock (\<lambda>_. Ret 0))))"
  by pat_completeness auto
termination
  by (relation "measure (\<lambda>(w, p_list, key, retries). LF_RETRY_LIMIT - retries)") auto

declare lf_remove_from.simps [simp del]

definition rcx_list_lf_remove :: "nat \<Rightarrow> ptr \<Rightarrow> val_t \<Rightarrow> int prog" where
  "rcx_list_lf_remove w p_list key = lf_remove_from w p_list key 0"

text \<open>The first candidate: the retry bit of the status decides. The locked path of the removal does
  not enter a read-side section, but leaves one.\<close>

fun rcx_list_fb1_add :: "nat \<Rightarrow> nat \<Rightarrow> ptr \<Rightarrow> val_t \<Rightarrow> int prog" where
  "rcx_list_fb1_add w 0 p_list key = Diverge"
| "rcx_list_fb1_add w (Suc f) p_list key =
    bind rcu_read_lock (\<lambda>_.
    bind (find_pos w p_list key) (\<lambda>(prev, next, v).
    if v \<noteq> key then
      bind (new_node_at key next) (\<lambda>p_new_node.
      bind (wait_unlocked (RcuSpin p_list)) (\<lambda>_.
      bind (xact (if_unlocked p_list (link_tx prev next p_new_node))) (\<lambda>tx_stat.
      if tx_stat = XBEGIN_STARTED then
        bind rcu_read_unlock (\<lambda>_. Ret 1)
      else
        bind rcu_read_unlock (\<lambda>_.
        bind (record_abort tx_stat) (\<lambda>_.
        bind (kfree_node p_new_node) (\<lambda>_.
        if tx_stat AND XABORT_RETRY \<noteq> 0 then rcx_list_fb1_add w f p_list key
        else bind rcu_read_lock (\<lambda>_. locked_add w p_list key)))))))
    else bind rcu_read_unlock (\<lambda>_. Ret 0)))"

fun rcx_list_fb1_remove :: "nat \<Rightarrow> nat \<Rightarrow> ptr \<Rightarrow> val_t \<Rightarrow> int prog" where
  "rcx_list_fb1_remove w 0 p_list key = Diverge"
| "rcx_list_fb1_remove w (Suc f) p_list key =
    bind rcu_read_lock (\<lambda>_.
    bind (find_pos w p_list key) (\<lambda>(prev, next, _).
    bind (rd next val) (\<lambda>v.
    if v = key then
      bind (wait_unlocked (RcuSpin p_list)) (\<lambda>_.
      bind (rd next p_next) (\<lambda>n.
      bind (xact (if_unlocked p_list (unlink_tx prev next n))) (\<lambda>tx_stat.
      if tx_stat = XBEGIN_STARTED then
        bind (rcx_free_node next) (\<lambda>_.
        bind rcu_read_unlock (\<lambda>_.
        Ret 1))
      else
        bind rcu_read_unlock (\<lambda>_.
        bind (record_abort tx_stat) (\<lambda>_.
        if tx_stat AND XABORT_RETRY \<noteq> 0 then rcx_list_fb1_remove w f p_list key
        else locked_remove w p_list key)))))
    else bind rcu_read_unlock (\<lambda>_. Ret 0))))"

subsection \<open>Transactions that take lock bytes\<close>

definition htmlock_of :: "ptr \<Rightarrow> int prog" where
  "htmlock_of p = rd p global_htmlock"

definition set_htmlock :: "int \<Rightarrow> ptr \<Rightarrow> unit prog" where
  "set_htmlock b p = wr p (\<lambda>n. n\<lparr>global_htmlock := b\<rparr>)"

text \<open>\<open>pnodelock(p)\<close>: the byte of the NUMA node the thread runs on.\<close>

definition pnodelock_of :: "ptr \<Rightarrow> int prog" where
  "pnodelock_of p = bind numa_node_id (\<lambda>i.
     if i < NR_NUMA_NODES then rd p (\<lambda>n. pnode_locks n i) else Fault)"

definition set_pnodelock :: "int \<Rightarrow> ptr \<Rightarrow> unit prog" where
  "set_pnodelock b p = bind numa_node_id (\<lambda>i.
     if i < NR_NUMA_NODES then wr p (\<lambda>n. n\<lparr>pnode_locks := (pnode_locks n)(i := b)\<rparr>) else Fault)"

fun any_taken :: "(ptr \<Rightarrow> int prog) \<Rightarrow> ptr list \<Rightarrow> bool prog" where
  "any_taken lk [] = Ret False"
| "any_taken lk (p # ps) = bind (lk p) (\<lambda>b. if b = 1 then Ret True else any_taken lk ps)"

text \<open>The transaction that takes the lock bytes of some nodes, all or none.\<close>

definition grab_tx :: "(ptr \<Rightarrow> int prog) \<Rightarrow> (int \<Rightarrow> ptr \<Rightarrow> unit prog) \<Rightarrow> ptr list \<Rightarrow> 8 word option prog" where
  "grab_tx lk set_lk ps =
    bind (any_taken lk ps) (\<lambda>b.
    if b then xabort ABORT_CONFLICT else
    bind (for_each ps (set_lk 1)) (\<lambda>_.
    Ret None))"

text \<open>\<open>record_abort(ABORT_CONFLICT)\<close>: the reason is passed where a status is expected.\<close>

definition record_reason :: "nat \<Rightarrow> unit prog" where
  "record_reason reason = record_abort (of_nat reason)"

fun rcx_list_htmlock_add :: "nat \<Rightarrow> nat \<Rightarrow> nat \<Rightarrow> ptr \<Rightarrow> val_t \<Rightarrow> int prog" where
  "rcx_list_htmlock_add w g 0 p_list key = Diverge"
| "rcx_list_htmlock_add w g (Suc f) p_list key =
    bind rcu_read_lock (\<lambda>_.
    bind (find_pos w p_list key) (\<lambda>(prev, next, v).
    if v \<noteq> key then
      bind (new_node_at key next) (\<lambda>p_new_node.
      bind (spin_while g (any_taken htmlock_of [prev, next])) (\<lambda>_.
      bind (xact (grab_tx htmlock_of set_htmlock [prev, next])) (\<lambda>tx_stat.
      if tx_stat \<noteq> XBEGIN_STARTED then
        bind rcu_read_unlock (\<lambda>_.
        bind (record_abort tx_stat) (\<lambda>_.
        bind (kfree_node p_new_node) (\<lambda>_.
        rcx_list_htmlock_add w g f p_list key)))
      else
        let unlock_retry =
          bind (for_each [next, prev] (set_htmlock 0)) (\<lambda>_.
          bind rcu_read_unlock (\<lambda>_.
          bind (kfree_node p_new_node) (\<lambda>_.
          rcx_list_htmlock_add w g f p_list key)))
        in
        bind (any_moved [(prev, next)]) (\<lambda>moved.
        if moved then
          bind rcu_read_unlock (\<lambda>_.
          bind (record_reason ABORT_CONFLICT) (\<lambda>_. unlock_retry))
        else
        bind (any_removed [prev, next]) (\<lambda>gone.
        if gone then
          bind rcu_read_unlock (\<lambda>_.
          bind (record_reason ABORT_DOUBLE_FREE) (\<lambda>_. unlock_retry))
        else
        bind (rcu_assign_next prev p_new_node) (\<lambda>_.
        bind (for_each [next, prev] (set_htmlock 0)) (\<lambda>_.
        bind rcu_read_unlock (\<lambda>_.
        Ret 1))))))))
    else bind rcu_read_unlock (\<lambda>_. Ret 0)))"

fun rcx_list_htmlock_remove :: "nat \<Rightarrow> nat \<Rightarrow> nat \<Rightarrow> ptr \<Rightarrow> val_t \<Rightarrow> int prog" where
  "rcx_list_htmlock_remove w g 0 p_list key = Diverge"
| "rcx_list_htmlock_remove w g (Suc f) p_list key =
    bind rcu_read_lock (\<lambda>_.
    bind (find_pos w p_list key) (\<lambda>(prev, next, _).
    bind (rd next val) (\<lambda>v.
    if v = key then
      bind (rd next p_next) (\<lambda>n.
      bind (spin_while g (any_taken htmlock_of [prev, next, n])) (\<lambda>_.
      bind (xact (grab_tx htmlock_of set_htmlock [prev, next, n])) (\<lambda>tx_stat.
      if tx_stat \<noteq> XBEGIN_STARTED then
        bind rcu_read_unlock (\<lambda>_.
        bind (record_abort tx_stat) (\<lambda>_.
        rcx_list_htmlock_remove w g f p_list key))
      else
        let unlock_retry =
          bind (for_each [n, next, prev] (set_htmlock 0)) (\<lambda>_.
          bind rcu_read_unlock (\<lambda>_.
          rcx_list_htmlock_remove w g f p_list key))
        in
        bind (any_removed [prev, next, n]) (\<lambda>gone.
        if gone then
          bind (record_reason ABORT_DOUBLE_FREE) (\<lambda>_.
          bind rcu_read_unlock (\<lambda>_. unlock_retry))
        else
        bind (any_moved [(prev, next), (next, n)]) (\<lambda>moved.
        if moved then
          bind (record_reason ABORT_CONFLICT) (\<lambda>_.
          bind rcu_read_unlock (\<lambda>_. unlock_retry))
        else
        bind (rcu_assign_next prev n) (\<lambda>_.
        bind (set_removed next) (\<lambda>_.
        bind (rcx_free_node next) (\<lambda>_.
        bind (for_each [n, next, prev] (set_htmlock 0)) (\<lambda>_.
        bind rcu_read_unlock (\<lambda>_.
        Ret 1))))))))))
    else bind rcu_read_unlock (\<lambda>_. Ret 0))))"

subsection \<open>Hierarchical locks\<close>

text \<open>\<open>retry_global_lock\<close>: the second level. Each abort leaves the read-side section once more.\<close>

fun grab_global :: "nat \<Rightarrow> nat \<Rightarrow> ptr list \<Rightarrow> unit prog" where
  "grab_global g 0 ps = Diverge"
| "grab_global g (Suc f) ps =
    bind (spin_while g (any_taken htmlock_of ps)) (\<lambda>_.
    bind (xact (grab_tx htmlock_of set_htmlock ps)) (\<lambda>tx_stat.
    if tx_stat = XBEGIN_STARTED then Ret ()
    else
      bind rcu_read_unlock (\<lambda>_.
      bind (record_abort tx_stat) (\<lambda>_.
      grab_global g f ps))))"

fun rcx_list_hhtmlock_add :: "nat \<Rightarrow> nat \<Rightarrow> nat \<Rightarrow> ptr \<Rightarrow> val_t \<Rightarrow> int prog" where
  "rcx_list_hhtmlock_add w g 0 p_list key = Diverge"
| "rcx_list_hhtmlock_add w g (Suc f) p_list key =
    bind rcu_read_lock (\<lambda>_.
    bind (find_pos w p_list key) (\<lambda>(prev, next, v).
    if v \<noteq> key then
      bind (new_node_at key next) (\<lambda>p_new_node.
      bind (spin_while g (any_taken pnodelock_of [prev, next])) (\<lambda>_.
      bind (xact (grab_tx pnodelock_of set_pnodelock [prev, next])) (\<lambda>tx_stat.
      if tx_stat \<noteq> XBEGIN_STARTED then
        bind rcu_read_unlock (\<lambda>_.
        bind (record_abort tx_stat) (\<lambda>_.
        bind (kfree_node p_new_node) (\<lambda>_.
        rcx_list_hhtmlock_add w g f p_list key)))
      else
        let unlock_retry =
          bind (for_each [prev, next] (set_htmlock 0)) (\<lambda>_.
          bind (for_each [next, prev] (set_pnodelock 0)) (\<lambda>_.
          bind (kfree_node p_new_node) (\<lambda>_.
          bind rcu_read_unlock (\<lambda>_.
          rcx_list_hhtmlock_add w g f p_list key))))
        in
        bind (grab_global g (Suc f) [prev, next]) (\<lambda>_.
        bind (any_moved [(prev, next)]) (\<lambda>moved.
        if moved then
          bind rcu_read_unlock (\<lambda>_.
          bind (record_reason ABORT_CONFLICT) (\<lambda>_. unlock_retry))
        else
        bind (any_removed [prev, next]) (\<lambda>gone.
        if gone then
          bind rcu_read_unlock (\<lambda>_.
          bind (record_reason ABORT_DOUBLE_FREE) (\<lambda>_. unlock_retry))
        else
        bind (rcu_assign_next prev p_new_node) (\<lambda>_.
        bind (for_each [prev, next] (set_htmlock 0)) (\<lambda>_.
        bind (for_each [prev, next] (set_pnodelock 0)) (\<lambda>_.
        bind rcu_read_unlock (\<lambda>_.
        Ret 1))))))))))
    else bind rcu_read_unlock (\<lambda>_. Ret 0)))"

fun rcx_list_hhtmlock_remove :: "nat \<Rightarrow> nat \<Rightarrow> nat \<Rightarrow> ptr \<Rightarrow> val_t \<Rightarrow> int prog" where
  "rcx_list_hhtmlock_remove w g 0 p_list key = Diverge"
| "rcx_list_hhtmlock_remove w g (Suc f) p_list key =
    bind rcu_read_lock (\<lambda>_.
    bind (find_pos w p_list key) (\<lambda>(prev, next, _).
    bind (rd next val) (\<lambda>v.
    if v = key then
      bind (rd next p_next) (\<lambda>n.
      bind (spin_while g (any_taken pnodelock_of [prev, next, n])) (\<lambda>_.
      bind (xact (grab_tx pnodelock_of set_pnodelock [prev, next, n])) (\<lambda>tx_stat.
      if tx_stat \<noteq> XBEGIN_STARTED then
        bind rcu_read_unlock (\<lambda>_.
        bind (record_abort tx_stat) (\<lambda>_.
        rcx_list_hhtmlock_remove w g f p_list key))
      else
        let unlock_retry =
          bind (for_each [n, next, prev] (set_htmlock 0)) (\<lambda>_.
          bind (for_each [n, next, prev] (set_pnodelock 0)) (\<lambda>_.
          bind rcu_read_unlock (\<lambda>_.
          rcx_list_hhtmlock_remove w g f p_list key)))
        in
        bind (grab_global g (Suc f) [prev, next, n]) (\<lambda>_.
        bind (any_removed [prev, next, n]) (\<lambda>gone.
        if gone then
          bind rcu_read_unlock (\<lambda>_.
          bind (record_reason ABORT_DOUBLE_FREE) (\<lambda>_. unlock_retry))
        else
        bind (any_moved [(prev, next), (next, n)]) (\<lambda>moved.
        if moved then
          bind rcu_read_unlock (\<lambda>_.
          bind (record_reason ABORT_CONFLICT) (\<lambda>_. unlock_retry))
        else
        bind (rcu_assign_next prev n) (\<lambda>_.
        bind (set_removed next) (\<lambda>_.
        bind (rcx_free_node next) (\<lambda>_.
        bind (for_each [n, next, prev] (set_htmlock 0)) (\<lambda>_.
        bind (for_each [n, next, prev] (set_pnodelock 0)) (\<lambda>_.
        bind rcu_read_unlock (\<lambda>_.
        Ret 1))))))))))))
    else bind rcu_read_unlock (\<lambda>_. Ret 0))))"

end
