(* ===== verification/RcxTx.thy ===== *)
theory RcxTx
  imports ListLock RcxList
begin

text \<open>
  The transactions of rcx-hash-list.c and the invariant their validation rests on. A node that has
  left its list is marked removed, or its successor is: a transaction marks the node that it bypasses,
  the locked path of a removal marks the node after it. So neighbours that are both unmarked are in
  the list (\<open>calm\<close>). Transactions that run beside locked updates look at the lock of the list
  first, so for them this has to hold only while that lock is free.
\<close>

subsection \<open>The invariant\<close>

definition calm_but :: "ptr set \<Rightarrow> ptr \<Rightarrow> mach \<Rightarrow> bool" where
  "calm_but Z l m \<longleftrightarrow>
    (\<forall>p. pub m l p \<and> \<not> rmvd m p \<and> \<not> rmvd m (nxt m p) \<and> nxt m p \<notin> Z \<longrightarrow> in_chain m l p)"

abbreviation calm :: "ptr \<Rightarrow> mach \<Rightarrow> bool" where
  "calm \<equiv> calm_but {}"

definition tx_ok :: "(spinlock \<Rightarrow> bool) \<Rightarrow> mach \<Rightarrow> bool" where
  "tx_ok P m \<longleftrightarrow> inv m \<and> (\<forall>l L. lists m l = Some L \<longrightarrow> P (rcuspin L) \<longrightarrow> calm l m)"

lemma tx_inv: "tx_ok P m \<Longrightarrow> inv m"
  by (simp add: tx_ok_def)

lemma rmvd_null: "wfm m \<Longrightarrow> \<not> rmvd m NULL"
  by (simp add: rmvd_def wfm_def)

lemma calm_frame:
  assumes "wfm m" "wfm m'" "frame_eq m m'" "\<And>p. pub m l p \<Longrightarrow> rmvd m' p = rmvd m p" "calm_but Z l m"
  shows "calm_but Z l m'"
  unfolding calm_but_def
proof (intro allI impI)
  fix p assume p: "pub m' l p \<and> \<not> rmvd m' p \<and> \<not> rmvd m' (nxt m' p) \<and> nxt m' p \<notin> Z"
  then have q: "pub m l p" "nxt m' p = nxt m p" using assms(3) by (auto simp: frame_eq_def)
  have "rmvd m' (nxt m p) = rmvd m (nxt m p)"
  proof (cases "nxt m p = NULL")
    case True
    then show ?thesis using rmvd_null assms(1,2) by simp
  next
    case False
    then show ?thesis using wf_next[OF assms(1) q(1)] assms(4) by blast
  qed
  then have "in_chain m l p" using p q assms(4)[OF q(1)] assms(5) by (simp add: calm_but_def)
  then show "in_chain m' l p"
    using frame_in_chain[OF assms(1,3) wf_pub_list[OF assms(1) q(1)]] by simp
qed

lemma tx_ok_frame:
  assumes "tx_ok P m" "inv m'" "frame_eq m m'" "\<And>l p. pub m l p \<Longrightarrow> rmvd m' p = rmvd m p"
    and "\<And>l L'. lists m' l = Some L' \<Longrightarrow> P (rcuspin L') \<Longrightarrow> calm l m \<or> (\<exists>L. lists m l = Some L \<and> P (rcuspin L))"
  shows "tx_ok P m'"
  unfolding tx_ok_def
proof (intro conjI allI impI)
  fix l L' assume "lists m' l = Some L'" "P (rcuspin L')"
  then have "calm l m" using assms(1,5) unfolding tx_ok_def by blast
  then show "calm l m'"
    using calm_frame[OF inv_wfm inv_wfm assms(3)] tx_inv[OF assms(1)] assms(2,4) by blast
qed (rule assms(2))

lemma tx_ok_local:
  assumes "tx_ok P m" "local_step t m m'"
  shows "tx_ok P m'"
proof (rule tx_ok_frame[OF assms(1)])
  show "inv m'"
    using inv_frame[OF tx_inv[OF assms(1)] local_frame(1)[OF assms(2)]] assms(2) by (simp add: local_step_def)
  show "lists m' l = Some L' \<Longrightarrow> P (rcuspin L') \<Longrightarrow> calm l m \<or> (\<exists>L. lists m l = Some L \<and> P (rcuspin L))"
    for l L' using assms(2) by (simp add: local_step_def)
qed (use local_frame[OF assms(2)] in auto)

lemma calm_nest: "calm_but Z l (m\<lparr>rcu_nest := f\<rparr>) = calm_but Z l m"
  by (simp add: calm_but_def pub_def nxt_def[abs_def] rmvd_def in_chain_def hd_of_def)

lemma tx_ok_nest: "tx_ok P m \<Longrightarrow> tx_ok P (m\<lparr>rcu_nest := f\<rparr>)"
  by (simp add: tx_ok_def inv_nest calm_nest)

subsection \<open>The structural steps\<close>

text \<open>Publishing a node keeps every list calm.\<close>

lemma calm_link:
  assumes "can_link t l a x m" "calm l' m"
  shows "calm l' (assign_next t a x m)"
  unfolding calm_but_def
proof (intro allI impI)
  let ?m = "assign_next t a x m"
  obtain n where n: "mem m a = Some n" using can_link_mem[OF assms(1)] by blast
  note pr = assign_next_proj[OF n]
  have a: "pub m l a" "in_chain m l a" using assms(1) by (auto simp: can_link_def)
  fix p assume p: "pub ?m l' p \<and> \<not> rmvd ?m p \<and> \<not> rmvd ?m (nxt ?m p) \<and> nxt ?m p \<notin> {}"
  consider "p = x" "l' = l" | "pub m l' p" using p link_pub[OF assms(1)] by blast
  then show "in_chain ?m l' p"
  proof cases
    case 1
    then show ?thesis using link_in_chain_new[OF assms(1)] by simp
  next
    case 2
    have "in_chain m l' p"
    proof (cases "p = a")
      case True
      then show ?thesis using a 2 pub_fun by blast
    next
      case False
      then show ?thesis using p 2 assms(2) by (auto simp: calm_but_def pr)
    qed
    then show ?thesis by (rule link_in_chain[OF assms(1)])
  qed
qed

text \<open>Marking one published node as removed.\<close>

definition mark :: "ptr \<Rightarrow> mach \<Rightarrow> mach" where
  "mark p m = (case mem m p of Some n \<Rightarrow> set_node p (n\<lparr>removed := 1\<rparr>) m | None \<Rightarrow> m)"

lemma mark_proj:
  "nxt (mark p m) = nxt m" "vl (mark p m) = vl m" "lists (mark p m) = lists m" "hd_of (mark p m) = hd_of m"
  "own (mark p m) = own m" "hist (mark p m) = hist m" "pub (mark p m) = pub m"
  "rcu_nest (mark p m) = rcu_nest m" "const_eq m (mark p m)" "in_chain (mark p m) = in_chain m"
  "q \<noteq> p \<Longrightarrow> mem (mark p m) q = mem m q" "book_eq m (mark p m)"
proof -
  have a: "nxt (mark p m) = nxt m" "hd_of (mark p m) = hd_of m"
    by (auto simp: mark_def set_node_def nxt_def[abs_def] hd_of_def[abs_def] fun_eq_iff split: option.splits)
  then show "nxt (mark p m) = nxt m" "hd_of (mark p m) = hd_of m" "in_chain (mark p m) = in_chain m"
    by (simp_all add: in_chain_def[abs_def])
  show "vl (mark p m) = vl m" "lists (mark p m) = lists m"
    "own (mark p m) = own m" "hist (mark p m) = hist m" "pub (mark p m) = pub m"
    "rcu_nest (mark p m) = rcu_nest m" "const_eq m (mark p m)"
    "q \<noteq> p \<Longrightarrow> mem (mark p m) q = mem m q" "book_eq m (mark p m)"
    by (auto simp: mark_def set_node_def vl_def[abs_def] pub_def[abs_def]
        const_eq_def book_eq_def fun_eq_iff split: option.splits)
qed

lemma rmvd_mark: "mem m p \<noteq> None \<Longrightarrow> rmvd (mark p m) q \<longleftrightarrow> q = p \<or> rmvd m q"
  by (auto simp: rmvd_def mark_def set_node_def split: option.splits)

lemma mark_frame: "frame_eq m (mark p m)"
  by (simp add: frame_eq_def mark_proj)

lemma inv_mark: "inv m \<Longrightarrow> inv (mark p m)"
  by (rule inv_frame[OF _ mark_frame])
    (auto simp: mark_proj inv_def wfm_def heap_ok_def const_eq_def mark_def set_node_def split: option.splits)

text \<open>Bypassing the successor of \<open>a\<close> and marking it, or the node after it, keeps every list calm; the
  bypass alone keeps the other lists calm.\<close>

lemma calm_unlink_other:
  assumes "can_unlink l a m" "calm l' m" "l' \<noteq> l"
  shows "calm l' (unlink t a m)"
  unfolding calm_but_def
proof (intro allI impI)
  let ?m = "unlink t a m"
  note u = can_unlinkD[OF assms(1)]
  obtain n where n: "mem m a = Some n" using u(2) by (auto simp: pub_def)
  fix p assume p: "pub ?m l' p \<and> \<not> rmvd ?m p \<and> \<not> rmvd ?m (nxt ?m p) \<and> nxt ?m p \<notin> {}"
  then have q: "pub m l' p" using unlink_pub[OF assms(1)] by blast
  then have "p \<noteq> a" "p \<noteq> nxt m a" using u(2,6) assms(3) pub_fun by blast+
  then show "in_chain ?m l' p"
    using p q assms(2) unlink_in_chain[OF assms(1)] by (auto simp: calm_but_def assign_next_proj[OF n])
qed

text \<open>Between the bypass and the marking of \<open>z\<close> the list is calm but for the nodes before \<open>z\<close>.\<close>

lemma calm_bypass:
  assumes "can_unlink l a m" "calm l' m" "z = nxt m (nxt m a)"
  shows "calm_but {z} l' (unlink t a m)"
  unfolding calm_but_def
proof (intro allI impI)
  let ?m = "unlink t a m"
  note u = can_unlinkD[OF assms(1)]
  obtain n where n: "mem m a = Some n" using u(2) by (auto simp: pub_def)
  note pr = assign_next_proj[OF n]
  fix p assume p: "pub ?m l' p \<and> \<not> rmvd ?m p \<and> \<not> rmvd ?m (nxt ?m p) \<and> nxt ?m p \<notin> {z}"
  then have q: "pub m l' p" "p \<noteq> a" using unlink_pub[OF assms(1)] by (auto simp: pr assms(3))
  then have e: "nxt ?m p = nxt m p" by (simp add: pr)
  have "p \<noteq> nxt m a" using p e assms(3) by auto
  moreover have "in_chain m l' p" using p q e assms(2) by (simp add: calm_but_def pr)
  ultimately show "in_chain ?m l' p" using unlink_in_chain[OF assms(1)] by blast
qed

lemma calm_marked: "mem m z \<noteq> None \<Longrightarrow> calm_but (insert z Z) l m \<Longrightarrow> calm_but Z l (mark z m)"
  by (auto simp: calm_but_def mark_proj rmvd_mark)

lemma calm_mark: "calm_but Z l m \<Longrightarrow> calm_but Z l (mark z m)"
  by (cases "mem m z = None") (auto simp: calm_but_def mark_proj rmvd_mark, simp add: mark_def)

lemma calm_unlink:
  assumes "can_unlink l a m" "calm l' m" "z = nxt m a \<or> z = nxt m (nxt m a)"
  shows "calm l' (mark z (unlink t a m))"
  unfolding calm_but_def
proof (intro allI impI)
  let ?u = "unlink t a m"
  let ?m = "mark z ?u"
  note u = can_unlinkD[OF assms(1)]
  obtain n where n: "mem m a = Some n" using u(2) by (auto simp: pub_def)
  note pr = assign_next_proj[OF n]
  have z: "mem ?u z \<noteq> None" using assms(3) u(6,7) unlink_pub[OF assms(1), of t] by (auto simp: pub_def)
  fix p assume p: "pub ?m l' p \<and> \<not> rmvd ?m p \<and> \<not> rmvd ?m (nxt ?m p) \<and> nxt ?m p \<notin> {}"
  then have q: "pub m l' p" using unlink_pub[OF assms(1)] by (simp add: mark_proj)
  have nz: "p \<noteq> z" "nxt ?u p \<noteq> z" "\<not> rmvd m p" "\<not> rmvd m (nxt ?u p)"
    using p by (auto simp: rmvd_mark[OF z] mark_proj pr(3))
  have py: "p \<noteq> nxt m a" using assms(3) nz(1,2) u(11) by (auto simp: pr(1))
  have "in_chain m l' p"
  proof (cases "p = a")
    case True
    then show ?thesis using q u(2,3) pub_fun by blast
  next
    case False
    then show ?thesis using q nz(3,4) assms(2) by (simp add: calm_but_def pr(1))
  qed
  then show "in_chain ?m l' p"
    using unlink_in_chain[OF assms(1) _ py] by (simp add: mark_proj)
qed

lemma tx_link: "tx_ok P m \<Longrightarrow> can_link t l a x m \<Longrightarrow> tx_ok P (assign_next t a x m)"
  unfolding tx_ok_def using link_inv calm_link can_link_mem[of t l a x m]
  by (auto simp: assign_next_proj)

lemma tx_unlink:
  assumes "tx_ok P m" "can_unlink l a m" "z = nxt m a \<or> z = nxt m (nxt m a)"
  shows "tx_ok P (mark z (unlink t a m))"
proof -
  have "mem m a \<noteq> None" using can_unlinkD(2)[OF assms(2)] by (simp add: pub_def)
  then have "lists (mark z (unlink t a m)) = lists m" by (auto simp: mark_proj assign_next_proj)
  then show ?thesis
    using assms calm_unlink[OF assms(2) _ assms(3)] inv_mark unlink_inv by (auto simp: tx_ok_def)
qed

subsection \<open>What a transaction does when it commits\<close>

lemma run_any_moved:
  "\<forall>(p, q) \<in> set ps. mem m p \<noteq> None \<Longrightarrow>
    run t (any_moved ps) m = Returned (\<exists>(p, q) \<in> set ps. nxt m p \<noteq> q) m"
  by (induction ps rule: any_moved.induct) (auto simp: run_bind rd_def run_atomic nxt_def)

lemma run_any_removed:
  "\<forall>p \<in> set ps. mem m p \<noteq> None \<Longrightarrow> run t (any_removed ps) m = Returned (\<exists>p \<in> set ps. rmvd m p) m"
  by (induction ps rule: any_removed.induct) (auto simp: run_bind rd_def run_atomic rmvd_def)

lemma run_link_tx:
  assumes "mem m prev \<noteq> None" "mem m next \<noteq> None"
  shows "(\<exists>code. run t (link_tx prev next x) m = Returned (Some code) m) \<or>
    (nxt m prev = next \<and> \<not> rmvd m prev \<and> \<not> rmvd m next \<and>
     run t (link_tx prev next x) m = Returned None (assign_next t prev x m))"
  using assms run_any_moved[of "[(prev, next)]" m t] run_any_removed[of "[prev, next]" m t]
  by (cases "nxt m prev = next \<and> \<not> rmvd m prev \<and> \<not> rmvd m next")
    (auto simp: link_tx_def xabort_def run_bind run_atomic rcu_assign_next_def)

lemma run_set_removed: "mem m p \<noteq> None \<Longrightarrow> run t (set_removed p) m = Returned () (mark p m)"
  by (auto simp: set_removed_def wr_def run_atomic mark_def)

lemma run_unlink_tx:
  assumes "mem m prev \<noteq> None" "mem m next \<noteq> None" "mem m n \<noteq> None"
  shows "(\<exists>code. run t (unlink_tx prev next n) m = Returned (Some code) m) \<or>
    (nxt m prev = next \<and> nxt m next = n \<and> \<not> rmvd m prev \<and> \<not> rmvd m next \<and> \<not> rmvd m n \<and>
     run t (unlink_tx prev next n) m = Returned None (mark next (assign_next t prev n m)))"
proof -
  obtain a where "mem m prev = Some a" using assms(1) by blast
  then have "mem (assign_next t prev n m) next \<noteq> None" using assms(2) by (auto simp: assign_next_proj)
  then show ?thesis
    using assms run_any_moved[of "[(prev, next), (next, n)]" m t] run_any_removed[of "[prev, next, n]" m t]
    by (cases "nxt m prev = next \<and> nxt m next = n \<and> \<not> rmvd m prev \<and> \<not> rmvd m next \<and> \<not> rmvd m n")
      (auto simp: unlink_tx_def xabort_def run_bind run_atomic rcu_assign_next_def run_set_removed)
qed

lemma run_if_unlocked:
  "lists m l = Some L \<Longrightarrow> run t (if_unlocked l c) m =
    (if rcuspin L = None then run t c m else Returned (Some (of_nat ABORT_LF_CONFLICT)) m)"
  by (auto simp: if_unlocked_def run_bind spin_is_locked_def run_atomic xabort_def)

lemma abort_not_started: "xabort_status code \<noteq> XBEGIN_STARTED" "0 \<noteq> XBEGIN_STARTED"
proof -
  have "\<not> bit (xabort_status code) 1"
    by (simp add: xabort_status_def XABORT_EXPLICIT_def bit_or_iff bit_push_bit_iff bit_1_iff)
  moreover have "bit XBEGIN_STARTED 1" by (simp add: XBEGIN_STARTED_def bit_not_iff)
  ultimately show "xabort_status code \<noteq> XBEGIN_STARTED" by metis
  show "0 \<noteq> XBEGIN_STARTED" by (simp add: XBEGIN_STARTED_def)
qed

text \<open>The guarantee of several steps in one action.\<close>

lemma guar_trans: "guar J U prot t m m' \<Longrightarrow> guar J U prot t m' m'' \<Longrightarrow> guar J U prot t m m''"
  unfolding guar_def using rely_trans by blast

lemma guar_inv_J: "guar inv U prot t m m' \<Longrightarrow> inv m \<Longrightarrow> J m' \<Longrightarrow> guar J U prot t m m'"
  unfolding guar_def rely_def by blast

text \<open>Counting an abort or a transaction leaves private nodes alone too.\<close>

definition count_step :: "tid \<Rightarrow> mrel" where
  "count_step t m m' \<longleftrightarrow> local_step t m m' \<and> mem m' = mem m \<and> own m' = own m"

lemma stabJ_count: "stabJ (local_step t) J A \<Longrightarrow> stabJ (count_step t) J A"
  by (auto simp: stabJ_def count_step_def)

lemma stabJ_count_filled [stab_intros]: "stabJ (count_step t) J (filled s x key next)"
  by (auto simp: stabJ_def count_step_def filled_def own_node_def)

lemma stabJ_count_basic [stab_intros]:
  "stabJ (count_step t) J (nest_is s c)"
  "stabJ (count_step t) J (when_alone R (unlocked L))"
  "stabJ (count_step t) J (node_at l p v)"
  by (rule stabJ_count, rule stab_intros)+

context list_op
begin

lemmas stabJ_count_op [stab_intros] = stabJ_local_start [THEN stabJ_count]
  stabJ_local_found [THEN stabJ_count] stabJ_local_added [THEN stabJ_count]
  stabJ_local_deleted [THEN stabJ_count]

lemma t_record_abort:
  assumes "stabJ R J A" "stabJ (count_step t) J A"
  shows "triple A (record_abort s) (\<lambda>_. A)"
  unfolding record_abort_def
proof (rule t_local[OF assms(1) assms(1)])
  fix m assume m: "J m" "A m"
  have l: "local_step t m (m\<lparr>abort_cnt := c\<rparr>)" for c by (rule local_book(2)[OF J_wfm[OF m(1)]])
  have "count_step t m (m\<lparr>abort_cnt := c\<rparr>)" for c using l by (simp add: count_step_def)
  then have "A (m\<lparr>abort_cnt := c\<rparr>)" for c
    using assms(2) m J_local[OF m(1) l] unfolding stabJ_def by blast
  then show "\<exists>a m'. Some ((), m\<lparr>abort_cnt := (abort_cnt m)
      (cpu_of m t := record_abort_cnt s (abort_cnt m (cpu_of m t)))\<rparr>) = Some (a, m') \<and> local_step t m m' \<and> A m'"
    using l by blast
qed

lemma t_wait_unlocked:
  assumes A: "stabJ R J A" and sh: "\<And>m. J m \<Longrightarrow> A m \<Longrightarrow> shared_lock m k"
    and free: "\<And>m. J m \<Longrightarrow> A m \<Longrightarrow> lock_get m k = Some None \<or> may_block D"
  shows "triple A (wait_unlocked k) (\<lambda>_. A)"
proof -
  have "wp D R (guar J U prot t) t (wait_unlocked k) (\<lambda>_ m. J m \<and> A m) m" if m: "J m" "A m" for m
  proof -
    have st: "J m' \<and> A m'" if "J m \<and> A m" "R m m'" for m m'
      using stab_J[OF A] that unfolding stab_def by blast
    have s: "J m' \<and> A m'" "lock_get m' k \<noteq> None" "lock_get m' k = Some None \<or> may_block D" if "R m m'" for m'
      using st[of m m'] m that lock_get_some[OF sh] free by blast+
    show ?thesis
      unfolding wait_unlocked_def wp.simps(4)
    proof (intro allI impI conjI)
      fix m' assume r: "R m m'"
      show "G m' m'" by (rule guar_refl)
      show "wp D R G t (if lock_get m' k = None then Fault else Ret ()) (\<lambda>_ m. J m \<and> A m) m'"
        unfolding if_not_P[OF s(2)[OF r]] wp.simps(1) using st[OF s(1)[OF r]] by blast
      show "(lock_get m' k = None \<or> lock_get m' k = Some None) \<or> may_block D"
        using s(3)[OF r] by blast
    qed
  qed
  then show ?thesis unfolding triple_def hoare_def by blast
qed

text \<open>A transaction has the whole effect of its body or only counts as started.\<close>

lemma t_xact:
  assumes A: "stabJ R J A" "stabJ (count_step t) J A" and B: "stabJ R J B"
    and body: "\<And>m. J m \<Longrightarrow> A m \<Longrightarrow> (\<exists>code. run t c m = Returned (Some code) m) \<or>
      (\<exists>m'. run t c m = Returned None m' \<and> G m m' \<and> J m' \<and> B m')"
  shows "triple A (xact c) (\<lambda>s m. if s = XBEGIN_STARTED then B m else A m)"
  unfolding xact_def
proof (rule t_atomic[OF A(1)])
  show "stabJ R J (\<lambda>m. if s = XBEGIN_STARTED then B m else A m)" for s
    by (intro stab_intros A B)
next
  fix m assume m: "J m" "A m"
  let ?m = "m\<lparr>hcnt := hcnt m + 1\<rparr>"
  have l: "local_step t m ?m" by (rule local_book(3)[OF J_wfm[OF m(1)]])
  have k: "G m ?m" "J ?m" using local_guar[OF m(1) l] J_local[OF m(1) l] by blast+
  moreover have "A ?m" using A(2) m k(2) l unfolding stabJ_def count_step_def by auto
  ultimately have k: "G m ?m" "J ?m" "A ?m" by blast+
  show "\<exists>a m'. Some (xrun t c m) = Some (a, m') \<and> G m m' \<and> J m' \<and>
      (if a = XBEGIN_STARTED then B m' else A m')"
  proof (cases "htm m (hcnt m) = XBEGIN_STARTED")
    case True
    from body[OF k(2,3)] show ?thesis
    proof (elim disjE exE conjE)
      fix code assume "run t c ?m = Returned (Some code) ?m"
      then show ?thesis using True k abort_not_started(1)[of code]
        by (intro exI[of _ "xabort_status code"] exI[of _ ?m]) (simp add: xrun_def Let_def)
    next
      fix m' assume "run t c ?m = Returned None m'" "G ?m m'" "J m'" "B m'"
      then show ?thesis using True guar_trans[OF k(1)]
        by (intro exI[of _ XBEGIN_STARTED] exI[of _ m']) (simp add: xrun_def Let_def)
    qed
  next
    case False
    then show ?thesis using k by (simp add: xrun_def Let_def)
  qed
qed

end

end
