(* ===== verification/RcxPlain.thy ===== *)
theory RcxPlain
  imports RcxTx
begin

text \<open>
  Updates by transactions, for any protocol under which a transaction that commits knows the list to
  be calm and nobody to protect its nodes (locale \<open>tx_op\<close>), and the operations that use nothing else:
  \<open>rcx_list_contains\<close>, \<open>rcx_list_add\<close> and \<open>rcx_list_remove\<close>.
\<close>

subsection \<open>New nodes\<close>

context list_op
begin

lemma t_fill:
  assumes "stabJ R J A" "stabJ (local_step t) J A"
  shows "triple (\<lambda>m. A m \<and> own_node t x (\<lambda>n. True) m) (wr x f) (\<lambda>_ m. A m \<and> own_node t x (\<lambda>n. True) m)"
  by (rule t_wr_own[OF assms]) simp

lemma t_pnode_init:
  assumes "stabJ R J A" "stabJ (local_step t) J A" "i < NR_NUMA_NODES"
  shows "triple (\<lambda>m. A m \<and> own_node t x (\<lambda>n. True) m) (pnode_init x i) (\<lambda>_ m. A m \<and> own_node t x (\<lambda>n. True) m)"
  using t_fill[OF assms(1,2)] assms(3) by (simp add: pnode_init_def)

lemma t_rcx_new_node:
  assumes A: "stabJ R J A" "stabJ (local_step t) J A"
  shows "triple A rcx_new_node (\<lambda>x m. A m \<and> own_node t x (\<lambda>n. True) m)"
  unfolding rcx_new_node_def
proof (rule t_bind[OF t_kmalloc[OF A]], rule t_pull)
  fix x :: ptr assume x: "x \<noteq> NULL"
  let ?I = "\<lambda>m. A m \<and> own_node t x (\<lambda>n. True) m"
  have st: "stabJ R J ?I" by (intro stab_intros A)
  have p0: "triple ?I (pnode_init x 0) (\<lambda>_. ?I)"
    by (rule t_pnode_init[OF A]) (simp add: NR_NUMA_NODES_def)
  have nodes: "triple ?I (get (\<lambda>t m. nodes_with_cpus m)) (\<lambda>ns m. ?I m \<and> (\<forall>i \<in> set ns. i < NR_NUMA_NODES))"
    by (rule t_get, intro stab_intros A, intro stab_intros A)
      (use J_inv in \<open>auto simp: inv_def env_ok_def\<close>)
  have pns: "triple (\<lambda>m. ?I m \<and> (\<forall>i \<in> set ns. i < NR_NUMA_NODES)) (for_each ns (pnode_init x)) (\<lambda>_. ?I)" for ns
    by (rule t_pull, rule t_for_each[OF st], rule t_pnode_init[OF A]) blast
  have ret: "triple ?I (Ret x) (\<lambda>x m. A m \<and> own_node t x (\<lambda>n. True) m)" by (rule t_ret[OF st])
  show "triple ?I
     (if x = NULL then Ret NULL else
      bind (wr x (\<lambda>n. n\<lparr>removed := 0\<rparr>)) (\<lambda>_.
      bind (pnode_init x 0) (\<lambda>_.
      bind (get (\<lambda>t m. nodes_with_cpus m)) (\<lambda>nodeids.
      bind (for_each nodeids (pnode_init x)) (\<lambda>_.
      bind (wr x (\<lambda>n. n\<lparr>global_lock := None\<rparr>)) (\<lambda>_.
      bind (wr x (\<lambda>n. n\<lparr>global_htmlock := 0\<rparr>)) (\<lambda>_. Ret x)))))))
     (\<lambda>x m. A m \<and> own_node t x (\<lambda>n. True) m)"
    using x t_bind[OF t_fill[OF A] t_bind[OF p0 t_bind[OF nodes t_bind[OF pns
      t_bind[OF t_fill[OF A] t_bind[OF t_fill[OF A] ret]]]]]] by simp
qed

lemma t_new_node_at:
  assumes A: "stabJ R J A" "stabJ (local_step t) J A"
  shows "triple A (new_node_at key next) (\<lambda>x m. A m \<and> filled t x key next m)"
  unfolding new_node_at_def
proof (rule t_bind[OF t_rcx_new_node[OF A]])
  fix x
  have a: "triple (\<lambda>m. A m \<and> own_node t x (\<lambda>n. True) m) (set_val x key)
      (\<lambda>_ m. A m \<and> own_node t x (\<lambda>n. val n = key) m)"
    unfolding set_val_def by (rule t_wr_own[OF A]) simp
  have b: "triple (\<lambda>m. A m \<and> own_node t x (\<lambda>n. val n = key) m) (set_next x next)
      (\<lambda>_ m. A m \<and> filled t x key next m)"
    unfolding set_next_def filled_def by (rule t_wr_own[OF A]) simp
  have c: "triple (\<lambda>m. A m \<and> filled t x key next m) (Ret x) (\<lambda>x m. A m \<and> filled t x key next m)"
    by (rule t_ret, intro stab_intros A)
  show "triple (\<lambda>m. A m \<and> own_node t x (\<lambda>n. True) m)
     (bind (set_val x key) (\<lambda>_. bind (set_next x next) (\<lambda>_. Ret x))) (\<lambda>x m. A m \<and> filled t x key next m)"
    by (rule t_bind[OF a t_bind[OF b c]])
qed

lemma t_kfree_filled:
  assumes A: "stabJ R J A" "stabJ (local_step t) J A"
  shows "triple (\<lambda>m. A m \<and> filled t x k q m) (kfree_node x) (\<lambda>_. A)"
  unfolding filled_def by (rule t_kfree_own[OF A])

end

subsection \<open>Transactions\<close>

text \<open>
  \<open>grd\<close> is what a version puts around the body of its transactions. If it lets the body run, the list
  is calm and no other thread protects its nodes.
\<close>

locale tx_op = list_op prot "tx_ok P" t R K U D l key kn b H w
  for prot P t R K U D l key kn b H w +
  fixes grd :: "8 word option prog \<Rightarrow> 8 word option prog"
  assumes tx_U: "(l, key) \<in> U" and base: "protocol prot inv"
    and prot_lists: "lists m' = lists m \<Longrightarrow> pub m' l' p \<Longrightarrow> pub m l' p \<Longrightarrow> prot s m' p = prot s m p"
    and grd: "tx_ok P m \<Longrightarrow> lists m l \<noteq> None \<Longrightarrow> (\<exists>code. \<forall>c. run t (grd c) m = Returned (Some code) m) \<or>
      (\<forall>c. run t (grd c) m = run t c m) \<and> calm l m \<and> (\<forall>s p. s \<noteq> t \<longrightarrow> pub m l p \<longrightarrow> \<not> prot s m p)"
begin

text \<open>Neighbours that a transaction finds unmarked are in the list.\<close>

lemma calm_linked:
  "calm l m \<Longrightarrow> pub m l p \<Longrightarrow> nxt m p = q \<Longrightarrow> \<not> rmvd m p \<Longrightarrow> \<not> rmvd m q \<Longrightarrow> linked p q m"
  by (auto simp: calm_but_def linked_def)

lemma link_commit:
  assumes m: "tx_ok P m" "start m" "found False (prev, next, v) m" "filled t x key next m" "v \<noteq> key"
    and c: "calm l m" "nxt m prev = next" "\<not> rmvd m prev" "\<not> rmvd m next"
    and p: "\<forall>s p. s \<noteq> t \<longrightarrow> pub m l p \<longrightarrow> \<not> prot s m p"
  shows "G m (assign_next t prev x m) \<and> tx_ok P (assign_next t prev x m) \<and> add_done True (assign_next t prev x m)"
    and "book_eq m (assign_next t prev x m)"
proof -
  let ?m = "assign_next t prev x m"
  have f: "pos l key prev next m" "node_at l next v m" "key < v" "pub m l prev"
    using m(3,5) by (auto simp: found_def at_def pos_def)
  have lk: "linked prev next m" by (rule calm_linked[OF c(1) f(4) c(2-4)])
  have nb: "kn \<longrightarrow> \<not> b" using found_known[OF m(3)] m(5) by blast
  note e = link_effect[OF m(1,2) nb lk f(1-3) m(4)]
  have l: "lists ?m = lists m" using can_link_mem[OF e(1)] by (auto simp: assign_next_proj)
  have "prot s ?m q" if "pub m l' q" "prot s m q" for s l' q
    using prot_lists[OF l _ that(1)] that link_pub[OF e(1)] by blast
  then have "G m ?m"
    by (intro link_guar[OF m(1) tx_link[OF m(1) e(1)] e(1)]) (use e(3) tx_U p f(4) in auto)
  then show "G m ?m \<and> tx_ok P ?m \<and> add_done True ?m" using tx_link[OF m(1) e(1)] e(2) by blast
  show "book_eq m ?m" using can_link_mem[OF e(1)] by (auto intro: assign_book)
qed

lemma unlink_commit:
  assumes m: "tx_ok P m" "start m" "found False (prev, next, key) m"
    and c: "calm l m" "nxt m prev = next" "nxt m next = n" "\<not> rmvd m prev" "\<not> rmvd m next" "\<not> rmvd m n"
    and p: "\<forall>s p. s \<noteq> t \<longrightarrow> pub m l p \<longrightarrow> \<not> prot s m p"
  shows "G m (mark next (assign_next t prev n m)) \<and> tx_ok P (mark next (assign_next t prev n m)) \<and>
      del_done True (mark next (assign_next t prev n m)) \<and> node_at l next key (mark next (assign_next t prev n m))"
    and "book_eq m (mark next (assign_next t prev n m))"
proof -
  let ?u = "unlink t prev m"
  let ?m = "mark next ?u"
  have f: "node_at l next key m" "pub m l prev" "pub m l next"
    using m(3) by (auto simp: found_def at_def pos_def)
  have u: "assign_next t prev n m = ?u" using c(2,3) by simp
  have lk: "linked prev next m" by (rule calm_linked[OF c(1) f(2) c(2,4,5)])
  have b: "kn \<longrightarrow> b" using found_known[OF m(3)] by blast
  note e = unlink_effect[OF m(1,2) b lk f(1)]
  have k: "book_eq m ?u" using f(2) by (intro assign_book) (simp add: pub_def)
  then have l: "lists ?u = lists m" by (simp add: book_eq_def)
  have pr: "prot s ?u q = prot s m q" "prot s ?m q = prot s ?u q" if "pub m l' q" for s l' q
    using prot_lists[OF l _ that] prot_lists[of ?m ?u l' q s] that unlink_pub[OF e(1)]
    by (simp_all add: mark_proj)
  have i: "inv m" "inv ?u" using tx_inv[OF m(1)] unlink_inv e(1) by blast+
  have ok: "tx_ok P ?m" by (rule tx_unlink[OF m(1) e(1)]) (simp add: c(2))
  have "guar inv U prot t m ?u"
    by (rule protocol.unlink_guar[OF base i e(1)])
      (use tx_U p f pr c(2) in \<open>auto simp: node_at_def\<close>)
  moreover have "guar inv U prot t ?u ?m"
  proof (rule protocol.frame_guar[OF base i(2) inv_mark[OF i(2)] mark_frame])
    fix s l' q assume s: "s \<noteq> t" "pub ?u l' q" "prot s ?u q"
    then have q: "pub m l' q" "prot s m q" using unlink_pub[OF e(1)] pr(1) by auto
    have "q \<noteq> next" using p s(1) q(2) f(3) by blast
    then show "prot s ?m q \<and> rmvd ?m q = rmvd ?u q"
      using s pr(2)[OF q(1)] f(3) unlink_pub[OF e(1)] by (auto simp: rmvd_mark pub_def mark_proj(11) rmvd_def)
  next
    fix s q assume q: "s \<noteq> t" "priv ?u s q"
    have "pub ?u l next" using f(3) unlink_pub[OF e(1)] by blast
    then have "q \<noteq> next" using q(2) by (auto simp: priv_def pub_def)
    from mark_proj(11)[OF this, of ?u] show "priv ?m s q \<and> mem ?m q = mem ?u q"
      using q(2) by (simp add: priv_def mark_proj(5))
  qed (simp_all add: mark_proj)
  ultimately have "G m ?m" using guar_trans guar_inv_J[of U prot t m ?m "tx_ok P", OF _ i(1) ok] by blast
  moreover have "del_done True ?m" "node_at l next key ?m"
    using e(2,3) by (simp_all add: deleted_def know_defs when_alone_def mark_proj contents_def ahead_def)
  ultimately show "G m (mark next (assign_next t prev n m)) \<and> tx_ok P (mark next (assign_next t prev n m)) \<and>
      del_done True (mark next (assign_next t prev n m)) \<and> node_at l next key (mark next (assign_next t prev n m))"
    unfolding u using ok by blast
  show "book_eq m (mark next (assign_next t prev n m))"
    unfolding u using k mark_proj(12)[of ?u "next"] by (auto simp: book_eq_def)
qed

text \<open>The two transactions, with any facts \<open>F\<close> that depend on the list locks and the nesting only.\<close>

lemma link_tx_spec:
  assumes F: "stabJ R (tx_ok P) F" "stabJ (count_step t) (tx_ok P) F" "stabJ book_eq (tx_ok P) F" and v: "v \<noteq> key"
  shows "triple (\<lambda>m. (F m \<and> start m \<and> found False (prev, next, v) m) \<and> filled t x key next m)
    (xact (grd (link_tx prev next x)))
    (\<lambda>s m. if s = XBEGIN_STARTED then F m \<and> add_done True m else (F m \<and> start m) \<and> filled t x key next m)"
proof (rule t_conseq[OF t_xact])
  let ?A = "\<lambda>m. (F m \<and> start m \<and> found False (prev, next, v) m) \<and> filled t x key next m"
  show "stabJ R (tx_ok P) ?A" "stabJ (count_step t) (tx_ok P) ?A"
    "stabJ R (tx_ok P) (\<lambda>m. F m \<and> add_done True m)"
    by (intro stab_intros F)+
  fix m assume m: "tx_ok P m" "?A m"
  then have p: "pub m l prev" "pub m l next" "lists m l \<noteq> None"
    using found_pub by (blast, blast, auto simp: started_def is_list_def)
  then have r: "mem m prev \<noteq> None" "mem m next \<noteq> None" by (auto simp: pub_def)
  from grd[OF m(1) p(3)] run_link_tx[OF r, of t x]
  show "(\<exists>code. run t (grd (link_tx prev next x)) m = Returned (Some code) m) \<or>
      (\<exists>m'. run t (grd (link_tx prev next x)) m = Returned None m' \<and> G m m' \<and> tx_ok P m' \<and>
        F m' \<and> add_done True m')"
  proof (elim disjE exE conjE)
    assume g: "\<forall>c. run t (grd c) m = run t c m" "calm l m" "\<forall>s p. s \<noteq> t \<longrightarrow> pub m l p \<longrightarrow> \<not> prot s m p"
      and c: "nxt m prev = next" "\<not> rmvd m prev" "\<not> rmvd m next"
        "run t (link_tx prev next x) m = Returned None (assign_next t prev x m)"
    note lc = link_commit[OF m(1) _ _ _ v g(2) c(1-3) g(3), where x = x]
    have "F (assign_next t prev x m)"
      using F(3) lc m unfolding stabJ_def by blast
    then show ?thesis using g(1) c(4) lc(1) m by auto
  qed auto
qed auto

lemma unlink_tx_spec:
  assumes F: "stabJ R (tx_ok P) F" "stabJ (count_step t) (tx_ok P) F" "stabJ book_eq (tx_ok P) F"
  shows "triple (\<lambda>m. (F m \<and> start m \<and> found False (prev, next, key) m) \<and> (\<exists>u. node_at l n u m))
    (xact (grd (unlink_tx prev next n)))
    (\<lambda>s m. if s = XBEGIN_STARTED then F m \<and> del_done True m \<and> node_at l next key m else F m \<and> start m)"
proof (rule t_conseq[OF t_xact])
  let ?A = "\<lambda>m. (F m \<and> start m \<and> found False (prev, next, key) m) \<and> (\<exists>u. node_at l n u m)"
  show "stabJ R (tx_ok P) ?A" "stabJ (count_step t) (tx_ok P) ?A"
    "stabJ R (tx_ok P) (\<lambda>m. F m \<and> del_done True m \<and> node_at l next key m)"
    by (intro stab_intros F)+
  fix m assume m: "tx_ok P m" "?A m"
  then have p: "pub m l prev" "pub m l next" "lists m l \<noteq> None"
    using found_pub by (blast, blast, auto simp: started_def is_list_def)
  then have r: "mem m prev \<noteq> None" "mem m next \<noteq> None" "mem m n \<noteq> None"
    using m(2) by (auto simp: pub_def node_at_def)
  from grd[OF m(1) p(3)] run_unlink_tx[OF r, of t]
  show "(\<exists>code. run t (grd (unlink_tx prev next n)) m = Returned (Some code) m) \<or>
      (\<exists>m'. run t (grd (unlink_tx prev next n)) m = Returned None m' \<and> G m m' \<and> tx_ok P m' \<and>
        F m' \<and> del_done True m' \<and> node_at l next key m')"
  proof (elim disjE exE conjE)
    assume g: "\<forall>c. run t (grd c) m = run t c m" "calm l m" "\<forall>s p. s \<noteq> t \<longrightarrow> pub m l p \<longrightarrow> \<not> prot s m p"
      and c: "nxt m prev = next" "nxt m next = n" "\<not> rmvd m prev" "\<not> rmvd m next" "\<not> rmvd m n"
        "run t (unlink_tx prev next n) m = Returned None (mark next (assign_next t prev n m))"
    note uc = unlink_commit[OF m(1) _ _ g(2) c(1-5) g(3)]
    have "F (mark next (assign_next t prev n m))"
      using F(3) uc m unfolding stabJ_def by blast
    then show ?thesis using g(1) c(6) uc(1) m by auto
  qed auto
qed auto

subsection \<open>The parts of an update\<close>

text \<open>What holds between the actions of an update besides its own progress: the list locks are free when
  no other thread runs, and the read-side sections are nested \<open>c\<close> deep.\<close>

abbreviation "idle c \<equiv> \<lambda>m. when_alone R (unlocked {}) m \<and> nest_is t c m"

lemma proj_nest_done [simp]:
  "added R K t kn l key b H ins (m\<lparr>rcu_nest := f\<rparr>) = added R K t kn l key b H ins m"
  "deleted R K t kn l key b H del (m\<lparr>rcu_nest := f\<rparr>) = deleted R K t kn l key b H del m"
  "when_alone R (unlocked L) (m\<lparr>rcu_nest := f\<rparr>) = when_alone R (unlocked L) m"
  "node_at l p v (m\<lparr>rcu_nest := f\<rparr>) = node_at l p v m"
  by (simp_all add: added_def deleted_def when_alone_def unlocked_def node_at_def pub_def vl_def)

text \<open>Entering and leaving a read-side section, with any facts about the update's progress.\<close>

lemma enter_section:
  assumes "stabJ R (tx_ok P) A" "\<And>m f. A (m\<lparr>rcu_nest := f\<rparr>) = A m"
  shows "triple (\<lambda>m. A m \<and> idle c m) rcu_read_lock (\<lambda>_ m. A m \<and> idle (c + 1) m)"
  by (rule t_conseq[OF nest_spec(1)[where A = "\<lambda>m. A m \<and> when_alone R (unlocked {}) m" and c = c]])
    (intro stab_intros assms(1), auto simp: assms(2))

lemma leave_section:
  assumes "stabJ R (tx_ok P) A" "\<And>m f. A (m\<lparr>rcu_nest := f\<rparr>) = A m"
  shows "triple (\<lambda>m. A m \<and> idle c m) rcu_read_unlock (\<lambda>_ m. A m \<and> idle (c - 1) m)"
  by (rule t_conseq[OF nest_spec(2)[where A = "\<lambda>m. A m \<and> when_alone R (unlocked {}) m" and c = c]])
    (intro stab_intros assms(1), auto simp: assms(2))

lemma walk:
  "triple (\<lambda>m. start m \<and> idle c m) (find_pos w l key) (\<lambda>x m. (start m \<and> found False x m) \<and> idle c m)"
  by (rule t_conseq[OF find_pos_spec[where A = "idle c" and lk = False]], intro stab_intros) auto

lemma free_rcu:
  assumes "stabJ R (tx_ok P) A" "stabJ (local_step t) (tx_ok P) A"
  shows "triple (\<lambda>m. (A m \<and> node_at l p v m) \<and> idle c m) (rcx_free_node p) (\<lambda>_ m. A m \<and> idle c m)"
  unfolding rcx_free_node_def
  by (rule t_conseq[OF t_kfree_rcu[of "\<lambda>m. (A m \<and> node_at l p v m) \<and> idle c m" l]])
    (intro stab_intros assms, intro stab_intros assms, auto simp: node_at_def)

lemma note_abort:
  assumes "stabJ R (tx_ok P) A" "stabJ (count_step t) (tx_ok P) A"
  shows "triple (\<lambda>m. A m \<and> idle c m) (record_abort s) (\<lambda>_ m. A m \<and> idle c m)"
  by (rule t_record_abort) (intro stab_intros assms)+

text \<open>An attempt to insert: a new node and one transaction. After an abort the node is still private.\<close>

lemma add_attempt:
  assumes v: "v \<noteq> key"
  shows "triple (\<lambda>m. (start m \<and> found False (prev, next, v) m) \<and> idle c m) (new_node_at key next)
      (\<lambda>x m. ((start m \<and> found False (prev, next, v) m) \<and> filled t x key next m) \<and> idle c m)"
    and "triple (\<lambda>m. ((start m \<and> found False (prev, next, v) m) \<and> filled t x key next m) \<and> idle c m)
      (xact (grd (link_tx prev next x)))
      (\<lambda>s m. (if s = XBEGIN_STARTED then add_done True m else start m \<and> filled t x key next m) \<and> idle c m)"
proof -
  show "triple (\<lambda>m. (start m \<and> found False (prev, next, v) m) \<and> idle c m) (new_node_at key next)
      (\<lambda>x m. ((start m \<and> found False (prev, next, v) m) \<and> filled t x key next m) \<and> idle c m)"
    by (rule t_conseq[OF t_new_node_at[where A = "\<lambda>m. (start m \<and> found False (prev, next, v) m) \<and> idle c m"]])
      (intro stab_intros, intro stab_intros, auto)
  have F: "stabJ R (tx_ok P) (idle c)" "stabJ (count_step t) (tx_ok P) (idle c)" "stabJ book_eq (tx_ok P) (idle c)"
    by (intro stab_intros)+
  show "triple (\<lambda>m. ((start m \<and> found False (prev, next, v) m) \<and> filled t x key next m) \<and> idle c m)
      (xact (grd (link_tx prev next x)))
      (\<lambda>s m. (if s = XBEGIN_STARTED then add_done True m else start m \<and> filled t x key next m) \<and> idle c m)"
    by (rule t_conseq[OF link_tx_spec[OF F v]]) (auto split: if_splits)
qed

lemma drop_node:
  "triple (\<lambda>m. (start m \<and> filled t x key next m) \<and> idle c m) (kfree_node x) (\<lambda>_ m. start m \<and> idle c m)"
  by (rule t_pre[OF t_kfree_filled[of "\<lambda>m. start m \<and> idle c m" x key "next"]])
    (intro stab_intros, intro stab_intros, auto)

text \<open>An attempt to remove: the successor is read, then one transaction.\<close>

lemma read_succ:
  "triple (\<lambda>m. (start m \<and> found False (prev, next, key) m) \<and> idle c m) (rd next p_next)
    (\<lambda>n m. ((start m \<and> found False (prev, next, key) m) \<and> (\<exists>u. node_at l n u m)) \<and> idle c m)"
proof (rule t_rd, intro stab_intros, intro stab_intros)
  fix m assume m: "tx_ok P m" "(start m \<and> found False (prev, next, key) m) \<and> idle c m"
  then have p: "pub m l next" "vl m next = key" by (auto simp: found_def at_def node_at_def)
  have w: "wfm m" by (rule J_wfm[OF m(1)])
  have "nxt m next \<noteq> NULL" using wf_tail[OF w p(1)] p(2) key by (simp add: key_ok_def)
  then have "node_at l (nxt m next) (vl m (nxt m next)) m" using wf_next[OF w p(1)] by (simp add: node_at_def)
  then show "\<exists>a. mem m next = Some a \<and>
      ((start m \<and> found False (prev, next, key) m) \<and> (\<exists>u. node_at l (p_next a) u m)) \<and> idle c m"
    using m(2) pub_mem[OF p(1)] by auto
qed

lemma remove_attempt:
  "triple (\<lambda>m. ((start m \<and> found False (prev, next, key) m) \<and> (\<exists>u. node_at l n u m)) \<and> idle c m)
    (xact (grd (unlink_tx prev next n)))
    (\<lambda>s m. (if s = XBEGIN_STARTED then del_done True m \<and> node_at l next key m else start m) \<and> idle c m)"
proof -
  have F: "stabJ R (tx_ok P) (idle c)" "stabJ (count_step t) (tx_ok P) (idle c)" "stabJ book_eq (tx_ok P) (idle c)"
    by (intro stab_intros)+
  show ?thesis by (rule t_conseq[OF unlink_tx_spec[OF F]]) (auto split: if_splits)
qed

end

end
