(* ===== verification/RcxAborts.thy ===== *)
theory RcxAborts
  imports RcxPlain
begin

text \<open>
  \<open>rcx_list_contains\<close>, \<open>rcx_list_add\<close> and \<open>rcx_list_remove\<close>: updates by one transaction each, which give
  up with 2 when it aborts. Nothing is ever locked; the invariant says that every list is calm.
\<close>

lemma protocol_tx:
  assumes "protocol prot inv"
  shows "protocol prot (tx_ok P)"
proof -
  note p = protocol.prot_excl[OF assms] protocol.prot_local[OF assms] protocol.prot_nest[OF assms]
  show ?thesis by unfold_locales (fact p | rule tx_inv tx_ok_local tx_ok_nest; assumption)+
qed

interpretation bare: protocol "\<lambda>_ _ _. False" inv
  by unfold_locales (use inv_frame local_frame in \<open>auto simp: inv_nest local_step_def\<close>)

interpretation plain: protocol "\<lambda>_ _ _. False" "tx_ok (\<lambda>_. True)"
  by (rule protocol_tx[OF bare.protocol_axioms])

locale plain_op = list_op "\<lambda>_ _ _. False" "tx_ok (\<lambda>_. True)" t R K U D l key kn b H w
  for t R K U D l key kn b H w +
  assumes plain_U: "(l, key) \<in> U"

sublocale plain_op \<subseteq> tx_op "\<lambda>_ _ _. False" "\<lambda>_. True" t R K U D l key kn b H w "\<lambda>c. c"
  by unfold_locales (use plain_U in \<open>auto simp: tx_ok_def\<close>)

context tx_op
begin

text \<open>What an update returns: 2 if it had something to do and its transaction aborted, else whether it
  changed the list.\<close>

abbreviation "add_returns r m \<equiv> (r = (2 :: int) \<and> start m \<and> (kn \<longrightarrow> \<not> b)) \<or> (\<exists>ins. add_done ins m \<and> r = of_bool ins)"
abbreviation "del_returns r m \<equiv> (r = (2 :: int) \<and> start m \<and> (kn \<longrightarrow> b)) \<or> (\<exists>del. del_done del m \<and> r = of_bool del)"

lemma contains_spec_rcx:
  "triple (\<lambda>m. start m \<and> idle c m) (rcx_list_contains w l key)
    (\<lambda>r m. (start m \<and> idle c m) \<and> (r = 0 \<or> r = 1) \<and> (kn \<longrightarrow> (r = 1) = b))"
proof -
  have e: "rcx_list_contains w l key = rcu_list_contains w l key"
    by (simp add: rcx_list_contains_def rcu_list_contains_def)
  show ?thesis
    unfolding e by (rule t_conseq[OF contains_spec[where A = "when_alone R (unlocked {})" and c = c]])
      (intro stab_intros, auto)
qed

text \<open>Every update enters a read-side section and walks the list.\<close>

lemma t_walk:
  assumes "\<And>prev next v. triple (\<lambda>m. (start m \<and> found False (prev, next, v) m) \<and> idle (c + 1) m) (k prev next v) Q"
  shows "triple (\<lambda>m. start m \<and> idle c m)
    (bind rcu_read_lock (\<lambda>_. bind (find_pos w l key) (\<lambda>(prev, next, v). k prev next v))) Q"
proof (rule t_bind[OF enter_section t_bind[OF walk]], intro stab_intros, simp)
  fix x :: "ptr \<times> ptr \<times> val_t"
  show "triple (\<lambda>m. (start m \<and> found False x m) \<and> idle (c + 1) m) (case x of (prev, next, v) \<Rightarrow> k prev next v) Q"
    using assms by (cases x) simp
qed

lemma add_present:
  "v = key \<Longrightarrow> triple (\<lambda>m. (start m \<and> found False (prev, next, v) m) \<and> idle (c + 1) m)
    (bind rcu_read_unlock (\<lambda>_. Ret 0)) (\<lambda>r m. (\<exists>ins. add_done ins m \<and> r = of_bool ins) \<and> idle c m)"
proof -
  assume v: "v = key"
  have a: "triple (\<lambda>m. (start m \<and> found False (prev, next, v) m) \<and> idle (c + 1) m) rcu_read_unlock
      (\<lambda>_ m. add_done False m \<and> idle (c + 1 - 1) m)"
    by (rule t_pre[OF leave_section]) (intro stab_intros, simp, use v found_known skip_add in blast)
  have b: "triple (\<lambda>m. add_done False m \<and> idle (c + 1 - 1) m) (Ret 0)
      (\<lambda>r m. (\<exists>ins. add_done ins m \<and> r = of_bool ins) \<and> idle c m)"
    by (rule t_ret, intro stab_intros) auto
  show ?thesis by (rule t_bind[OF a b])
qed

text \<open>The end of an insertion that has committed.\<close>

lemma add_finish:
  "triple (\<lambda>m. add_done ins m \<and> idle (c + 1) m) (bind rcu_read_unlock (\<lambda>_. Ret (of_bool ins)))
    (\<lambda>r m. (\<exists>ins. add_done ins m \<and> r = of_bool ins) \<and> idle c m)"
proof -
  have a: "triple (\<lambda>m. add_done ins m \<and> idle (c + 1) m) rcu_read_unlock (\<lambda>_ m. add_done ins m \<and> idle (c + 1 - 1) m)"
    by (rule leave_section) (intro stab_intros, simp)
  have b: "triple (\<lambda>m. add_done ins m \<and> idle (c + 1 - 1) m) (Ret (of_bool ins))
      (\<lambda>r m. (\<exists>ins. add_done ins m \<and> r = of_bool ins) \<and> idle c m)"
    by (rule t_ret, intro stab_intros) auto
  show ?thesis by (rule t_bind[OF a b])
qed

lemma del_absent:
  "(kn \<Longrightarrow> \<not> b) \<Longrightarrow> triple (\<lambda>m. start m \<and> idle c m) (Ret 0)
    (\<lambda>r m. (\<exists>del. del_done del m \<and> r = of_bool del) \<and> idle c m)"
  by (rule t_ret, intro stab_intros) (use skip_del in \<open>auto intro!: exI[of _ False]\<close>)

end

context plain_op
begin

lemma rcx_list_add_spec:
  "triple (\<lambda>m. start m \<and> idle c m) (rcx_list_add w l key) (\<lambda>r m. add_returns r m \<and> idle c m)"
  unfolding rcx_list_add_def
proof (rule t_walk)
  fix prev "next" v
  let ?Q = "\<lambda>r m. add_returns r m \<and> idle c m"
  let ?T = "\<lambda>x s m. (if s = XBEGIN_STARTED then add_done True m else start m \<and> filled t x key next m) \<and> idle (c + 1) m"
  have ok: "triple (?T x s) (bind rcu_read_unlock (\<lambda>_. Ret 1)) ?Q" if "s = XBEGIN_STARTED" for x s
    by (rule t_conseq[OF add_finish[of True c, unfolded of_bool_eq(2)]]) (use that in auto)
  have lv: "triple (?T x s) rcu_read_unlock (\<lambda>_ m. (start m \<and> filled t x key next m) \<and> idle c m)"
    if "s \<noteq> XBEGIN_STARTED" for x s
    by (rule t_conseq[OF leave_section[where A = "\<lambda>m. start m \<and> filled t x key next m" and c = "c + 1"]])
      (intro stab_intros, use that in \<open>auto simp: filled_def own_node_def\<close>)
  have na: "triple (\<lambda>m. (start m \<and> filled t x key next m) \<and> idle c m) (record_abort s)
      (\<lambda>_ m. (start m \<and> filled t x key next m) \<and> idle c m)" for x s
    by (rule note_abort) (intro stab_intros)+
  have rt: "triple (\<lambda>m. start m \<and> idle c m) (Ret 2) ?Q" if "kn \<longrightarrow> \<not> b"
    by (rule t_ret, intro stab_intros) (use that in simp)
  have fail: "triple (?T x s) (bind rcu_read_unlock (\<lambda>_. bind (record_abort s) (\<lambda>_. bind (kfree_node x) (\<lambda>_. Ret 2)))) ?Q"
    if "s \<noteq> XBEGIN_STARTED" "kn \<longrightarrow> \<not> b" for x s
    by (rule t_bind[OF lv[OF that(1)] t_bind[OF na t_bind[OF drop_node rt[OF that(2)]]]])
  have attempt: "triple (\<lambda>m. ((start m \<and> found False (prev, next, v) m) \<and> filled t x key next m) \<and> idle (c + 1) m)
      (bind (xact (link_tx prev next x)) (\<lambda>s.
       if s = XBEGIN_STARTED then bind rcu_read_unlock (\<lambda>_. Ret 1)
       else bind rcu_read_unlock (\<lambda>_. bind (record_abort s) (\<lambda>_. bind (kfree_node x) (\<lambda>_. Ret 2))))) ?Q"
    if v: "v \<noteq> key" for x
  proof (rule t_drop[of _ "kn \<longrightarrow> \<not> b"])
    fix m assume "tx_ok (\<lambda>_. True) m" "((start m \<and> found False (prev, next, v) m) \<and> filled t x key next m) \<and> idle (c + 1) m"
    then show "kn \<longrightarrow> \<not> b" using v found_known by blast
  next
    assume nb: "kn \<longrightarrow> \<not> b"
    show "triple (\<lambda>m. ((start m \<and> found False (prev, next, v) m) \<and> filled t x key next m) \<and> idle (c + 1) m)
      (bind (xact (link_tx prev next x)) (\<lambda>s.
       if s = XBEGIN_STARTED then bind rcu_read_unlock (\<lambda>_. Ret 1)
       else bind rcu_read_unlock (\<lambda>_. bind (record_abort s) (\<lambda>_. bind (kfree_node x) (\<lambda>_. Ret 2))))) ?Q"
      by (rule t_bind[OF add_attempt(2)[OF v]], rule t_if[OF ok fail[OF _ nb]]; assumption)
  qed
  have yes: "triple (\<lambda>m. (start m \<and> found False (prev, next, v) m) \<and> idle (c + 1) m)
      (bind (new_node_at key next) (\<lambda>x. bind (xact (link_tx prev next x)) (\<lambda>s.
       if s = XBEGIN_STARTED then bind rcu_read_unlock (\<lambda>_. Ret 1)
       else bind rcu_read_unlock (\<lambda>_. bind (record_abort s) (\<lambda>_. bind (kfree_node x) (\<lambda>_. Ret 2)))))) ?Q"
    if v: "v \<noteq> key"
    by (rule t_bind, rule add_attempt(1)[OF v], rule attempt[OF v])
  have no: "triple (\<lambda>m. (start m \<and> found False (prev, next, v) m) \<and> idle (c + 1) m)
      (bind rcu_read_unlock (\<lambda>_. Ret 0)) ?Q" if "v = key"
    by (rule t_conseq[OF add_present[OF that]]) blast+
  show "triple (\<lambda>m. (start m \<and> found False (prev, next, v) m) \<and> idle (c + 1) m)
     (if v \<noteq> key then
      bind (new_node_at key next) (\<lambda>x. bind (xact (link_tx prev next x)) (\<lambda>s.
       if s = XBEGIN_STARTED then bind rcu_read_unlock (\<lambda>_. Ret 1)
       else bind rcu_read_unlock (\<lambda>_. bind (record_abort s) (\<lambda>_. bind (kfree_node x) (\<lambda>_. Ret 2)))))
      else bind rcu_read_unlock (\<lambda>_. Ret 0)) ?Q"
    using yes no by (cases "v = key") simp_all
qed

text \<open>A removal that finds its key absent does not leave the read-side section it has entered.\<close>

lemma rcx_list_remove_spec:
  "triple (\<lambda>m. start m \<and> idle c m) (rcx_list_remove w l key)
    (\<lambda>r m. del_returns r m \<and> idle (if r = 0 then c + 1 else c) m)"
  unfolding rcx_list_remove_def
proof (rule t_walk)
  fix prev "next" u
  let ?Q = "\<lambda>r m. del_returns r m \<and> idle (if r = 0 then c + 1 else c) m"
  let ?F = "\<lambda>m. (start m \<and> found False (prev, next, u) m) \<and> idle (c + 1) m"
  let ?T = "\<lambda>s m. (if s = XBEGIN_STARTED then del_done True m \<and> node_at l next key m else start m) \<and> idle (c + 1) m"
  have lv1: "triple (?T s) rcu_read_unlock (\<lambda>_ m. (del_done True m \<and> node_at l next key m) \<and> idle c m)"
    if "s = XBEGIN_STARTED" for s
    by (rule t_conseq[OF leave_section[where A = "\<lambda>m. del_done True m \<and> node_at l next key m" and c = "c + 1"]])
      (intro stab_intros, use that in auto)
  have fr: "triple (\<lambda>m. (del_done True m \<and> node_at l next key m) \<and> idle c m) (rcx_free_node next)
      (\<lambda>_ m. del_done True m \<and> idle c m)"
    by (rule free_rcu) (intro stab_intros)+
  have r1: "triple (\<lambda>m. del_done True m \<and> idle c m) (Ret 1) ?Q"
    by (rule t_ret, intro stab_intros) (auto intro!: exI[of _ True])
  have ok: "triple (?T s) (bind rcu_read_unlock (\<lambda>_. bind (rcx_free_node next) (\<lambda>_. Ret 1))) ?Q"
    if "s = XBEGIN_STARTED" for s by (rule t_bind[OF lv1[OF that] t_bind[OF fr r1]])
  have lv2: "triple (?T s) rcu_read_unlock (\<lambda>_ m. start m \<and> idle c m)" if "s \<noteq> XBEGIN_STARTED" for s
    by (rule t_conseq[OF leave_section[where A = start and c = "c + 1"]])
      (intro stab_intros, use that in auto)
  have na: "triple (\<lambda>m. start m \<and> idle c m) (record_abort s) (\<lambda>_ m. start m \<and> idle c m)" for s
    by (rule note_abort) (intro stab_intros)+
  have r2: "triple (\<lambda>m. start m \<and> idle c m) (Ret 2) ?Q" if "kn \<longrightarrow> b"
    by (rule t_ret, intro stab_intros) (use that in simp)
  have fail: "triple (?T s) (bind rcu_read_unlock (\<lambda>_. bind (record_abort s) (\<lambda>_. Ret 2))) ?Q"
    if "s \<noteq> XBEGIN_STARTED" "kn \<longrightarrow> b" for s
    by (rule t_bind[OF lv2[OF that(1)] t_bind[OF na r2[OF that(2)]]])
  have yes: "triple ?F (bind (rd next p_next) (\<lambda>n. bind (xact (unlink_tx prev next n)) (\<lambda>s.
        if s = XBEGIN_STARTED then bind rcu_read_unlock (\<lambda>_. bind (rcx_free_node next) (\<lambda>_. Ret 1))
        else bind rcu_read_unlock (\<lambda>_. bind (record_abort s) (\<lambda>_. Ret 2))))) ?Q" if u: "u = key"
  proof (rule t_drop[of _ "kn \<longrightarrow> b"])
    show "kn \<longrightarrow> b" if "?F m" for m using that u found_known by blast
    assume b: "kn \<longrightarrow> b"
    show "triple ?F (bind (rd next p_next) (\<lambda>n. bind (xact (unlink_tx prev next n)) (\<lambda>s.
        if s = XBEGIN_STARTED then bind rcu_read_unlock (\<lambda>_. bind (rcx_free_node next) (\<lambda>_. Ret 1))
        else bind rcu_read_unlock (\<lambda>_. bind (record_abort s) (\<lambda>_. Ret 2))))) ?Q"
      unfolding u by (rule t_bind[OF read_succ t_bind[OF remove_attempt t_if[OF ok fail[OF _ b]]]])
  qed
  have no: "triple ?F (Ret 0) ?Q" if "u \<noteq> key"
  proof (rule t_drop[of _ "kn \<longrightarrow> \<not> b"])
    show "kn \<longrightarrow> \<not> b" if "?F m" for m using that \<open>u \<noteq> key\<close> found_known by blast
    show "triple ?F (Ret 0) ?Q" if "kn \<longrightarrow> \<not> b"
      by (rule t_ret, intro stab_intros) (use that skip_del in \<open>auto intro!: exI[of _ False]\<close>)
  qed
  show "triple ?F (bind (rd next val) (\<lambda>v.
      if v = key then bind (rd next p_next) (\<lambda>n. bind (xact (unlink_tx prev next n)) (\<lambda>s.
        if s = XBEGIN_STARTED then bind rcu_read_unlock (\<lambda>_. bind (rcx_free_node next) (\<lambda>_. Ret 1))
        else bind rcu_read_unlock (\<lambda>_. bind (record_abort s) (\<lambda>_. Ret 2))))
      else Ret 0)) ?Q"
  proof (rule t_bind)
    show "triple ?F (rd next val) (\<lambda>v m. ?F m \<and> v = u)"
      by (rule t_conseq[OF reread_spec[where A = "\<lambda>m. start m \<and> idle (c + 1) m" and lk = False]])
        (intro stab_intros, auto)
  qed (intro t_pull t_if, use yes no in auto)
qed

end

end
