(* ===== verification/RcxFallback.thy ===== *)
theory RcxFallback
  imports RcxAborts RcuCoarse
begin

text \<open>
  The versions of rcx-hash-list.c whose updates fall back to the lock of the list: \<open>lf\<close> after
  \<open>LF_RETRY_LIMIT\<close> aborts, \<open>fb1\<close> when the status word does not ask for a retry. A transaction aborts if
  the lock is held, so the lists whose lock is free are calm.
\<close>

interpretation fallback: protocol prot_rcu "tx_ok (\<lambda>s. s = None)"
  by (rule protocol_tx[OF coarse.protocol_axioms])

locale fb_op = list_op prot_rcu "tx_ok (\<lambda>s. s = None)" t R K U D l key kn b H w
  for t R K U D l key kn b H w +
  assumes fb_U: "(l, key) \<in> U" and fb_block: "alone R \<or> may_block D"

sublocale fb_op \<subseteq> tx_op prot_rcu "\<lambda>s. s = None" t R K U D l key kn b H w "if_unlocked l"
proof
  show "(l, key) \<in> U" by (rule fb_U)
  show "lists m' = lists m \<Longrightarrow> pub m' l' p \<Longrightarrow> pub m l' p \<Longrightarrow> prot_rcu s m' p = prot_rcu s m p" for m m' l' s p
    by (simp add: prot_rcu_pub[of _ l'])
next
  fix m assume m: "tx_ok (\<lambda>s. s = None) m" "lists m l \<noteq> None"
  then obtain L where L: "lists m l = Some L" by blast
  show "(\<exists>code. \<forall>c. run t (if_unlocked l c) m = Returned (Some code) m) \<or>
      (\<forall>c. run t (if_unlocked l c) m = run t c m) \<and> calm l m \<and> (\<forall>s p. s \<noteq> t \<longrightarrow> pub m l p \<longrightarrow> \<not> prot_rcu s m p)"
    unfolding run_if_unlocked[OF L]
    by (cases "rcuspin L = None") (use m(1) L in \<open>auto simp: tx_ok_def prot_rcu_pub\<close>)
qed

subsection \<open>The lock of the list and the invariant\<close>

lemma tx_ok_lock:
  assumes "tx_ok (\<lambda>s. s = None) m" "lock_step m (lock_set (RcuSpin l) v m)" "v = None \<longrightarrow> calm l m"
  shows "tx_ok (\<lambda>s. s = None) (lock_set (RcuSpin l) v m)"
proof (rule tx_ok_frame[OF assms(1)])
  show "inv (lock_set (RcuSpin l) v m)" by (rule lock_step_inv[OF tx_inv[OF assms(1)] assms(2)])
qed (use assms(2,3) in \<open>auto simp: lock_step_def split: if_splits\<close>)

text \<open>While a thread holds the lock of a list nobody else changes anything that calm depends on.\<close>

lemma calm_held:
  assumes "inv m" "inv m'" "lists m l \<noteq> None"
    and "\<And>p. pub m l p \<Longrightarrow> nxt m' p = nxt m p \<and> rmvd m' p = rmvd m p \<and> in_chain m' l p = in_chain m l p"
    and "\<And>p. pub m' l p \<Longrightarrow> pub m l p" "calm_but Z l m"
  shows "calm_but Z l m'"
  unfolding calm_but_def
proof (intro allI impI)
  fix p assume p: "pub m' l p \<and> \<not> rmvd m' p \<and> \<not> rmvd m' (nxt m' p) \<and> nxt m' p \<notin> Z"
  then have q: "pub m l p" "nxt m' p = nxt m p" using assms(4,5) by auto
  have "rmvd m' (nxt m p) = rmvd m (nxt m p)"
  proof (cases "nxt m p = NULL")
    case True
    then show ?thesis using rmvd_null[OF inv_wfm[OF assms(1)]] rmvd_null[OF inv_wfm[OF assms(2)]] by simp
  next
    case False
    then show ?thesis using wf_next[OF inv_wfm[OF assms(1)] q(1)] assms(4) by blast
  qed
  then show "in_chain m' l p" using p q assms(4)[OF q(1)] assms(6) by (auto simp: calm_but_def)
qed

context fb_op
begin

lemma calm_locked_R:
  assumes "tx_ok (\<lambda>s. s = None) m" "locked t l m" "calm_but Z l m" "R m m'"
  shows "calm_but Z l m'"
proof -
  have r: "rely (tx_ok (\<lambda>s. s = None)) K prot_rcu t m m'" by (rule R_rely[OF assms(4)])
  have p: "prot_rcu t m p" if "pub m l p" for p by (rule locked_prot[OF assms(2) that])
  have l: "lists m l \<noteq> None" using locked_is_list[OF assms(2)] by (simp add: is_list_def)
  have j: "tx_ok (\<lambda>s. s = None) m'" using r assms(1) unfolding rely_def by blast
  show ?thesis
  proof (rule calm_held[OF tx_inv[OF assms(1)] tx_inv[OF j] l])
    show "nxt m' p = nxt m p \<and> rmvd m' p = rmvd m p \<and> in_chain m' l p = in_chain m l p" if "pub m l p" for p
      using r assms(1) p[OF that] that unfolding rely_def by blast
    show "pub m l p" if "pub m' l p" for p
      using r assms(1) p l that unfolding rely_def by blast
  qed (use assms(3) in auto)
qed

lemma calm_locked_local:
  assumes "tx_ok (\<lambda>s. s = None) m" "calm_but Z l m" "local_step t m m'"
  shows "calm_but Z l m'"
proof (rule calm_frame[OF J_wfm[OF assms(1)] J_wfm[OF J_local[OF assms(1,3)]] local_frame(1)[OF assms(3)]])
  show "rmvd m' p = rmvd m p" if "pub m l p" for p by (rule local_frame(2)[OF assms(3) that])
qed (rule assms(2))

end

sublocale fb_op \<subseteq> lock_op "tx_ok (\<lambda>s. s = None)" t R K U D l key kn b H w "calm l"
proof
  show "(l, key) \<in> U" by (rule fb_U)
  show "alone R \<or> may_block D" by (rule fb_block)
next
  fix m assume m: "tx_ok (\<lambda>s. s = None) m" "lock_get m (RcuSpin l) = Some None"
    "lock_step m (lock_set (RcuSpin l) (Some t) m)"
  have c: "calm l m" using m(1,2) by (auto simp: tx_ok_def)
  have j: "tx_ok (\<lambda>s. s = None) (lock_set (RcuSpin l) (Some t) m)" by (rule tx_ok_lock[OF m(1,3)]) simp
  have "calm l (lock_set (RcuSpin l) (Some t) m)"
    by (rule calm_frame[OF J_wfm[OF m(1)] J_wfm[OF j] _ _ c]) (use m(3) in \<open>simp_all add: lock_step_def\<close>)
  with j show "tx_ok (\<lambda>s. s = None) (lock_set (RcuSpin l) (Some t) m) \<and> calm l (lock_set (RcuSpin l) (Some t) m)"
    by blast
next
  fix m assume "tx_ok (\<lambda>s. s = None) m" "calm l m" "lock_step m (lock_set (RcuSpin l) None m)"
  then show "tx_ok (\<lambda>s. s = None) (lock_set (RcuSpin l) None m)" by (intro tx_ok_lock) simp_all
next
  fix m m' assume "tx_ok (\<lambda>s. s = None) m" "locked t l m" "calm l m" "R m m'"
  then show "calm l m'" by (rule calm_locked_R)
next
  fix m m' assume "tx_ok (\<lambda>s. s = None) m" "calm l m" "local_step t m m'"
  then show "calm l m'" by (rule calm_locked_local)
next
  fix m a x assume "tx_ok (\<lambda>s. s = None) m" "can_link t l a x m"
  then show "tx_ok (\<lambda>s. s = None) (assign_next t a x m) \<and> (calm l m \<longrightarrow> calm l (assign_next t a x m))"
    using tx_link calm_link by blast
next
  fix m a assume m: "tx_ok (\<lambda>s. s = None) m" "locked t l m" "can_unlink l a m"
  have "lists (unlink t a m) = lists m"
    using can_unlinkD(2)[OF m(3)] by (auto simp: pub_def assign_next_proj)
  then show "tx_ok (\<lambda>s. s = None) (unlink t a m)"
    using m calm_unlink_other[OF m(3)] unlink_inv[OF tx_inv[OF m(1)] m(3)]
    unfolding tx_ok_def locked_def by fastforce
qed

subsection \<open>The locked paths\<close>

context fb_op
begin

lemma t_enter:
  "triple (\<lambda>m. start m \<and> idle c m) (spin_lock (RcuSpin l)) (\<lambda>_ m. (settled m \<and> nest_is t c m) \<and> start m)"
  by (rule t_conseq[OF acquire[where A = "\<lambda>m. start m \<and> nest_is t c m"]])
    (intro stab_intros, intro stab_intros, auto simp: started_def)

lemma t_locked_walk:
  assumes "\<And>prev next v. triple (\<lambda>m. ((settled m \<and> nest_is t c m) \<and> start m) \<and> found True (prev, next, v) m) (k prev next v) Q"
  shows "triple (\<lambda>m. start m \<and> idle c m) (bind (spin_lock (RcuSpin l)) (\<lambda>_.
    bind (find_pos w l key) (\<lambda>(prev, next, v). k prev next v))) Q"
proof (rule t_bind[OF t_enter t_bind[OF locked_find_pos]], intro stab_intros)
  fix x :: "ptr \<times> ptr \<times> val_t"
  show "triple (\<lambda>m. ((settled m \<and> nest_is t c m) \<and> start m) \<and> found True x m) (case x of (prev, next, v) \<Rightarrow> k prev next v) Q"
    using assms by (cases x) simp
qed

lemma t_leave:
  assumes "stabJ R (tx_ok (\<lambda>s. s = None)) A" "stabJ lock_step (tx_ok (\<lambda>s. s = None)) A"
  shows "triple (\<lambda>m. (settled m \<and> nest_is t c m) \<and> A m) (spin_unlock (RcuSpin l)) (\<lambda>_ m. A m \<and> idle c m)"
  by (rule t_conseq[OF release[where A = "\<lambda>m. nest_is t c m \<and> A m"]])
    (intro stab_intros assms, intro stab_intros assms, auto)

lemma locked_insert:
  "triple (\<lambda>m. ((settled m \<and> nest_is t c m) \<and> start m) \<and> found True (prev, next, v) m)
    (if v \<noteq> key then new_after prev next key else Ret ())
    (\<lambda>_ m. (settled m \<and> nest_is t c m) \<and> add_done (v \<noteq> key) m)"
proof (rule t_if)
  assume v: "v \<noteq> key"
  let ?A = "\<lambda>m. (settled m \<and> nest_is t c m) \<and> gap prev next m \<and> start m \<and> (kn \<longrightarrow> \<not> b)"
  have a: "triple ?A (new_node_at key next) (\<lambda>x m. ?A m \<and> filled t x key next m)"
    by (rule t_new_node_at) (intro stab_intros)+
  have b: "triple (\<lambda>m. ?A m \<and> filled t x key next m) (rcu_assign_next prev x)
      (\<lambda>_ m. (settled m \<and> nest_is t c m) \<and> add_done (v \<noteq> key) m)" for x
    by (rule t_conseq[OF link_locked[where F = "nest_is t c"]])
      (intro stab_intros, intro stab_intros, use v in auto)
  show "triple (\<lambda>m. ((settled m \<and> nest_is t c m) \<and> start m) \<and> found True (prev, next, v) m)
    (new_after prev next key) (\<lambda>_ m. (settled m \<and> nest_is t c m) \<and> add_done (v \<noteq> key) m)"
    unfolding new_after_def
    by (rule t_pre[OF t_bind[OF a b]]) (use v found_gap found_known in blast)
next
  assume v: "\<not> v \<noteq> key"
  show "triple (\<lambda>m. ((settled m \<and> nest_is t c m) \<and> start m) \<and> found True (prev, next, v) m) (Ret ())
    (\<lambda>_ m. (settled m \<and> nest_is t c m) \<and> add_done (v \<noteq> key) m)"
    by (rule t_ret, intro stab_intros) (use v in simp, use found_known skip_add in blast)
qed

lemma locked_add_spec:
  "triple (\<lambda>m. start m \<and> idle (c + 1) m) (locked_add w l key)
    (\<lambda>r m. (\<exists>ins. add_done ins m \<and> r = of_bool ins) \<and> idle c m)"
  unfolding locked_add_def
proof (rule t_locked_walk)
  fix prev "next" v
  have un: "triple (\<lambda>m. (settled m \<and> nest_is t (c + 1) m) \<and> add_done ins m) (spin_unlock (RcuSpin l))
      (\<lambda>_ m. add_done ins m \<and> idle (c + 1) m)" for ins
    by (rule t_leave) (intro stab_intros)+
  show "triple (\<lambda>m. ((settled m \<and> nest_is t (c + 1) m) \<and> start m) \<and> found True (prev, next, v) m)
     (bind (if v \<noteq> key then new_after prev next key else Ret ()) (\<lambda>_.
      bind (spin_unlock (RcuSpin l)) (\<lambda>_. bind rcu_read_unlock (\<lambda>_. Ret (of_bool (v \<noteq> key))))))
     (\<lambda>r m. (\<exists>ins. add_done ins m \<and> r = of_bool ins) \<and> idle c m)"
    by (rule t_bind[OF locked_insert t_bind[OF un add_finish]])
qed

text \<open>The node after the bypassed one is marked, inside the critical section. It stays in the list, so the
  list then has a marked node in it, at least until another thread interferes.\<close>

definition spoiled :: "mach \<Rightarrow> bool" where
  "spoiled = when_alone R (\<lambda>m. \<exists>n. pub m l n \<and> in_chain m l n \<and> rmvd m n)"

lemma stabJ_spoiled [stab_intros]:
  "stabJ R (tx_ok (\<lambda>s. s = None)) spoiled" "stabJ (local_step t) (tx_ok (\<lambda>s. s = None)) spoiled"
  "stabJ lock_step (tx_ok (\<lambda>s. s = None)) spoiled"
proof -
  show "stabJ R (tx_ok (\<lambda>s. s = None)) spoiled" unfolding spoiled_def by (rule stabJ_when_alone)
  let ?S = "\<lambda>m. \<exists>n. pub m l n \<and> in_chain m l n \<and> rmvd m n"
  have "?S m'" if h: "tx_ok (\<lambda>s. s = None) m" "local_step t m m'" "?S m" for m m'
  proof -
    obtain n where n: "pub m l n" "in_chain m l n" "rmvd m n" using h(3) by blast
    have w: "wfm m" by (rule J_wfm[OF h(1)])
    have "pub m' l n" using h(2) n(1) by (simp add: local_step_def)
    then show ?thesis
      using n local_frame[OF h(2)] frame_in_chain[OF w local_frame(1)[OF h(2)] wf_pub_list[OF w n(1)]] by auto
  qed
  then have "stabJ (local_step t) (tx_ok (\<lambda>s. s = None)) ?S" by (auto simp: stabJ_def)
  then show "stabJ (local_step t) (tx_ok (\<lambda>s. s = None)) spoiled"
    unfolding spoiled_def by (rule stabJ_when_local)
  have "stabJ lock_step (tx_ok (\<lambda>s. s = None)) ?S"
    unfolding stabJ_def using lock_step_proj lock_step_in_chain by metis
  then show "stabJ lock_step (tx_ok (\<lambda>s. s = None)) spoiled"
    unfolding spoiled_def by (rule stabJ_when_local)
qed

lemma spoiled_nest [simp]: "spoiled (m\<lparr>rcu_nest := g\<rparr>) = spoiled m"
  by (simp add: spoiled_def when_alone_def pub_def in_chain_def hd_of_def rmvd_def nxt_def[abs_def])

lemma stabJ_crit_calm [stab_intros]: "stabJ R (tx_ok (\<lambda>s. s = None)) (\<lambda>m. crit m \<and> calm_but Z l m)"
  using calm_locked_R stabJ_crit(1) unfolding stabJ_def crit_def by blast

lemma mark_locked:
  assumes A: "stabJ R (tx_ok (\<lambda>s. s = None)) A" "stabJ sync_step (tx_ok (\<lambda>s. s = None)) A"
  shows "triple (\<lambda>m. (crit m \<and> calm_but {n} l m) \<and> held_in_chain prot_rcu t l n m \<and> A m) (set_removed n)
    (\<lambda>_ m. settled m \<and> A m \<and> spoiled m)"
  unfolding set_removed_def wr_def
proof (rule t_atomic, intro stab_intros A, intro stab_intros A)
  fix m assume m: "tx_ok (\<lambda>s. s = None) m" "(crit m \<and> calm_but {n} l m) \<and> held_in_chain prot_rcu t l n m \<and> A m"
  have n: "pub m l n" using m(2) by (auto simp: held_in_chain_def)
  then obtain n0 where n0: "mem m n = Some n0" by (auto simp: pub_def)
  let ?m = "mark n m"
  have j: "tx_ok (\<lambda>s. s = None) ?m"
    using m(1) inv_mark calm_mark by (auto simp: tx_ok_def mark_proj)
  have pr: "prot_rcu s ?m p = prot_rcu s m p" for s p
    by (simp add: prot_rcu_def mark_proj)
  have pv: "priv ?m s p \<and> mem ?m p = mem m p" if "priv m s p" for s p
  proof -
    have "p \<noteq> n" using that n by (auto simp: priv_def pub_def)
    from mark_proj(11)[OF this, of m] show ?thesis using that by (simp add: priv_def mark_proj(5))
  qed
  have "G m ?m"
  proof (rule frame_guar[OF m(1) j mark_frame])
    fix s l' p assume s: "s \<noteq> t" "pub m l' p" "prot_rcu s m p"
    have "p \<noteq> n" using s(1,3) crit_prot[OF _ n] m(2) prot_excl by blast
    then show "prot_rcu s ?m p \<and> rmvd ?m p = rmvd m p"
      using s(3) n0 by (simp add: pr rmvd_mark)
  next
    fix s p assume "priv m s p"
    then show "priv ?m s p \<and> mem ?m p = mem m p" by (rule pv)
  qed (simp_all add: mark_proj)
  moreover have "sync_step m ?m"
    using mark_frame[of m n] pv wfm_heap_ok[OF J_wfm[OF j]] by (simp add: sync_step_def mark_proj)
  then have "A ?m" using A(2) m j unfolding stabJ_def by blast
  moreover have "settled ?m"
    using m(2) calm_marked[of m n "{}" l] n0
    by (simp add: settled_def crit_def locked_def unlocked_def when_alone_def mark_proj)
  moreover have "spoiled ?m"
    using m(2) n0 by (auto simp: spoiled_def when_alone_def held_in_chain_def mark_proj rmvd_mark)
  moreover have "set_node n (n0\<lparr>removed := 1\<rparr>) m = ?m" using n0 by (simp add: mark_def)
  ultimately show "\<exists>a m'. (case mem m n of Some n' \<Rightarrow> Some ((), set_node n (n'\<lparr>removed := 1\<rparr>) m) | None \<Rightarrow> None) =
      Some (a, m') \<and> G m m' \<and> tx_ok (\<lambda>s. s = None) m' \<and> settled m' \<and> A m' \<and> spoiled m'"
    using n0 j by auto
qed

lemma locked_remove_marks:
  "triple (\<lambda>m. start m \<and> idle (c + 1) m) (locked_remove w l key)
    (\<lambda>r m. (\<exists>del. (del_done del m \<and> r = of_bool del) \<and> (del \<longrightarrow> spoiled m)) \<and> idle c m)"
  unfolding locked_remove_def
proof (rule t_locked_walk)
  fix prev "next" u
  let ?Q = "\<lambda>r m. (\<exists>del. (del_done del m \<and> r = of_bool del) \<and> (del \<longrightarrow> spoiled m)) \<and> idle c m"
  let ?F = "\<lambda>m. ((settled m \<and> nest_is t (c + 1) m) \<and> start m) \<and> found True (prev, next, u) m"
  let ?N = "\<lambda>n m. held_in_chain prot_rcu t l n m \<and> nest_is t (c + 1) m"
  let ?B = "\<lambda>n m. (settled m \<and> bypass prev next n m \<and> ?N n m) \<and> bypass prev next n m \<and> start m \<and> (kn \<longrightarrow> b)"
  let ?C = "\<lambda>n m. (crit m \<and> calm_but {n} l m \<and> ?N n m) \<and> del_done True m \<and> node_at l next key m"
  let ?D = "\<lambda>m. (del_done True m \<and> spoiled m) \<and> node_at l next key m"
  have rd: "triple ?F (rd next p_next) ?B" if u: "u = key"
  proof (rule t_rd, intro stab_intros, intro stab_intros)
    fix m assume m: "tx_ok (\<lambda>s. s = None) m" "?F m"
    then have p: "pub m l next" "vl m next = key" using u by (auto simp: found_def at_def node_at_def)
    have w: "wfm m" by (rule J_wfm[OF m(1)])
    have "nxt m next \<noteq> NULL" using wf_tail[OF w p(1)] p(2) key by (simp add: key_ok_def)
    then have n: "pub m l (nxt m next)" using wf_next[OF w p(1)] by blast
    have "in_chain m l prev" "nxt m prev = next"
      using m(2) by (auto simp: found_def at_def held_in_chain_def held_next_def)
    then have "in_chain m l (nxt m next)"
      using pub_not_null[OF w p(1)] \<open>nxt m next \<noteq> NULL\<close> reach_snoc unfolding in_chain_def by metis
    then have "held_in_chain prot_rcu t l (nxt m next) m"
      using n settled_prot m(2) by (auto simp: held_in_chain_def)
    moreover have "bypass prev next (nxt m next) m"
      using m(2) u found_bypass settled_prot p(1) by blast
    moreover have "kn \<longrightarrow> b" using m(2) u found_known by blast
    ultimately show "\<exists>n. mem m next = Some n \<and> ?B (p_next n) m"
      using m(2) pub_mem[OF p(1)] by auto
  qed
  have un: "triple (?B n) (rcu_assign_next prev n) (\<lambda>_. ?C n)" for n
  proof (rule t_conseq[OF unlink_locked])
    show "stabJ R (tx_ok (\<lambda>s. s = None)) (\<lambda>m. bypass prev next n m \<and> ?N n m)" by (intro stab_intros)
    have "stabJ R (tx_ok (\<lambda>s. s = None)) (\<lambda>m. (crit m \<and> calm_but {n} l m) \<and> ?N n m)" by (intro stab_intros)
    then show "stabJ R (tx_ok (\<lambda>s. s = None)) (\<lambda>m. crit m \<and> calm_but {n} l m \<and> ?N n m)"
      by (simp only: conj_assoc)
    fix m assume m: "tx_ok (\<lambda>s. s = None) m" "settled m" "bypass prev next n m \<and> ?N n m" "can_unlink l prev m"
      "nxt m prev = next"
    then have n: "nxt m next = n" by (auto simp: bypass_def held_next_def)
    have "calm_but {n} l (unlink t prev m)"
      by (rule calm_bypass[OF m(4)]) (use m(2,5) n in \<open>simp_all add: settled_def\<close>)
    moreover have "?N n (unlink t prev m)"
    proof -
      note u = can_unlinkD[OF m(4)]
      have "n \<noteq> nxt m prev" using u(9) m(5) n by auto
      then have "in_chain (unlink t prev m) l n"
        using m(3) unlink_in_chain[OF m(4)] by (auto simp: held_in_chain_def)
      moreover have "prot_rcu t (unlink t prev m) n = prot_rcu t m n"
        by (rule prot_rcu_lists[of _ _ l])
          (use u(2) m(3) unlink_pub[OF m(4)] in \<open>auto simp: held_in_chain_def pub_def assign_next_proj\<close>)
      ultimately show ?thesis
        using m(3) unlink_pub[OF m(4)] u(2)
        by (auto simp: held_in_chain_def nest_is_def assign_next_proj pub_def)
    qed
    ultimately show "calm_but {n} l (unlink t prev m) \<and> ?N n (unlink t prev m)" by blast
  qed auto
  have mk: "triple (?C n) (set_removed n) (\<lambda>_ m. (settled m \<and> nest_is t (c + 1) m) \<and> ?D m)" for n
    by (rule t_conseq[OF mark_locked[where A = "\<lambda>m. nest_is t (c + 1) m \<and> del_done True m \<and> node_at l next key m"]])
      (intro stab_intros, intro stab_intros, auto)
  have ul: "triple (\<lambda>m. (settled m \<and> nest_is t (c + 1) m) \<and> ?D m) (spin_unlock (RcuSpin l)) (\<lambda>_ m. ?D m \<and> idle (c + 1) m)"
    by (rule t_leave) (intro stab_intros)+
  have lv: "triple (\<lambda>m. ?D m \<and> idle (c + 1) m) rcu_read_unlock (\<lambda>_ m. ?D m \<and> idle (c + 1 - 1) m)"
    by (rule leave_section) (intro stab_intros, simp)
  have fr: "triple (\<lambda>m. ?D m \<and> idle (c + 1 - 1) m) (rcx_free_node next) (\<lambda>_ m. (del_done True m \<and> spoiled m) \<and> idle (c + 1 - 1) m)"
    by (rule free_rcu) (intro stab_intros)+
  have r1: "triple (\<lambda>m. (del_done True m \<and> spoiled m) \<and> idle (c + 1 - 1) m) (Ret 1) ?Q"
    by (rule t_ret, intro stab_intros) (auto intro!: exI[of _ True])
  have yes: "triple ?F (bind (rd next p_next) (\<lambda>n. bind (rcu_assign_next prev n) (\<lambda>_. bind (set_removed n) (\<lambda>_.
      bind (spin_unlock (RcuSpin l)) (\<lambda>_. bind rcu_read_unlock (\<lambda>_. bind (rcx_free_node next) (\<lambda>_. Ret 1)))))))
      ?Q" if "u = key"
    by (rule t_bind[OF rd[OF that] t_bind[OF un t_bind[OF mk t_bind[OF ul t_bind[OF lv t_bind[OF fr r1]]]]]])
  have no: "triple ?F (bind (spin_unlock (RcuSpin l)) (\<lambda>_. bind rcu_read_unlock (\<lambda>_. Ret 0))) ?Q" if "u \<noteq> key"
  proof -
    have a: "triple ?F (spin_unlock (RcuSpin l)) (\<lambda>_ m. del_done False m \<and> idle (c + 1) m)"
      by (rule t_pre[OF t_leave[where A = "del_done False"]])
        (intro stab_intros, intro stab_intros, use that found_known skip_del in blast)
    have b: "triple (\<lambda>m. del_done False m \<and> idle (c + 1) m) rcu_read_unlock
        (\<lambda>_ m. del_done False m \<and> idle (c + 1 - 1) m)"
      by (rule leave_section) (intro stab_intros, simp)
    have d: "triple (\<lambda>m. del_done False m \<and> idle (c + 1 - 1) m) (Ret 0) ?Q"
      by (rule t_ret, intro stab_intros) (auto intro!: exI[of _ False])
    show ?thesis by (rule t_bind[OF a t_bind[OF b d]])
  qed
  show "triple ?F (bind (rd next val) (\<lambda>v.
      if v = key then bind (rd next p_next) (\<lambda>n. bind (rcu_assign_next prev n) (\<lambda>_. bind (set_removed n) (\<lambda>_.
        bind (spin_unlock (RcuSpin l)) (\<lambda>_. bind rcu_read_unlock (\<lambda>_. bind (rcx_free_node next) (\<lambda>_. Ret 1))))))
      else bind (spin_unlock (RcuSpin l)) (\<lambda>_. bind rcu_read_unlock (\<lambda>_. Ret 0)))) ?Q"
  proof (rule t_bind)
    show "triple ?F (rd next val) (\<lambda>v m. ?F m \<and> v = u)"
      by (rule t_conseq[OF reread_spec[where A = "\<lambda>m. (settled m \<and> nest_is t (c + 1) m) \<and> start m" and lk = True]])
        (intro stab_intros, auto)
  qed (intro t_pull t_if, use yes no in auto)
qed

lemma locked_remove_spec:
  "triple (\<lambda>m. start m \<and> idle (c + 1) m) (locked_remove w l key)
    (\<lambda>r m. (\<exists>del. del_done del m \<and> r = of_bool del) \<and> idle c m)"
  by (rule t_conseq[OF locked_remove_marks]) blast+

subsection \<open>One attempt\<close>

abbreviation "add_ends c r m \<equiv> (\<exists>ins. add_done ins m \<and> r = (of_bool ins :: int)) \<and> idle c m"
abbreviation "del_ends c r m \<equiv> (\<exists>del. del_done del m \<and> r = (of_bool del :: int)) \<and> idle c m"

lemma t_wait:
  assumes "stabJ R (tx_ok (\<lambda>s. s = None)) A" "\<And>m. A m \<Longrightarrow> is_list l m"
  shows "triple (\<lambda>m. A m \<and> idle c m) (wait_unlocked (RcuSpin l)) (\<lambda>_ m. A m \<and> idle c m)"
  by (rule t_wait_unlocked, intro stab_intros assms(1))
    (use assms(2) fb_block in \<open>auto simp: is_list_def when_alone_def unlocked_def\<close>)

lemma t_add_attempt:
  assumes v: "v \<noteq> key"
    and fail: "\<And>x s. triple (\<lambda>m. (start m \<and> filled t x key next m) \<and> idle (c + 1) m) (k x s) (add_ends c)"
  shows "triple (\<lambda>m. (start m \<and> found False (prev, next, v) m) \<and> idle (c + 1) m)
    (bind (new_node_at key next) (\<lambda>x. bind (wait_unlocked (RcuSpin l)) (\<lambda>_.
     bind (xact (if_unlocked l (link_tx prev next x))) (\<lambda>s.
     if s = XBEGIN_STARTED then bind rcu_read_unlock (\<lambda>_. Ret 1) else k x s)))) (add_ends c)"
proof (rule t_bind[OF add_attempt(1)[OF v]])
  fix x
  let ?W = "\<lambda>m. ((start m \<and> found False (prev, next, v) m) \<and> filled t x key next m) \<and> idle (c + 1) m"
  let ?T = "\<lambda>s m. (if s = XBEGIN_STARTED then add_done True m else start m \<and> filled t x key next m) \<and> idle (c + 1) m"
  have wt: "triple ?W (wait_unlocked (RcuSpin l)) (\<lambda>_. ?W)"
    by (rule t_wait) (intro stab_intros, simp add: started_def)
  have ok: "triple (?T s) (bind rcu_read_unlock (\<lambda>_. Ret 1)) (add_ends c)" if "s = XBEGIN_STARTED" for s
    by (rule t_pre[OF add_finish[of True c, unfolded of_bool_eq(2)]]) (use that in simp)
  have bad: "triple (?T s) (k x s) (add_ends c)" if "s \<noteq> XBEGIN_STARTED" for s
    by (rule t_pre[OF fail]) (use that in simp)
  have rest: "triple ?W (bind (xact (if_unlocked l (link_tx prev next x))) (\<lambda>s.
     if s = XBEGIN_STARTED then bind rcu_read_unlock (\<lambda>_. Ret 1) else k x s)) (add_ends c)"
    by (rule t_bind[OF add_attempt(2)[OF v]], rule t_if[OF ok bad]; assumption)
  show "triple ?W (bind (wait_unlocked (RcuSpin l)) (\<lambda>_. bind (xact (if_unlocked l (link_tx prev next x))) (\<lambda>s.
     if s = XBEGIN_STARTED then bind rcu_read_unlock (\<lambda>_. Ret 1) else k x s))) (add_ends c)"
    by (rule t_bind[OF wt rest])
qed

lemma t_remove_attempt:
  assumes ok: "triple (\<lambda>m. (del_done True m \<and> node_at l next key m) \<and> idle (c + 1) m) j Q"
    and fail: "\<And>s. triple (\<lambda>m. start m \<and> idle (c + 1) m) (k s) Q"
    and no: "(kn \<Longrightarrow> \<not> b) \<Longrightarrow> triple (\<lambda>m. start m \<and> idle (c + 1) m) i Q"
  shows "triple (\<lambda>m. (start m \<and> found False (prev, next, u) m) \<and> idle (c + 1) m)
    (bind (rd next val) (\<lambda>v. if v = key then
       bind (wait_unlocked (RcuSpin l)) (\<lambda>_. bind (rd next p_next) (\<lambda>n.
       bind (xact (if_unlocked l (unlink_tx prev next n))) (\<lambda>s.
       if s = XBEGIN_STARTED then j else k s)))
     else i)) Q"
proof (rule t_bind)
  let ?F = "\<lambda>m. (start m \<and> found False (prev, next, u) m) \<and> idle (c + 1) m"
  let ?T = "\<lambda>s m. (if s = XBEGIN_STARTED then del_done True m \<and> node_at l next key m else start m) \<and> idle (c + 1) m"
  show "triple ?F (rd next val) (\<lambda>v m. ?F m \<and> v = u)"
    by (rule t_conseq[OF reread_spec[where A = "\<lambda>m. start m \<and> idle (c + 1) m" and lk = False]])
      (intro stab_intros, auto)
  have wt: "triple ?F (wait_unlocked (RcuSpin l)) (\<lambda>_. ?F)"
    by (rule t_wait) (intro stab_intros, simp add: started_def)
  have "triple (?T s) j Q" if "s = XBEGIN_STARTED" for s
    by (rule t_pre[OF ok]) (use that in simp)
  moreover have "triple (?T s) (k s) Q" if "s \<noteq> XBEGIN_STARTED" for s
    by (rule t_pre[OF fail]) (use that in simp)
  ultimately have tail: "triple (?T s) (if s = XBEGIN_STARTED then j else k s) Q" for s
    by (rule t_if)
  have yes: "triple ?F (bind (wait_unlocked (RcuSpin l)) (\<lambda>_. bind (rd next p_next) (\<lambda>n.
       bind (xact (if_unlocked l (unlink_tx prev next n))) (\<lambda>s.
       if s = XBEGIN_STARTED then j else k s)))) Q" if "u = key"
    using t_bind[OF wt[unfolded that] t_bind[OF read_succ t_bind[OF remove_attempt tail]]] that by simp
  have absent: "triple ?F i Q" if "u \<noteq> key"
  proof (rule t_drop[of _ "kn \<longrightarrow> \<not> b"])
    show "kn \<longrightarrow> \<not> b" if "?F m" for m using that \<open>u \<noteq> key\<close> found_known by blast
    show "triple ?F i Q" if "kn \<longrightarrow> \<not> b" by (rule t_pre[OF no]) (use that in auto)
  qed
  fix v
  show "triple (\<lambda>m. ?F m \<and> v = u) (if v = key then bind (wait_unlocked (RcuSpin l)) (\<lambda>_. bind (rd next p_next) (\<lambda>n.
       bind (xact (if_unlocked l (unlink_tx prev next n))) (\<lambda>s. if s = XBEGIN_STARTED then j else k s)))
     else i) Q"
    by (intro t_pull) (use yes absent in auto)
qed

subsection \<open>The fallback after a number of aborts\<close>

lemma lf_add_spec:
  "triple (\<lambda>m. start m \<and> idle c m) (lf_add_from w l key retries) (add_ends c)"
proof (induction "Suc LF_RETRY_LIMIT - retries" arbitrary: retries)
  case 0
  have en: "triple (\<lambda>m. start m \<and> idle c m) rcu_read_lock (\<lambda>_ m. start m \<and> idle (c + 1) m)"
    by (rule enter_section) (intro stab_intros, simp)
  show ?case
    unfolding lf_add_from.simps[of w l key retries]
    by (rule t_bind[OF en]) (use 0 locked_add_spec in simp)
next
  case (Suc k)
  let ?S = "\<lambda>x next m. (start m \<and> filled t x key next m) \<and> idle (c + 1) m"
  let ?again = "bind rcu_read_unlock (\<lambda>_. lf_add_from w l key (Suc retries))"
  have na: "triple (?S x next) (record_abort s) (\<lambda>_. ?S x next)" for x s "next"
    by (rule note_abort) (intro stab_intros)+
  have lv: "triple (\<lambda>m. start m \<and> idle (c + 1) m) rcu_read_unlock (\<lambda>_ m. start m \<and> idle c m)"
    by (rule t_conseq[OF leave_section[where A = start and c = "c + 1"]]) (intro stab_intros, auto)
  have IH: "triple (\<lambda>m. start m \<and> idle c m) (lf_add_from w l key (Suc retries)) (add_ends c)"
    by (rule Suc.hyps(1)) (use Suc.hyps(2) in simp)
  have fail: "triple (?S x next) (bind (record_abort s) (\<lambda>_. bind (kfree_node x) (\<lambda>_. ?again))) (add_ends c)"
    for x s "next"
    by (rule t_bind[OF na t_bind[OF drop_node t_bind[OF lv IH]]])
  have pr: "triple (\<lambda>m. (start m \<and> found False (prev, next, v) m) \<and> idle (c + 1) m)
      (bind rcu_read_unlock (\<lambda>_. Ret 0)) (add_ends c)" if "\<not> v \<noteq> key" for prev "next" v
    by (rule add_present) (use that in simp)
  have lim: "\<not> LF_RETRY_LIMIT < retries" using Suc.hyps(2) by simp
  show ?case
    unfolding lf_add_from.simps[of w l key retries] if_not_P[OF lim]
    by (rule t_walk, rule t_if[OF t_add_attempt[OF _ fail] pr]; assumption)
qed

lemma lf_remove_spec:
  "triple (\<lambda>m. start m \<and> idle c m) (lf_remove_from w l key retries) (del_ends c)"
proof (induction "LF_RETRY_LIMIT - retries" arbitrary: retries)
  case 0
  have en: "triple (\<lambda>m. start m \<and> idle c m) rcu_read_lock (\<lambda>_ m. start m \<and> idle (c + 1) m)"
    by (rule enter_section) (intro stab_intros, simp)
  show ?case
    unfolding lf_remove_from.simps[of w l key retries]
    by (rule t_bind[OF en]) (use 0 locked_remove_spec in simp)
next
  case (Suc k)
  let ?D = "\<lambda>next m. del_done True m \<and> node_at l next key m"
  have lv1: "triple (\<lambda>m. ?D next m \<and> idle (c + 1) m) rcu_read_unlock (\<lambda>_ m. ?D next m \<and> idle c m)" for "next"
    by (rule t_conseq[OF leave_section[where A = "?D next" and c = "c + 1"]]) (intro stab_intros, auto)
  have fr: "triple (\<lambda>m. ?D next m \<and> idle c m) (rcx_free_node next) (\<lambda>_ m. del_done True m \<and> idle c m)" for "next"
    by (rule free_rcu) (intro stab_intros)+
  have r1: "triple (\<lambda>m. del_done True m \<and> idle c m) (Ret 1) (del_ends c)"
    by (rule t_ret, intro stab_intros) (auto intro!: exI[of _ True])
  have lv2: "triple (\<lambda>m. start m \<and> idle (c + 1) m) rcu_read_unlock (\<lambda>_ m. start m \<and> idle c m)"
    by (rule t_conseq[OF leave_section[where A = start and c = "c + 1"]]) (intro stab_intros, auto)
  have na: "triple (\<lambda>m. start m \<and> idle c m) (record_abort s) (\<lambda>_ m. start m \<and> idle c m)" for s
    by (rule note_abort) (intro stab_intros)+
  have IH: "triple (\<lambda>m. start m \<and> idle c m) (lf_remove_from w l key (Suc retries)) (del_ends c)"
    by (rule Suc.hyps(1)) (use Suc.hyps(2) in simp)
  have lim: "\<not> LF_RETRY_LIMIT \<le> retries" using Suc.hyps(2) by simp
  show ?case
    unfolding lf_remove_from.simps[of w l key retries] if_not_P[OF lim]
    by (rule t_walk, rule t_remove_attempt[OF t_bind[OF lv1 t_bind[OF fr r1]]
        t_bind[OF lv2 t_bind[OF na IH]] t_bind[OF lv2 del_absent]])
qed

subsection \<open>The fallback the status word asks for\<close>

text \<open>The retries are unbounded: nothing limits how often the hardware asks for one.\<close>

lemma fb1_add_spec:
  assumes "may_diverge D"
  shows "triple (\<lambda>m. start m \<and> idle c m) (rcx_list_fb1_add w f l key) (add_ends c)"
proof (induction f)
  case 0
  show ?case using t_diverge[OF assms] by simp
next
  case (Suc f)
  let ?S = "\<lambda>x next m. (start m \<and> filled t x key next m) \<and> idle c m"
  have lv: "triple (\<lambda>m. (start m \<and> filled t x key next m) \<and> idle (c + 1) m) rcu_read_unlock (\<lambda>_. ?S x next)"
    for x "next"
    by (rule t_conseq[OF leave_section[where A = "\<lambda>m. start m \<and> filled t x key next m" and c = "c + 1"]])
      (intro stab_intros, auto simp: filled_def own_node_def)
  have na: "triple (?S x next) (record_abort s) (\<lambda>_. ?S x next)" for x s "next"
    by (rule note_abort) (intro stab_intros)+
  have en: "triple (\<lambda>m. start m \<and> idle c m) rcu_read_lock (\<lambda>_ m. start m \<and> idle (c + 1) m)"
    by (rule enter_section) (intro stab_intros, simp)
  have "triple (\<lambda>m. start m \<and> idle c m) (if s AND XABORT_RETRY \<noteq> 0 then rcx_list_fb1_add w f l key
      else bind rcu_read_lock (\<lambda>_. locked_add w l key)) (add_ends c)" for s
    by (rule t_if[OF Suc.IH t_bind[OF en locked_add_spec]])
  then have fail: "triple (\<lambda>m. (start m \<and> filled t x key next m) \<and> idle (c + 1) m)
      (bind rcu_read_unlock (\<lambda>_. bind (record_abort s) (\<lambda>_. bind (kfree_node x) (\<lambda>_.
       if s AND XABORT_RETRY \<noteq> 0 then rcx_list_fb1_add w f l key
       else bind rcu_read_lock (\<lambda>_. locked_add w l key))))) (add_ends c)" for x s "next"
    by (rule t_bind[OF lv t_bind[OF na t_bind[OF drop_node]]])
  have pr: "triple (\<lambda>m. (start m \<and> found False (prev, next, v) m) \<and> idle (c + 1) m)
      (bind rcu_read_unlock (\<lambda>_. Ret 0)) (add_ends c)" if "\<not> v \<noteq> key" for prev "next" v
    by (rule add_present) (use that in simp)
  show ?case
    unfolding rcx_list_fb1_add.simps
    by (rule t_walk, rule t_if[OF t_add_attempt[OF _ fail] pr]; assumption)
qed

text \<open>A removal that ends in the locked path leaves one read-side section too many.\<close>

lemma fb1_remove_spec:
  assumes "may_diverge D"
  shows "triple (\<lambda>m. start m \<and> idle c m) (rcx_list_fb1_remove w f l key)
    (\<lambda>r m. del_ends c r m \<or> del_ends (c - 1) r m)"
proof (induction f)
  case 0
  show ?case using t_diverge[OF assms] by simp
next
  case (Suc f)
  let ?Q = "\<lambda>r m. del_ends c r m \<or> del_ends (c - 1) r m"
  let ?D = "\<lambda>next m. del_done True m \<and> node_at l next key m"
  have fr: "triple (\<lambda>m. ?D next m \<and> idle (c + 1) m) (rcx_free_node next) (\<lambda>_ m. del_done True m \<and> idle (c + 1) m)"
    for "next" by (rule free_rcu) (intro stab_intros)+
  have lv1: "triple (\<lambda>m. del_done True m \<and> idle (c + 1) m) rcu_read_unlock (\<lambda>_ m. del_done True m \<and> idle c m)"
    by (rule t_conseq[OF leave_section[where A = "del_done True" and c = "c + 1"]]) (intro stab_intros, auto)
  have r1: "triple (\<lambda>m. del_done True m \<and> idle c m) (Ret 1) ?Q"
    by (rule t_ret, intro stab_intros) (auto intro!: exI[of _ True])
  have lv2: "triple (\<lambda>m. start m \<and> idle (c + 1) m) rcu_read_unlock (\<lambda>_ m. start m \<and> idle c m)"
    by (rule t_conseq[OF leave_section[where A = start and c = "c + 1"]]) (intro stab_intros, auto)
  have na: "triple (\<lambda>m. start m \<and> idle c m) (record_abort s) (\<lambda>_ m. start m \<and> idle c m)" for s
    by (rule note_abort) (intro stab_intros)+
  have lk: "triple (\<lambda>m. start m \<and> idle c m) (locked_remove w l key) ?Q"
    by (rule t_conseq[OF locked_remove_spec[where c = "c - 1"]]) auto
  have alt: "triple (\<lambda>m. start m \<and> idle c m) (if s AND XABORT_RETRY \<noteq> 0 then rcx_list_fb1_remove w f l key
      else locked_remove w l key) ?Q" for s
    by (rule t_if[OF Suc.IH lk])
  have no: "triple (\<lambda>m. start m \<and> idle (c + 1) m) (bind rcu_read_unlock (\<lambda>_. Ret 0)) ?Q" if "kn \<Longrightarrow> \<not> b"
    by (rule t_conseq[OF t_bind[OF lv2 del_absent[OF that]]]) auto
  show ?case
    unfolding rcx_list_fb1_remove.simps
    by (rule t_walk, rule t_remove_attempt[OF t_bind[OF fr t_bind[OF lv1 r1]] t_bind[OF lv2 t_bind[OF na alt]] no])
qed

end

end
