(* ===== verification/RcxHash.thy ===== *)
theory RcxHash
  imports RcxList
begin

text \<open>
  The rest of rcx-hash-list.c: the NUMA-aware updates, which take lock bytes by a transaction and the
  spinlocks of the nodes after them, and the hash table over the lists with all its entry points.
\<close>

subsection \<open>NUMA-aware updates\<close>

fun rcx_list_numa_add :: "nat \<Rightarrow> nat \<Rightarrow> nat \<Rightarrow> ptr \<Rightarrow> val_t \<Rightarrow> int prog" where
  "rcx_list_numa_add w g 0 p_list key = Diverge"
| "rcx_list_numa_add w g (Suc f) p_list key =
    bind rcu_read_lock (\<lambda>_.
    bind (find_pos w p_list key) (\<lambda>(prev, next, v).
    if v \<noteq> key then
      bind (new_node_at key next) (\<lambda>p_new_node.
      bind (spin_while g (any_taken pnodelock_of [prev, next])) (\<lambda>_.
      bind (xact (grab_tx pnodelock_of set_pnodelock [prev, next])) (\<lambda>tx_stat.
      if tx_stat \<noteq> XBEGIN_STARTED then
        bind rcu_read_unlock (\<lambda>_.
        bind (record_abort tx_stat) (\<lambda>_.
        bind (kfree_node p_new_node) (\<lambda>_.
        rcx_list_numa_add w g f p_list key)))
      else
        let unlock_retry =
          bind (spin_unlock (Global next)) (\<lambda>_.
          bind (spin_unlock (Global prev)) (\<lambda>_.
          bind (for_each [next, prev] (set_pnodelock 0)) (\<lambda>_.
          bind rcu_read_unlock (\<lambda>_.
          bind (kfree_node p_new_node) (\<lambda>_.
          rcx_list_numa_add w g f p_list key)))))
        in
        bind (spin_lock (Global prev)) (\<lambda>_.
        bind (spin_lock (Global next)) (\<lambda>_.
        bind (any_moved [(prev, next)]) (\<lambda>moved.
        if moved then
          bind rcu_read_unlock (\<lambda>_.
          bind (record_reason ABORT_CONFLICT) (\<lambda>_. unlock_retry))
        else
        bind (any_removed [prev, next]) (\<lambda>gone.
        if gone then
          bind rcu_read_unlock (\<lambda>_.
          bind (record_reason ABORT_DOUBLE_FREE) (\<lambda>_. unlock_retry))
        else
        bind (rcu_assign_next prev p_new_node) (\<lambda>_.
        bind (spin_unlock (Global next)) (\<lambda>_.
        bind (spin_unlock (Global prev)) (\<lambda>_.
        bind (for_each [prev, next] (set_pnodelock 0)) (\<lambda>_.
        bind rcu_read_unlock (\<lambda>_.
        Ret 1))))))))))))
    else Ret 0))"

fun rcx_list_numa_remove :: "nat \<Rightarrow> nat \<Rightarrow> nat \<Rightarrow> ptr \<Rightarrow> val_t \<Rightarrow> int prog" where
  "rcx_list_numa_remove w g 0 p_list key = Diverge"
| "rcx_list_numa_remove w g (Suc f) p_list key =
    bind rcu_read_lock (\<lambda>_.
    bind (find_pos w p_list key) (\<lambda>(prev, next, _).
    bind (rd next val) (\<lambda>v.
    if v = key then
      bind (rd next p_next) (\<lambda>n.
      bind (spin_while g (any_taken pnodelock_of [prev, next, n])) (\<lambda>_.
      bind (xact (grab_tx pnodelock_of set_pnodelock [prev, next, n])) (\<lambda>tx_stat.
      if tx_stat \<noteq> XBEGIN_STARTED then
        bind rcu_read_unlock (\<lambda>_.
        bind (record_abort tx_stat) (\<lambda>_.
        rcx_list_numa_remove w g f p_list key))
      else
        let unlock_retry =
          bind (spin_unlock (Global n)) (\<lambda>_.
          bind (spin_unlock (Global next)) (\<lambda>_.
          bind (spin_unlock (Global prev)) (\<lambda>_.
          bind (for_each [n, next, prev] (set_pnodelock 0)) (\<lambda>_.
          bind rcu_read_unlock (\<lambda>_.
          rcx_list_numa_remove w g f p_list key)))))
        in
        bind (spin_lock (Global prev)) (\<lambda>_.
        bind (spin_lock (Global next)) (\<lambda>_.
        bind (spin_lock (Global n)) (\<lambda>_.
        bind (any_removed [prev, next, n]) (\<lambda>gone.
        if gone then
          bind rcu_read_unlock (\<lambda>_.
          bind (record_reason ABORT_DOUBLE_FREE) (\<lambda>_. unlock_retry))
        else
        bind (any_moved [(prev, next), (next, n)]) (\<lambda>moved.
        if moved then
          bind rcu_read_unlock (\<lambda>_.
          bind (record_reason ABORT_CONFLICT) (\<lambda>_. unlock_retry))
        else
        bind (rcu_assign_next prev n) (\<lambda>_.
        bind (set_removed next) (\<lambda>_.
        bind (rcx_free_node next) (\<lambda>_.
        bind (spin_unlock (Global n)) (\<lambda>_.
        bind (spin_unlock (Global next)) (\<lambda>_.
        bind (spin_unlock (Global prev)) (\<lambda>_.
        bind (for_each [n, next, prev] (set_pnodelock 0)) (\<lambda>_.
        bind rcu_read_unlock (\<lambda>_.
        Ret 1))))))))))))))))
    else bind rcu_read_unlock (\<lambda>_. Ret 0))))"

subsection \<open>The hash table\<close>

fun rcx_fill_buckets :: "nat \<Rightarrow> int \<Rightarrow> int \<Rightarrow> unit prog" where
  "rcx_fill_buckets 0 i n = Ret ()"
| "rcx_fill_buckets (Suc k) i n =
    (if i < n then
       bind rcx_new_list (\<lambda>l.
       bind (set_bucket i l) (\<lambda>_.
       rcx_fill_buckets k (i + 1) n))
     else Ret ())"

definition rcx_new_hash_list :: "int \<Rightarrow> unit prog" where
  "rcx_new_hash_list n =
    bind (get (\<lambda>t m. kalloc m [] (kcnt m))) (\<lambda>p_hash_list.
    if p_hash_list = NULL
    then atomic (\<lambda>t m. Some ((), m\<lparr>g_hash_list := None\<rparr>))
    else
      bind (atomic (\<lambda>t m. Some ((), m\<lparr>g_hash_list := Some \<lparr>n_buckets = n, buckets = (\<lambda>_. NULL)\<rparr>\<rparr>)))
        (\<lambda>_. rcx_fill_buckets (nat n) 0 n))"

definition rcx_hash_list_init :: "int \<Rightarrow> int prog" where
  "rcx_hash_list_init nr_buckets = bind (rcx_new_hash_list nr_buckets) (\<lambda>_. Ret 0)"

fun rcx_hash_destroy_loop :: "nat \<Rightarrow> nat \<Rightarrow> int \<Rightarrow> unit prog" where
  "rcx_hash_destroy_loop w 0 i = Diverge"
| "rcx_hash_destroy_loop w (Suc k) i =
    bind n_buckets_of (\<lambda>n.
    if i < n then
      bind (bucket_at i) (\<lambda>l.
      bind (rcx_list_destroy w l) (\<lambda>_.
      bind (bucket_at i) (\<lambda>l.
      bind (kfree_list l) (\<lambda>_.
      rcx_hash_destroy_loop w k (i + 1)))))
    else Ret ())"

definition rcx_hash_list_destroy :: "nat \<Rightarrow> unit prog" where
  "rcx_hash_list_destroy w =
    bind (rcx_hash_destroy_loop w (Suc MAX_BUCKETS) 0) (\<lambda>_.
    atomic (\<lambda>t m. Some ((), m\<lparr>g_hash_list := None\<rparr>)))"

fun rcx_hash_size_loop :: "nat \<Rightarrow> nat \<Rightarrow> int \<Rightarrow> int \<Rightarrow> int prog" where
  "rcx_hash_size_loop w 0 i sz = Diverge"
| "rcx_hash_size_loop w (Suc k) i sz =
    bind n_buckets_of (\<lambda>n.
    if i < n then
      bind (bucket_at i) (\<lambda>l.
      bind (rcx_list_size w l) (\<lambda>s. rcx_hash_size_loop w k (i + 1) (sz + s)))
    else Ret sz)"

definition rcx_hash_list_size :: "nat \<Rightarrow> int prog" where
  "rcx_hash_list_size w = rcx_hash_size_loop w (Suc MAX_BUCKETS) 0 0"

definition rcx_hash_list_contains :: "nat \<Rightarrow> val_t \<Rightarrow> int prog" where
  "rcx_hash_list_contains w key =
    bind (with_bucket (rcx_list_contains w) key) (\<lambda>r. Ret (if r \<noteq> 0 then 0 else - ENOENT))"

definition rcx_hash_list_add :: "nat \<Rightarrow> val_t \<Rightarrow> int prog" where
  "rcx_hash_list_add w key =
    bind (with_bucket (rcx_list_add w) key) (\<lambda>result. Ret (if result = 2 then - 1 else 0))"

definition rcx_hash_list_try_add :: "nat \<Rightarrow> val_t \<Rightarrow> int prog" where
  "rcx_hash_list_try_add w key =
    bind (with_bucket (rcx_list_add w) key) (\<lambda>result. Ret (if result = 2 then - 1 else 0))"

definition rcx_hash_list_remove :: "nat \<Rightarrow> val_t \<Rightarrow> int prog" where
  "rcx_hash_list_remove w key =
    bind (with_bucket (rcx_list_remove w) key) (\<lambda>result. Ret (if result = 2 then - 1 else 0))"

definition rcx_hash_list_try_remove :: "nat \<Rightarrow> val_t \<Rightarrow> int prog" where
  "rcx_hash_list_try_remove w key =
    bind (with_bucket (rcx_list_remove w) key) (\<lambda>result. Ret (if result = 2 then - 1 else 0))"

text \<open>sync\_test.c's clock test, in \<open>unsigned long\<close> arithmetic.\<close>

definition ms_of :: "timespec \<Rightarrow> int" where
  "ms_of ts = tv_sec ts * 1000 + c_div (c_div (tv_nsec ts) 1000) 1000"

definition current_kernel_time :: "timespec prog" where
  "current_kernel_time = atomic (\<lambda>t m. Some (ktime m (tcnt m), m\<lparr>tcnt := tcnt m + 1\<rparr>))"

definition benchmark_endtime :: "int prog" where
  "benchmark_endtime =
    bind current_kernel_time (\<lambda>now.
    bind (get (\<lambda>t m. (bench_start_time m, duration m))) (\<lambda>(start, dur).
    Ret (of_bool ((of_int dur :: 64 word) \<le> of_int (ms_of now - ms_of start)))))"

text \<open>The retry versions abort until an attempt succeeds or the benchmark ends.\<close>

fun retry_loop :: "nat \<Rightarrow> (ptr \<Rightarrow> val_t \<Rightarrow> int prog) \<Rightarrow> int \<Rightarrow> val_t \<Rightarrow> int prog" where
  "retry_loop 0 op hash key = Diverge"
| "retry_loop (Suc f) op hash key =
    bind (bucket_at hash) (\<lambda>l.
    bind (op l key) (\<lambda>result.
    if result \<noteq> 2 then Ret 0
    else
      bind benchmark_endtime (\<lambda>e.
      if e \<noteq> 1 then retry_loop f op hash key
      else Ret (- 1))))"

definition rcx_hash_list_retry_add :: "nat \<Rightarrow> nat \<Rightarrow> val_t \<Rightarrow> int prog" where
  "rcx_hash_list_retry_add w f key =
    bind (HASH_VALUE key) (\<lambda>hash. retry_loop f (rcx_list_add w) hash key)"

definition rcx_hash_list_retry_remove :: "nat \<Rightarrow> nat \<Rightarrow> val_t \<Rightarrow> int prog" where
  "rcx_hash_list_retry_remove w f key =
    bind (HASH_VALUE key) (\<lambda>hash. retry_loop f (rcx_list_remove w) hash key)"

text \<open>The other entry points drop the result of the list operation and return 0.\<close>

definition zero_after :: "(ptr \<Rightarrow> val_t \<Rightarrow> int prog) \<Rightarrow> val_t \<Rightarrow> int prog" where
  "zero_after op key = bind (with_bucket op key) (\<lambda>_. Ret 0)"

definition rcx_hash_list_lf_add :: "nat \<Rightarrow> val_t \<Rightarrow> int prog" where
  "rcx_hash_list_lf_add w key = zero_after (rcx_list_lf_add w) key"

definition rcx_hash_list_fb1_add :: "nat \<Rightarrow> nat \<Rightarrow> val_t \<Rightarrow> int prog" where
  "rcx_hash_list_fb1_add w f key = zero_after (rcx_list_fb1_add w f) key"

definition rcx_hash_list_lf_remove :: "nat \<Rightarrow> val_t \<Rightarrow> int prog" where
  "rcx_hash_list_lf_remove w key = zero_after (rcx_list_lf_remove w) key"

definition rcx_hash_list_fb1_remove :: "nat \<Rightarrow> nat \<Rightarrow> val_t \<Rightarrow> int prog" where
  "rcx_hash_list_fb1_remove w f key = zero_after (rcx_list_fb1_remove w f) key"

definition rcx_hash_list_htmlock_add :: "nat \<Rightarrow> nat \<Rightarrow> nat \<Rightarrow> val_t \<Rightarrow> int prog" where
  "rcx_hash_list_htmlock_add w g f key = zero_after (rcx_list_htmlock_add w g f) key"

definition rcx_hash_list_hhtmlock_add :: "nat \<Rightarrow> nat \<Rightarrow> nat \<Rightarrow> val_t \<Rightarrow> int prog" where
  "rcx_hash_list_hhtmlock_add w g f key = zero_after (rcx_list_hhtmlock_add w g f) key"

definition rcx_hash_list_numa_add :: "nat \<Rightarrow> nat \<Rightarrow> nat \<Rightarrow> val_t \<Rightarrow> int prog" where
  "rcx_hash_list_numa_add w g f key = zero_after (rcx_list_numa_add w g f) key"

definition rcx_hash_list_htmlock_remove :: "nat \<Rightarrow> nat \<Rightarrow> nat \<Rightarrow> val_t \<Rightarrow> int prog" where
  "rcx_hash_list_htmlock_remove w g f key = zero_after (rcx_list_htmlock_remove w g f) key"

definition rcx_hash_list_hhtmlock_remove :: "nat \<Rightarrow> nat \<Rightarrow> nat \<Rightarrow> val_t \<Rightarrow> int prog" where
  "rcx_hash_list_hhtmlock_remove w g f key = zero_after (rcx_list_hhtmlock_remove w g f) key"

definition rcx_hash_list_numa_remove :: "nat \<Rightarrow> nat \<Rightarrow> nat \<Rightarrow> val_t \<Rightarrow> int prog" where
  "rcx_hash_list_numa_remove w g f key = zero_after (rcx_list_numa_remove w g f) key"

end
