(* ===== verification/RcxTable.thy ===== *)
theory RcxTable
  imports RcuTable RcxFallback RcxHash
begin

text \<open>
  The entry points of rcx-hash-list.c whose updates are whole transactions: the plain ones (\<open>add\<close>,
  \<open>try_add\<close>, \<open>retry_add\<close> and the removals), which give up or repeat, and the ones that fall back to
  the lock of the list (\<open>lf\<close>, \<open>fb1\<close>), with their specification and the interpretations for a thread
  among others and for one that runs alone.
\<close>

datatype rcx_op = HtmContains | HtmAdd | HtmTryAdd | HtmRetryAdd | HtmRemove | HtmTryRemove | HtmRetryRemove
  | LfAdd | LfRemove | Fb1Add | Fb1Remove

type_synonym rcx_call = "rcx_op \<times> val_t"

fun rcx_hash_call :: "nat \<Rightarrow> rcx_call \<Rightarrow> int prog" where
  "rcx_hash_call f (HtmContains, key) = rcx_hash_list_contains WALK key"
| "rcx_hash_call f (HtmAdd, key) = rcx_hash_list_add WALK key"
| "rcx_hash_call f (HtmTryAdd, key) = rcx_hash_list_try_add WALK key"
| "rcx_hash_call f (HtmRetryAdd, key) = rcx_hash_list_retry_add WALK f key"
| "rcx_hash_call f (HtmRemove, key) = rcx_hash_list_remove WALK key"
| "rcx_hash_call f (HtmTryRemove, key) = rcx_hash_list_try_remove WALK key"
| "rcx_hash_call f (HtmRetryRemove, key) = rcx_hash_list_retry_remove WALK f key"
| "rcx_hash_call f (LfAdd, key) = rcx_hash_list_lf_add WALK key"
| "rcx_hash_call f (LfRemove, key) = rcx_hash_list_lf_remove WALK key"
| "rcx_hash_call f (Fb1Add, key) = rcx_hash_list_fb1_add WALK f key"
| "rcx_hash_call f (Fb1Remove, key) = rcx_hash_list_fb1_remove WALK f key"

definition rcx_adding :: "rcx_op set" where
  "rcx_adding = {HtmAdd, HtmTryAdd, HtmRetryAdd, LfAdd, Fb1Add}"

definition giving_up :: "rcx_op set" where
  "giving_up = {HtmAdd, HtmTryAdd, HtmRetryAdd, HtmRemove, HtmTryRemove, HtmRetryRemove}"

definition rcx_upd :: "rcx_call \<Rightarrow> upd" where
  "rcx_upd c = (if fst c \<in> rcx_adding then Ins (snd c) else Del (snd c))"

text \<open>A call that gives up returns \<open>-1\<close> and has changed nothing; the others always return 0.\<close>

fun rcx_reports :: "rcx_call \<Rightarrow> bool \<Rightarrow> int \<Rightarrow> bool" where
  "rcx_reports (HtmContains, _) chg r \<longleftrightarrow> \<not> chg \<and> r \<in> {0, - ENOENT}"
| "rcx_reports (oper, _) chg r \<longleftrightarrow> r = 0 \<or> (r = - 1 \<and> \<not> chg \<and> oper \<in> giving_up)"

text \<open>What a sequential set does, \<open>pre\<close> being whether the key is in it. A call only gives up when it has
  something to change.\<close>

fun rcx_exact :: "rcx_call \<Rightarrow> bool \<Rightarrow> bool \<Rightarrow> int \<Rightarrow> bool" where
  "rcx_exact (HtmContains, _) pre chg r \<longleftrightarrow> (r = 0) = pre"
| "rcx_exact (oper, _) pre chg r \<longleftrightarrow>
     (let todo = (if oper \<in> rcx_adding then \<not> pre else pre) in if r = 0 then chg = todo else todo)"

definition rcx_api :: "rcx_call api" where
  "rcx_api = \<lparr>key_of = snd, upd_of = rcx_upd, reports = rcx_reports, exact = rcx_exact\<rparr>"

definition plain_call :: "rcx_call \<Rightarrow> bool" where
  "plain_call c \<longleftrightarrow> fst c \<in> insert HtmContains giving_up \<and> valid_key (snd c)"

definition fallback_call :: "rcx_call \<Rightarrow> bool" where
  "fallback_call c \<longleftrightarrow> fst c \<in> {HtmContains, LfAdd, LfRemove, Fb1Add, Fb1Remove} \<and> valid_key (snd c)"

definition rcx_pool :: "nat \<Rightarrow> (tid \<Rightarrow> rcx_call list option) \<Rightarrow> int list pool" where
  "rcx_pool f cs = (\<lambda>t. map_option (calls (rcx_hash_call f)) (cs t))"

subsection \<open>Calls on the table\<close>

context list_op
begin

definition rcx_meets :: "rcx_op \<Rightarrow> int \<Rightarrow> mach \<Rightarrow> bool" where
  "rcx_meets oper r m \<longleftrightarrow> (\<exists>chg. rcx_reports (oper, key) chg r \<and>
     ((l, key) \<in> K \<longrightarrow> rcx_exact (oper, key) (in_log (l, key) H) chg r) \<and>
     log_is R K t (if chg then H @ [(t, l, rcx_upd (oper, key))] else H) m)"

lemma rcx_meets_add:
  assumes "kn = ((l, key) \<in> K)" "b = in_log (l, key) H" "oper \<in> rcx_adding" "add_done ins m"
  shows "rcx_meets oper 0 m"
  unfolding rcx_meets_def using assms
  by (intro exI[of _ ins]) (auto simp: rcx_adding_def added_def rcx_upd_def)

lemma rcx_meets_del:
  assumes "kn = ((l, key) \<in> K)" "b = in_log (l, key) H" "oper \<notin> rcx_adding" "oper \<noteq> HtmContains" "del_done del m"
  shows "rcx_meets oper 0 m"
  unfolding rcx_meets_def using assms
  by (intro exI[of _ del]) (cases oper; auto simp: rcx_adding_def deleted_def rcx_upd_def)

lemma rcx_meets_gave_up:
  assumes "kn = ((l, key) \<in> K)" "b = in_log (l, key) H" "oper \<in> giving_up" "start m"
    and "kn \<longrightarrow> b = (oper \<notin> rcx_adding)"
  shows "rcx_meets oper (- 1) m"
  unfolding rcx_meets_def using assms
  by (intro exI[of _ False]) (auto simp: giving_up_def rcx_adding_def started_def)

text \<open>Whatever the depth of the read-side sections is, it is some number.\<close>

lemma t_any_nest:
  assumes "\<And>c. triple (\<lambda>m. A m \<and> nest_is t c m) p B"
  shows "triple A p B"
proof (rule t_pre)
  show "triple (\<lambda>m. \<exists>c. A m \<and> nest_is t c m) p B" by (rule t_ex) (rule assms)
qed (simp add: nest_is_def)

lemma t_table_frame:
  assumes "triple A p B"
  shows "triple (\<lambda>m. A m \<and> table_is T m) p (\<lambda>r m. B r m \<and> table_is T m)"
proof -
  have "hoare D R G t (\<lambda>m. (J m \<and> A m) \<and> (J m \<and> table_is T m)) p (\<lambda>r m. (J m \<and> B r m) \<and> (J m \<and> table_is T m))"
  proof (rule hoare_frame[OF assms[unfolded triple_def]])
    show "J m' \<and> table_is T m'" if "J m \<and> table_is T m" "R m m'" for m m'
      by (rule table_rely[OF that(1) R_rely[OF that(2)]])
    show "J m' \<and> table_is T m'" if "J m \<and> table_is T m" "G m m'" for m m'
      by (rule table_guar[OF that])
  qed
  then show ?thesis unfolding triple_def by (rule th.hoare_conseq) auto
qed

text \<open>A call that keeps using the table, from the hash value of its key on.\<close>

lemma t_table_call:
  assumes T: "table_ok T" "valid_key key" "l = bucket_of T key"
    and kn: "kn = ((l, key) \<in> K)" and b: "b = in_log (l, key) H" and E: "stabJ R J E"
    and op: "\<And>h. h = c_rem key (n_buckets T) \<Longrightarrow> 0 \<le> h \<Longrightarrow> h < int MAX_BUCKETS \<Longrightarrow>
      triple (\<lambda>m. (start m \<and> E m) \<and> table_is T m) (p h) B"
  shows "triple (\<lambda>m. (table_is T m \<and> log_is R K t H m) \<and> E m) (bind (HASH_VALUE key) p) B"
proof (rule t_hashed[where T = T])
  show "stabJ R J (\<lambda>m. (table_is T m \<and> log_is R K t H m) \<and> E m)" by (intro stab_intros E)
  fix h assume h: "h = c_rem key (n_buckets T)" "0 \<le> h" "h < int MAX_BUCKETS"
  show "triple (\<lambda>m. (table_is T m \<and> log_is R K t H m) \<and> E m) (p h) B"
  proof (rule t_pre[OF op[OF h]])
    fix m assume m: "J m" "(table_is T m \<and> log_is R K t H m) \<and> E m"
    then have "is_list l m" using bucket_is_list[OF T(1) _ T(2)] T(3) by blast
    then show "(start m \<and> E m) \<and> table_is T m"
      using m log_decides[OF m(1)] by (auto simp: started_def kn b in_log_def)
  qed
qed (use T in \<open>auto simp: table_is_def table_ok_def valid_key_def\<close>)

text \<open>The clock test changes nothing that matters here.\<close>

lemma t_endtime:
  assumes "stabJ R J A" "stabJ (local_step t) J A"
  shows "triple A benchmark_endtime (\<lambda>_. A)"
proof -
  have now: "triple A current_kernel_time (\<lambda>_. A)"
    unfolding current_kernel_time_def
  proof (rule t_local[OF assms(1) assms(1)])
    fix m assume m: "J m" "A m"
    have l: "local_step t m (m\<lparr>tcnt := tcnt m + 1\<rparr>)"
      using wfm_heap_ok[OF J_wfm[OF m(1)]]
      by (auto simp: local_step_def const_eq_def heap_ok_def pub_def priv_def)
    then show "\<exists>a m'. Some (ktime m (tcnt m), m\<lparr>tcnt := tcnt m + 1\<rparr>) = Some (a, m') \<and> local_step t m m' \<and> A m'"
      using local_keeps[OF assms(2) m l] by blast
  qed
  have get: "triple A (get (\<lambda>t m. (bench_start_time m, duration m))) (\<lambda>_. A)"
    by (rule t_get[OF assms(1) assms(1)])
  have ret: "triple A (case x of (s, d) \<Rightarrow> Ret (f s d)) (\<lambda>_. A)" for x f
    by (cases x) (simp add: t_ret[OF assms(1)])
  show ?thesis unfolding benchmark_endtime_def by (rule t_bind[OF now t_bind[OF get ret]])
qed

text \<open>The loop of the retry versions, around any list operation that returns 2 when it has changed
  nothing.\<close>

lemma t_retry:
  assumes D: "may_diverge D" and A: "stabJ R J A" "stabJ (local_step t) J A" and B: "stabJ R J B"
    and T: "table_ok T" "l = buckets T h" "0 \<le> h" "h < int MAX_BUCKETS"
    and op: "triple A (opr l key) (\<lambda>r m. if r = 2 then A m \<and> x else B m)"
  shows "triple (\<lambda>m. A m \<and> table_is T m) (retry_loop f opr h key)
    (\<lambda>r m. (r = 0 \<and> B m) \<or> (r = - 1 \<and> A m \<and> x))"
proof (induction f)
  case 0
  show ?case using t_diverge[OF D] by simp
next
  case (Suc f)
  let ?A = "\<lambda>m. A m \<and> table_is T m"
  let ?Q = "\<lambda>r m. (r = 0 \<and> B m) \<or> (r = (- 1 :: int) \<and> A m \<and> x)"
  have bk: "triple ?A (bucket_at h) (\<lambda>q m. ?A m \<and> q = l)"
    by (rule t_conseq[OF t_bucket_at[where A = ?A and T = T and h = h]], intro stab_intros A)
      (use T in \<open>simp_all add: table_is_def\<close>)
  have op': "triple (\<lambda>m. ?A m \<and> q = l) (opr q key) (\<lambda>r m. (if r = 2 then A m \<and> x else B m) \<and> table_is T m)" for q
    by (rule t_pull) (use t_table_frame[OF op] in simp)
  have fin: "triple (\<lambda>m. (if r = 2 then A m \<and> x else B m) \<and> table_is T m) (Ret 0) ?Q" if "r \<noteq> 2" for r :: int
    by (rule t_pre[where A' = B]) (rule t_ret[OF B], use that in simp_all)
  have et: "triple (\<lambda>m. (if r = 2 then A m \<and> x else B m) \<and> table_is T m) benchmark_endtime (\<lambda>_ m. ?A m \<and> x)"
    if "\<not> r \<noteq> 2" for r :: int
    by (rule t_conseq[OF t_table_frame[OF t_endtime[where A = "\<lambda>m. A m \<and> x"]]])
      (intro stab_intros A, intro stab_intros A, use that in auto)
  have more: "triple (\<lambda>m. ?A m \<and> x) (if e \<noteq> 1 then retry_loop f opr h key else Ret (- 1)) ?Q" for e :: int
  proof (rule t_if)
    show "triple (\<lambda>m. ?A m \<and> x) (retry_loop f opr h key) ?Q" by (rule t_pre[OF Suc.IH]) simp
    show "triple (\<lambda>m. ?A m \<and> x) (Ret (- 1)) ?Q" by (rule t_ret, intro stab_intros A) simp
  qed
  show ?case
    unfolding retry_loop.simps
    by (rule t_bind[OF bk t_bind[OF op']], rule t_if[OF fin t_bind[OF et more]]; assumption)
qed

end

subsection \<open>The calls meet their specification\<close>

lemma of_bool_2 [simp]: "of_bool x \<noteq> (2 :: int)"
  by (cases x) simp_all

text \<open>The calls that leave the read-side sections as they were.\<close>

definition balanced :: "rcx_op set" where
  "balanced = {HtmContains, HtmAdd, HtmTryAdd, HtmRetryAdd, LfAdd, LfRemove, Fb1Add}"

context tx_op
begin

text \<open>What a call ends with, from a read-side nesting of \<open>c\<close>.\<close>

abbreviation "rcx_result oper c \<equiv> \<lambda>r m. rcx_meets oper r m \<and> when_alone R (unlocked {}) m \<and>
   (oper \<in> balanced \<longrightarrow> nest_is t c m)"

lemma rcx_hash_contains:
  assumes T: "table_ok T" "valid_key key" "l = bucket_of T key"
    and kn: "kn = ((l, key) \<in> K)" and b: "b = in_log (l, key) H"
  shows "triple (\<lambda>m. (table_is T m \<and> log_is R K t H m) \<and> idle c m) (rcx_hash_list_contains w key)
    (rcx_result HtmContains c)"
  unfolding rcx_hash_list_contains_def
proof (rule t_map[OF t_hash_call[where opr = "rcx_list_contains w", OF T kn b _ contains_spec_rcx]])
  show "stabJ R (tx_ok P) (idle c)" by (intro stab_intros)
  fix r :: int and m
  assume m: "(start m \<and> idle c m) \<and> (r = 0 \<or> r = 1) \<and> (kn \<longrightarrow> (r = 1) = b)"
  then have "rcx_reports (HtmContains, key) False (if r \<noteq> 0 then 0 else - ENOENT)"
    "(l, key) \<in> K \<longrightarrow> rcx_exact (HtmContains, key) (in_log (l, key) H) False (if r \<noteq> 0 then 0 else - ENOENT)"
    "log_is R K t H m"
    by (auto simp: kn b ENOENT_def started_def)
  then show "rcx_result HtmContains c (if r \<noteq> 0 then 0 else - ENOENT) m"
    using m unfolding rcx_meets_def by (intro conjI exI[of _ False]) auto
qed

end

context plain_op
begin

lemma hash_call_spec:
  assumes c: "plain_call (oper, key)" and T: "table_ok T" "l = bucket_of T key" and w: "w = WALK"
    and kn: "kn = ((l, key) \<in> K)" and b: "b = in_log (l, key) H"
    and D: "may_diverge D \<or> oper \<notin> {HtmRetryAdd, HtmRetryRemove}"
  shows "triple (\<lambda>m. (table_is T m \<and> log_is R K t H m) \<and> idle c m) (rcx_hash_call f (oper, key))
    (rcx_result oper c)"
proof -
  have k: "valid_key key" using c by (simp add: plain_call_def)
  have st: "stabJ R (tx_ok (\<lambda>_. True)) (idle c)" by (intro stab_intros)
  note call = t_hash_call[OF T(1) k T(2) kn b st]
  have add: "rcx_result oper c (if r = 2 then - 1 else 0) m"
    if "add_returns r m \<and> idle c m" "oper = HtmAdd \<or> oper = HtmTryAdd" for oper r m
    using that rcx_meets_add[OF kn b, of oper _ m] rcx_meets_gave_up[OF kn b, of oper m]
    by (auto simp: rcx_adding_def giving_up_def)
  have del: "rcx_result oper c (if r = 2 then - 1 else 0) m"
    if "del_returns r m \<and> idle (if r = 0 then c + 1 else c) m" "oper = HtmRemove \<or> oper = HtmTryRemove" for oper r m
    using that rcx_meets_del[OF kn b, of oper _ m] rcx_meets_gave_up[OF kn b, of oper m]
    by (auto simp: rcx_adding_def giving_up_def balanced_def)
  note ar = t_map[OF call[of "rcx_list_add w", OF rcx_list_add_spec]]
  note rr = t_map[OF call[of "rcx_list_remove w", OF rcx_list_remove_spec]]
  consider "oper = HtmContains" | "oper = HtmAdd" | "oper = HtmTryAdd" | "oper = HtmRetryAdd"
    | "oper = HtmRemove" | "oper = HtmTryRemove" | "oper = HtmRetryRemove"
    using c by (auto simp: plain_call_def giving_up_def)
  then show ?thesis
  proof cases
    case 1
    show ?thesis
      unfolding 1 rcx_hash_call.simps w[symmetric] by (rule rcx_hash_contains[OF T(1) k T(2) kn b])
  next
    case 2
    show ?thesis
      unfolding 2 rcx_hash_call.simps rcx_hash_list_add_def w[symmetric]
      by (rule ar) (rule add, simp_all)
  next
    case 3
    show ?thesis
      unfolding 3 rcx_hash_call.simps rcx_hash_list_try_add_def w[symmetric]
      by (rule ar) (rule add, simp_all)
  next
    case 5
    show ?thesis
      unfolding 5 rcx_hash_call.simps rcx_hash_list_remove_def w[symmetric]
      by (rule rr) (rule del, simp_all)
  next
    case 6
    show ?thesis
      unfolding 6 rcx_hash_call.simps rcx_hash_list_try_remove_def w[symmetric]
      by (rule rr) (rule del, simp_all)
  next
    case 4
    have op: "triple (\<lambda>m. start m \<and> idle c m) (rcx_list_add w l key)
        (\<lambda>r m. if r = 2 then (start m \<and> idle c m) \<and> (kn \<longrightarrow> \<not> b) else (\<exists>ins. add_done ins m) \<and> idle c m)"
      by (rule t_conseq[OF rcx_list_add_spec]) auto
    have "triple (\<lambda>m. (start m \<and> idle c m) \<and> table_is T m) (retry_loop f (rcx_list_add w) h key)
        (rcx_result HtmRetryAdd c)" if h: "h = c_rem key (n_buckets T)" "0 \<le> h" "h < int MAX_BUCKETS" for h
    proof -
      have d: "may_diverge D" using D 4 by simp
      have lh: "l = buckets T h" using T(2) h(1) by (simp add: bucket_of_def)
      have "triple (\<lambda>m. (start m \<and> idle c m) \<and> table_is T m) (retry_loop f (rcx_list_add w) h key)
          (\<lambda>r m. (r = 0 \<and> (\<exists>ins. add_done ins m) \<and> idle c m) \<or> (r = - 1 \<and> (start m \<and> idle c m) \<and> (kn \<longrightarrow> \<not> b)))"
        by (rule t_retry[where opr = "rcx_list_add w", OF d _ _ _ T(1) lh h(2,3) op]) (intro stab_intros)+
      then show ?thesis
      proof (rule t_conseq)
        show "rcx_result HtmRetryAdd c r m" if "(r = 0 \<and> (\<exists>ins. add_done ins m) \<and> idle c m) \<or> (r = - 1 \<and> (start m \<and> idle c m) \<and> (kn \<longrightarrow> \<not> b))" for r m
          using that rcx_meets_add[OF kn b, of HtmRetryAdd _ m] rcx_meets_gave_up[OF kn b, of HtmRetryAdd m]
          by (auto simp: rcx_adding_def giving_up_def balanced_def)
      qed simp
    qed
    then show ?thesis
      unfolding 4 rcx_hash_call.simps rcx_hash_list_retry_add_def w[symmetric]
      by (intro t_table_call[OF T(1) k T(2) kn b st])
  next
    case 7
    have op: "triple (\<lambda>m. start m \<and> when_alone R (unlocked {}) m) (rcx_list_remove w l key)
        (\<lambda>r m. if r = 2 then (start m \<and> when_alone R (unlocked {}) m) \<and> (kn \<longrightarrow> b)
          else (\<exists>del. del_done del m) \<and> when_alone R (unlocked {}) m)"
      by (rule t_any_nest, rule t_conseq[OF rcx_list_remove_spec]) (auto simp: conj_assoc)
    have "triple (\<lambda>m. (start m \<and> idle c m) \<and> table_is T m) (retry_loop f (rcx_list_remove w) h key)
        (rcx_result HtmRetryRemove c)" if h: "h = c_rem key (n_buckets T)" "0 \<le> h" "h < int MAX_BUCKETS" for h
    proof -
      have d: "may_diverge D" using D 7 by simp
      have lh: "l = buckets T h" using T(2) h(1) by (simp add: bucket_of_def)
      have "triple (\<lambda>m. (start m \<and> when_alone R (unlocked {}) m) \<and> table_is T m) (retry_loop f (rcx_list_remove w) h key)
          (\<lambda>r m. (r = 0 \<and> (\<exists>del. del_done del m) \<and> when_alone R (unlocked {}) m) \<or> (r = - 1 \<and> (start m \<and> when_alone R (unlocked {}) m) \<and> (kn \<longrightarrow> b)))"
        by (rule t_retry[where opr = "rcx_list_remove w", OF d _ _ _ T(1) lh h(2,3) op]) (intro stab_intros)+
      then show ?thesis
      proof (rule t_conseq)
        show "rcx_result HtmRetryRemove c r m" if "(r = 0 \<and> (\<exists>del. del_done del m) \<and> when_alone R (unlocked {}) m) \<or> (r = - 1 \<and> (start m \<and> when_alone R (unlocked {}) m) \<and> (kn \<longrightarrow> b))" for r m
          using that rcx_meets_del[OF kn b, of HtmRetryRemove _ m] rcx_meets_gave_up[OF kn b, of HtmRetryRemove m]
          by (auto simp: rcx_adding_def giving_up_def balanced_def)
      qed simp
    qed
    then show ?thesis
      unfolding 7 rcx_hash_call.simps rcx_hash_list_retry_remove_def w[symmetric]
      by (intro t_table_call[OF T(1) k T(2) kn b st])
  qed
qed

lemma hash_call_any:
  assumes "plain_call (oper, key)" "table_ok T" "l = bucket_of T key" "w = WALK"
    and "kn = ((l, key) \<in> K)" "b = in_log (l, key) H" "may_diverge D \<or> oper \<notin> {HtmRetryAdd, HtmRetryRemove}"
  shows "triple (\<lambda>m. (table_is T m \<and> log_is R K t H m) \<and> when_alone R (unlocked {}) m) (rcx_hash_call f (oper, key))
    (\<lambda>r m. rcx_meets oper r m \<and> when_alone R (unlocked {}) m)"
  by (rule t_any_nest, rule t_conseq[OF hash_call_spec[OF assms]]) auto

end

context plain_op
begin

text \<open>A removal that finds its key absent stays in the read-side section it has entered.\<close>

lemma remove_absent_spec:
  assumes k: "plain_call (HtmRemove, key)" and T: "table_ok T" "l = bucket_of T key" and w: "w = WALK"
    and kn: "kn = ((l, key) \<in> K)" and b: "b = in_log (l, key) H" and absent: "kn" "\<not> b"
  shows "triple (\<lambda>m. (table_is T m \<and> log_is R K t H m) \<and> idle c m) (rcx_hash_list_remove WALK key)
    (\<lambda>r m. r = 0 \<and> log_is R K t H m \<and> idle (c + 1) m)"
proof -
  have v: "valid_key key" using k by (simp add: plain_call_def)
  have "stabJ R (tx_ok (\<lambda>_. True)) (idle c)" by (intro stab_intros)
  note call = t_map[OF t_hash_call[OF T(1) v T(2) kn b this, of "rcx_list_remove w", OF rcx_list_remove_spec]]
  show ?thesis
    unfolding rcx_hash_list_remove_def w[symmetric]
    by (rule call) (use absent in \<open>auto simp: deleted_def\<close>)
qed

end

context fb_op
begin

lemma zero_after_call:
  assumes T: "table_ok T" "valid_key key" "l = bucket_of T key"
    and kn: "kn = ((l, key) \<in> K)" and b: "b = in_log (l, key) H"
    and op: "triple (\<lambda>m. start m \<and> idle c m) (opr l key) B"
    and fin: "\<And>r m. B r m \<Longrightarrow> C 0 m"
  shows "triple (\<lambda>m. (table_is T m \<and> log_is R K t H m) \<and> idle c m) (zero_after opr key) C"
  unfolding zero_after_def
proof (rule t_map[OF t_hash_call[where opr = opr, OF T kn b _ op]])
  show "stabJ R (tx_ok (\<lambda>s. s = None)) (idle c)" by (intro stab_intros)
qed (rule fin)

lemma hash_call_spec:
  assumes c: "fallback_call (oper, key)" and T: "table_ok T" "l = bucket_of T key" and w: "w = WALK"
    and kn: "kn = ((l, key) \<in> K)" and b: "b = in_log (l, key) H"
    and D: "may_diverge D \<or> oper \<notin> {Fb1Add, Fb1Remove}"
  shows "triple (\<lambda>m. (table_is T m \<and> log_is R K t H m) \<and> idle c m) (rcx_hash_call f (oper, key))
    (rcx_result oper c)"
proof -
  have k: "valid_key key" using c by (simp add: fallback_call_def)
  note call = zero_after_call[OF T(1) k T(2) kn b]
  have add: "rcx_result oper c 0 m" if "add_ends c r m" "oper = LfAdd \<or> oper = Fb1Add" for oper r m
    using that rcx_meets_add[OF kn b, of oper _ m] by (auto simp: rcx_adding_def)
  have lfr: "rcx_result LfRemove c 0 m" if "del_ends c r m" for r m
    using that rcx_meets_del[OF kn b, of LfRemove _ m] by (auto simp: rcx_adding_def)
  have fbr: "rcx_result Fb1Remove c 0 m" if "del_ends c r m \<or> del_ends (c - 1) r m" for r m
    using that rcx_meets_del[OF kn b, of Fb1Remove _ m] by (auto simp: rcx_adding_def balanced_def)
  consider "oper = HtmContains" | "oper = LfAdd" | "oper = LfRemove" | "oper = Fb1Add" | "oper = Fb1Remove"
    using c by (auto simp: fallback_call_def)
  then show ?thesis
  proof cases
    case 1
    show ?thesis
      unfolding 1 rcx_hash_call.simps w[symmetric] by (rule rcx_hash_contains[OF T(1) k T(2) kn b])
  next
    case 2
    show ?thesis
      unfolding 2 rcx_hash_call.simps rcx_hash_list_lf_add_def w[symmetric]
      by (rule call[where opr = "rcx_list_lf_add w", OF lf_add_spec[of c 0, folded rcx_list_lf_add_def]])
        (use add in blast)
  next
    case 3
    show ?thesis
      unfolding 3 rcx_hash_call.simps rcx_hash_list_lf_remove_def w[symmetric]
      by (rule call[where opr = "rcx_list_lf_remove w", OF lf_remove_spec[of c 0, folded rcx_list_lf_remove_def]])
        (rule lfr)
  next
    case 4
    have "may_diverge D" using D 4 by simp
    then show ?thesis
      unfolding 4 rcx_hash_call.simps rcx_hash_list_fb1_add_def w[symmetric]
      by (intro call[where opr = "rcx_list_fb1_add w f", OF fb1_add_spec]) (use add in blast)+
  next
    case 5
    have "may_diverge D" using D 5 by simp
    then show ?thesis
      unfolding 5 rcx_hash_call.simps rcx_hash_list_fb1_remove_def w[symmetric]
      by (intro call[where opr = "rcx_list_fb1_remove w f", OF fb1_remove_spec]) (use fbr in blast)+
  qed
qed

lemma hash_call_any:
  assumes "fallback_call (oper, key)" "table_ok T" "l = bucket_of T key" "w = WALK"
    and "kn = ((l, key) \<in> K)" "b = in_log (l, key) H" "may_diverge D \<or> oper \<notin> {Fb1Add, Fb1Remove}"
  shows "triple (\<lambda>m. (table_is T m \<and> log_is R K t H m) \<and> when_alone R (unlocked {}) m) (rcx_hash_call f (oper, key))
    (\<lambda>r m. rcx_meets oper r m \<and> when_alone R (unlocked {}) m)"
  by (rule t_any_nest, rule t_conseq[OF hash_call_spec[OF assms]]) auto

end

subsection \<open>A thread among others\<close>

text \<open>Transactions never block; the \<open>retry\<close> and \<open>fb1\<close> versions may repeat without end.\<close>

definition plain_mode :: mode where
  "plain_mode = \<lparr>may_diverge = True, may_block = False\<rparr>"

definition fallback_mode :: "bool \<Rightarrow> mode" where
  "fallback_mode d = \<lparr>may_diverge = d, may_block = True\<rparr>"

interpretation plain_among: plain_op t "rely (tx_ok (\<lambda>_. True)) K (\<lambda>_ _ _. False) t" K "insert (l, a_key key) U"
  plain_mode l "a_key key" "(l, a_key key) \<in> K" "in_log (l, a_key key) H" H WALK for t K U l key H
  by (intro_locales, unfold_locales)
    (auto intro: rely_refl rely_trans a_key_ok simp: plain_mode_def WALK_def)

interpretation fallback_among: fb_op t "rely (tx_ok (\<lambda>s. s = None)) K prot_rcu t" K "insert (l, a_key key) U"
  "fallback_mode d" l "a_key key" "(l, a_key key) \<in> K" "in_log (l, a_key key) H" H WALK for t K U l key H d
  by (intro_locales, unfold_locales)
    (auto intro: rely_refl rely_trans a_key_ok simp: fallback_mode_def WALK_def)

lemma rcx_api_simps:
  "reports rcx_api = rcx_reports" "exact rcx_api = rcx_exact" "key_of rcx_api (oper, key) = key"
  "log_after rcx_api T t (oper, key) chg H =
    (if chg then H @ [(t, bucket_of T key, rcx_upd (oper, key))] else H)"
  by (simp_all add: rcx_api_def log_after_def)

lemma plain_call_spec:
  fixes t :: tid and K U H T
  defines "R \<equiv> rely (tx_ok (\<lambda>_. True)) K (\<lambda>_ _ _. False) t"
  assumes c: "plain_call c \<and> table_ok T" and U: "slot T (key_of rcx_api c) \<in> U"
  shows "hoare plain_mode R (guar (tx_ok (\<lambda>_. True)) U (\<lambda>_ _ _. False) t) t
    (\<lambda>m. tx_ok (\<lambda>_. True) m \<and> table_is T m \<and> log_is R K t H m) (rcx_hash_call f c)
    (\<lambda>r m. tx_ok (\<lambda>_. True) m \<and> (\<exists>chg. reports rcx_api c chg r \<and>
       (slot T (key_of rcx_api c) \<in> K \<longrightarrow> exact rcx_api c (in_log (slot T (key_of rcx_api c)) H) chg r) \<and>
       log_is R K t (log_after rcx_api T t c chg H) m))"
proof -
  obtain oper key where ok: "c = (oper, key)" by (cases c)
  define l where "l = bucket_of T key"
  have k: "a_key key = key" "slot T key = (l, key)" "insert (l, key) U = U"
    using c U valid_key_ok by (auto simp: plain_call_def ok a_key_def slot_def l_def rcx_api_def)
  have cc: "plain_call (oper, a_key key)" "l = bucket_of T (a_key key)"
    using c by (simp_all add: ok k l_def)
  have na: "\<not> alone R" unfolding R_def by (rule rely_not_alone) (rule tx_inv)
  have T: "table_ok T" using c by simp
  have md: "may_diverge plain_mode \<or> oper \<notin> {HtmRetryAdd, HtmRetryRemove}" by (simp add: plain_mode_def)
  note sp = plain_among.hash_call_any[where t = t and K = K and U = U and H = H and l = l and
      key = key and f = f, OF cc(1) T cc(2) refl refl refl md,
      unfolded plain_among.triple_def plain_among.rcx_meets_def, unfolded k, folded R_def]
  show ?thesis
    unfolding ok rcx_api_simps k(2) l_def[symmetric]
    by (rule plain_among.th.hoare_conseq[where t = t and K = K and U = U and l = l and key = key,
          unfolded k, folded R_def, OF sp])
      (use na in \<open>unfold when_alone_def, blast+\<close>)
qed

lemma fallback_call_spec:
  fixes t :: tid and K U H T
  defines "R \<equiv> rely (tx_ok (\<lambda>s. s = None)) K prot_rcu t"
  assumes c: "fallback_call c \<and> (d \<or> fst c \<notin> {Fb1Add, Fb1Remove}) \<and> table_ok T" and U: "slot T (key_of rcx_api c) \<in> U"
  shows "hoare (fallback_mode d) R (guar (tx_ok (\<lambda>s. s = None)) U prot_rcu t) t
    (\<lambda>m. tx_ok (\<lambda>s. s = None) m \<and> table_is T m \<and> log_is R K t H m) (rcx_hash_call f c)
    (\<lambda>r m. tx_ok (\<lambda>s. s = None) m \<and> (\<exists>chg. reports rcx_api c chg r \<and>
       (slot T (key_of rcx_api c) \<in> K \<longrightarrow> exact rcx_api c (in_log (slot T (key_of rcx_api c)) H) chg r) \<and>
       log_is R K t (log_after rcx_api T t c chg H) m))"
proof -
  obtain oper key where ok: "c = (oper, key)" by (cases c)
  define l where "l = bucket_of T key"
  have k: "a_key key = key" "slot T key = (l, key)" "insert (l, key) U = U"
    using c U valid_key_ok by (auto simp: fallback_call_def ok a_key_def slot_def l_def rcx_api_def)
  have cc: "fallback_call (oper, a_key key)" "l = bucket_of T (a_key key)"
    using c by (simp_all add: ok k l_def)
  have na: "\<not> alone R" unfolding R_def by (rule rely_not_alone) (rule tx_inv)
  have T: "table_ok T" using c by simp
  have md: "may_diverge (fallback_mode d) \<or> oper \<notin> {Fb1Add, Fb1Remove}" using c by (simp add: fallback_mode_def ok)
  note sp = fallback_among.hash_call_any[where t = t and K = K and U = U and H = H and l = l and
      key = key and f = f and d = d, OF cc(1) T cc(2) refl refl refl md,
      unfolded fallback_among.triple_def fallback_among.rcx_meets_def, unfolded k, folded R_def]
  show ?thesis
    unfolding ok rcx_api_simps k(2) l_def[symmetric]
    by (rule fallback_among.th.hoare_conseq[where t = t and K = K and U = U and l = l and key = key,
          unfolded k, folded R_def, OF sp])
      (use na in \<open>unfold when_alone_def, blast+\<close>)
qed

interpretation plain_client: client "\<lambda>_ _ _. False" "tx_ok (\<lambda>_. True)" rcx_api "rcx_hash_call f" T plain_mode
  "\<lambda>c. plain_call c \<and> table_ok T" for f T
  by (intro_locales, unfold_locales) (rule plain_call_spec)

text \<open>Without \<open>fb1\<close> calls (\<open>d\<close> false) no call of the fallback family repeats without end.\<close>

interpretation fallback_client: client prot_rcu "tx_ok (\<lambda>s. s = None)" rcx_api "rcx_hash_call f" T "fallback_mode d"
  "\<lambda>c. fallback_call c \<and> (d \<or> fst c \<notin> {Fb1Add, Fb1Remove}) \<and> table_ok T" for f T d
  by (intro_locales, unfold_locales) (rule fallback_call_spec)

interpretation plain_system: rg_system "plain_client.sysR T cs" "plain_client.sysG T cs" for T cs
  by (rule plain_client.sys)

interpretation fallback_system: rg_system "fallback_client.sysR T cs" "fallback_client.sysG T cs" for T cs
  by (rule fallback_client.sys)

end
