(* ===== verification/RcxSpec.thy ===== *)
theory RcxSpec
  imports RcxTable RcuSpec
begin

text \<open>
  The set behind the transactional calls. Their return values and effects are those of a sequential set
  whose updates may give up, and for a thread that runs alone every call of the families without an
  unbounded retry returns, whatever the hardware answers.
\<close>

subsection \<open>A set whose updates may give up\<close>

fun rcx_set_step :: "rcx_call \<Rightarrow> val_t set \<Rightarrow> int \<Rightarrow> val_t set option" where
  "rcx_set_step (HtmContains, k) S r = (if r = (if k \<in> S then 0 else - ENOENT) then Some S else None)"
| "rcx_set_step (oper, k) S r =
    (if r = 0 then Some (if oper \<in> rcx_adding then insert k S else S - {k})
     else if r = - 1 \<and> oper \<in> giving_up \<and> (k \<in> S) = (oper \<notin> rcx_adding) then Some S
     else None)"

fun rcx_set_steps :: "rcx_call list \<Rightarrow> val_t set \<Rightarrow> int list \<Rightarrow> val_t set option" where
  "rcx_set_steps [] S [] = Some S"
| "rcx_set_steps (c # cs) S (r # rs) =
    (case rcx_set_step c S r of None \<Rightarrow> None | Some S' \<Rightarrow> rcx_set_steps cs S' rs)"
| "rcx_set_steps _ _ _ = None"

lemma exact_set_step:
  assumes "rcx_reports c chg r" "rcx_exact c (snd c \<in> S) chg r"
  shows "rcx_set_step c S r = Some (if chg then upd_apply S (rcx_upd c) else S)"
proof -
  obtain oper k where c: "c = (oper, k)" by (cases c)
  show ?thesis
    using assms unfolding c
    by (cases oper) (auto simp: rcx_upd_def rcx_adding_def giving_up_def ENOENT_def Let_def split: if_splits)
qed

lemma trace_set_steps:
  assumes "trace rcx_api T K t H cs rs H'" "\<forall>c \<in> set cs. valid_key (snd c) \<and> slot T (snd c) \<in> K"
  shows "rcx_set_steps cs (log_set T H) rs = Some (log_set T H')"
  using assms
proof (induction cs arbitrary: H rs)
  case (Cons c cs)
  have c: "valid_key (snd c)" "slot T (snd c) \<in> K" using Cons.prems(2) by auto
  obtain oper key where ok: "c = (oper, key)" by (cases c)
  obtain chg where g: "rs \<noteq> []" "rcx_reports c chg (hd rs)" "rcx_exact c (in_log (slot T (snd c)) H) chg (hd rs)"
    "trace rcx_api T K t (log_after rcx_api T t c chg H) cs (tl rs) H'"
    using Cons.prems(1) c(2) by (auto simp: rcx_api_simps ok)
  have "rcx_exact c (snd c \<in> log_set T H) chg (hd rs)" using g(3) c(1) by (simp add: log_set_def)
  then have s: "rcx_set_step c (log_set T H) (hd rs) = Some (if chg then upd_apply (log_set T H) (rcx_upd c) else log_set T H)"
    by (rule exact_set_step[OF g(2)])
  have l: "log_set T (log_after rcx_api T t c chg H) = (if chg then upd_apply (log_set T H) (rcx_upd c) else log_set T H)"
    using log_set_append[of "rcx_upd c" "snd c" T H t] c(1) by (simp add: ok rcx_api_simps rcx_upd_def)
  have "rcx_set_steps cs (log_set T (log_after rcx_api T t c chg H)) (tl rs) = Some (log_set T H')"
    using Cons.IH[OF g(4)] Cons.prems(2) by simp
  then show ?case using s l g(1) by (cases rs) simp_all
qed simp

subsection \<open>One thread alone\<close>

interpretation plain_alone: plain_op t only_me UNIV UNIV alone_mode l "a_key key"
  "(l, a_key key) \<in> UNIV" "in_log (l, a_key key) H" H WALK for t l key H
  by (intro_locales, unfold_locales)
    (auto intro: rely_refl a_key_ok only_me_alone simp: WALK_def only_me_def)

interpretation fallback_alone: fb_op t only_me UNIV UNIV alone_mode l "a_key key"
  "(l, a_key key) \<in> UNIV" "in_log (l, a_key key) H" H WALK for t l key H
  by (intro_locales, unfold_locales)
    (auto intro: rely_refl a_key_ok only_me_alone simp: WALK_def only_me_def)

text \<open>The table at rest.\<close>

definition rcx_idle :: "(spinlock \<Rightarrow> bool) \<Rightarrow> hash_list_t \<Rightarrow> mach \<Rightarrow> bool" where
  "rcx_idle P T m \<longleftrightarrow> tx_ok P m \<and> table_is T m \<and> unlocked {} m"

text \<open>The calls that return after a bounded number of attempts.\<close>

definition plain_bounded :: "rcx_call \<Rightarrow> bool" where
  "plain_bounded c \<longleftrightarrow> plain_call c \<and> fst c \<notin> {HtmRetryAdd, HtmRetryRemove}"

definition fallback_bounded :: "rcx_call \<Rightarrow> bool" where
  "fallback_bounded c \<longleftrightarrow> fallback_call c \<and> fst c \<notin> {Fb1Add, Fb1Remove}"

definition rcx_outcome :: "hash_list_t \<Rightarrow> tid \<Rightarrow> rcx_call \<Rightarrow> (tid \<times> ptr \<times> upd) list \<Rightarrow> int \<Rightarrow> int \<Rightarrow> mach \<Rightarrow> bool" where
  "rcx_outcome T t c H d r m \<longleftrightarrow> (\<exists>chg. rcx_reports c chg r \<and> rcx_exact c (in_log (slot T (snd c)) H) chg r \<and>
     hist m = (if chg then H @ [(t, bucket_of T (snd c), rcx_upd c)] else H)) \<and>
     (fst c \<in> balanced \<longrightarrow> rcu_nest m t = d)"

lemma rcx_outcome_set:
  assumes "inv m" "inv m'" "table_ok T" "table_is T m" "table_is T m'" "valid_key (snd c)"
    and "rcx_outcome T t c (hist m) d r m'"
  shows "rcx_set_step c (table_set T m) r = Some (table_set T m')"
proof -
  obtain chg where c: "rcx_reports c chg r" "rcx_exact c (in_log (slot T (snd c)) (hist m)) chg r"
    and h: "hist m' = (if chg then hist m @ [(t, bucket_of T (snd c), rcx_upd c)] else hist m)"
    using assms(7) by (auto simp: rcx_outcome_def)
  have "table_set T m' = (if chg then upd_apply (table_set T m) (rcx_upd c) else table_set T m)"
    by (rule table_set_log[OF assms(1-5) h _ assms(6)]) (simp add: rcx_upd_def)
  moreover have "in_log (slot T (snd c)) (hist m) = (snd c \<in> table_set T m)"
    by (rule in_log_contents[OF assms(1,3,4,6)])
  ultimately show ?thesis using exact_set_step[OF c(1)] c(2) by simp
qed

lemma plain_outcome:
  assumes c: "plain_bounded c" "table_ok T" and m: "rcx_idle (\<lambda>_. True) T m"
  shows "\<exists>r m'. run t (rcx_hash_call f c) m = Returned r m' \<and> rcx_idle (\<lambda>_. True) T m' \<and>
    rcx_outcome T t c (hist m) (rcu_nest m t) r m'"
proof -
  obtain oper key where ok: "c = (oper, key)" by (cases c)
  define l where "l = bucket_of T key"
  have k: "a_key key = key" "slot T key = (l, key)" "bucket_of T key = l"
    using c valid_key_ok by (auto simp: plain_bounded_def plain_call_def ok a_key_def slot_def l_def)
  have cc: "plain_call (oper, a_key key)" "l = bucket_of T (a_key key)"
    using c by (simp_all add: ok k plain_bounded_def)
  have D: "may_diverge alone_mode \<or> oper \<notin> {HtmRetryAdd, HtmRetryRemove}"
    using c by (simp add: plain_bounded_def ok)
  note sp = plain_alone.hash_call_spec[where t = t and H = "hist m" and l = l and key = key and f = f
      and c = "rcu_nest m t", OF cc(1) c(2) cc(2) refl refl refl D,
      unfolded plain_alone.triple_def plain_alone.rcx_meets_def, unfolded k log_only_me when_only_me nest_is_def]
  from alone_table_run[OF plain.protocol_axioms sp, of m T] m show ?thesis
    unfolding rcx_idle_def rcx_outcome_def ok fst_conv snd_conv k by blast
qed

lemma fallback_outcome:
  assumes c: "fallback_bounded c" "table_ok T" and m: "rcx_idle (\<lambda>s. s = None) T m"
  shows "\<exists>r m'. run t (rcx_hash_call f c) m = Returned r m' \<and> rcx_idle (\<lambda>s. s = None) T m' \<and>
    rcx_outcome T t c (hist m) (rcu_nest m t) r m'"
proof -
  obtain oper key where ok: "c = (oper, key)" by (cases c)
  define l where "l = bucket_of T key"
  have k: "a_key key = key" "slot T key = (l, key)" "bucket_of T key = l"
    using c valid_key_ok by (auto simp: fallback_bounded_def fallback_call_def ok a_key_def slot_def l_def)
  have cc: "fallback_call (oper, a_key key)" "l = bucket_of T (a_key key)"
    using c by (simp_all add: ok k fallback_bounded_def)
  have D: "may_diverge alone_mode \<or> oper \<notin> {Fb1Add, Fb1Remove}"
    using c by (simp add: fallback_bounded_def ok)
  note sp = fallback_alone.hash_call_spec[where t = t and H = "hist m" and l = l and key = key and f = f
      and c = "rcu_nest m t", OF cc(1) c(2) cc(2) refl refl refl D,
      unfolded fallback_alone.triple_def fallback_alone.rcx_meets_def, unfolded k log_only_me when_only_me nest_is_def]
  from alone_table_run[OF fallback.protocol_axioms sp, of m T] m show ?thesis
    unfolding rcx_idle_def rcx_outcome_def ok fst_conv snd_conv k by blast
qed


subsection \<open>Sequences of calls\<close>

lemma rcx_calls:
  assumes step: "\<And>c m. c \<in> set cs \<Longrightarrow> I m \<Longrightarrow> \<exists>r m'. run t (f c) m = Returned r m' \<and> I m' \<and>
      rcx_set_step c (table_set T m) r = Some (table_set T m') \<and> (fst c \<in> balanced \<longrightarrow> rcu_nest m' t = rcu_nest m t)"
    and "I m"
  shows "\<exists>rs m'. run t (calls f cs) m = Returned rs m' \<and> I m' \<and>
    rcx_set_steps cs (table_set T m) rs = Some (table_set T m') \<and>
    (fst ` set cs \<subseteq> balanced \<longrightarrow> rcu_nest m' t = rcu_nest m t)"
  using assms
proof (induction cs arbitrary: m)
  case (Cons c cs)
  obtain r m' where c: "run t (f c) m = Returned r m'" "I m'"
    "rcx_set_step c (table_set T m) r = Some (table_set T m')"
    "fst c \<in> balanced \<longrightarrow> rcu_nest m' t = rcu_nest m t" using Cons.prems by (meson list.set_intros(1))
  have "\<exists>rs m''. run t (calls f cs) m' = Returned rs m'' \<and> I m'' \<and>
      rcx_set_steps cs (table_set T m') rs = Some (table_set T m'') \<and>
      (fst ` set cs \<subseteq> balanced \<longrightarrow> rcu_nest m'' t = rcu_nest m' t)"
    by (rule Cons.IH[OF _ c(2)], rule Cons.prems(1)) simp_all
  then obtain rs m'' where cs: "run t (calls f cs) m' = Returned rs m''" "I m''"
    "rcx_set_steps cs (table_set T m') rs = Some (table_set T m'')"
    "fst ` set cs \<subseteq> balanced \<longrightarrow> rcu_nest m'' t = rcu_nest m' t" by blast
  show ?case using c cs by (intro exI[of _ "r # rs"] exI[of _ m'']) (simp add: run_bind)
qed simp

lemma rcx_idleD: "rcx_idle P T m \<Longrightarrow> inv m" "rcx_idle P T m \<Longrightarrow> table_is T m" "rcx_idle P T m \<Longrightarrow> tx_ok P m"
  by (auto simp: rcx_idle_def intro: tx_inv)

lemma rcx_outcome_step:
  assumes "rcx_idle P T m" "rcx_idle P T m'" "table_ok T" "valid_key (snd c)"
    "rcx_outcome T t c (hist m) (rcu_nest m t) r m'"
  shows "rcx_set_step c (table_set T m) r = Some (table_set T m')"
    and "fst c \<in> balanced \<longrightarrow> rcu_nest m' t = rcu_nest m t"
  using rcx_outcome_set[OF rcx_idleD(1)[OF assms(1)] rcx_idleD(1)[OF assms(2)] assms(3) rcx_idleD(2)[OF assms(1)]
      rcx_idleD(2)[OF assms(2)] assms(4,5)] assms(5) by (auto simp: rcx_outcome_def)

lemma plain_calls_set:
  assumes "\<forall>c \<in> set cs. plain_bounded c" "table_ok T" "rcx_idle (\<lambda>_. True) T m"
  shows "\<exists>rs m'. run t (calls (rcx_hash_call f) cs) m = Returned rs m' \<and> rcx_idle (\<lambda>_. True) T m' \<and>
    rcx_set_steps cs (table_set T m) rs = Some (table_set T m') \<and>
    (fst ` set cs \<subseteq> balanced \<longrightarrow> rcu_nest m' t = rcu_nest m t)"
proof (rule rcx_calls[where I = "rcx_idle (\<lambda>_. True) T", OF _ assms(3)])
  fix c m assume c: "c \<in> set cs" and m: "rcx_idle (\<lambda>_. True) T m"
  have b: "plain_bounded c" "valid_key (snd c)" using c assms(1) by (auto simp: plain_bounded_def plain_call_def)
  from plain_outcome[OF b(1) assms(2) m] rcx_outcome_step[OF m _ assms(2) b(2)]
  show "\<exists>r m'. run t (rcx_hash_call f c) m = Returned r m' \<and> rcx_idle (\<lambda>_. True) T m' \<and>
      rcx_set_step c (table_set T m) r = Some (table_set T m') \<and> (fst c \<in> balanced \<longrightarrow> rcu_nest m' t = rcu_nest m t)"
    by blast
qed

lemma fallback_calls_set:
  assumes "\<forall>c \<in> set cs. fallback_bounded c" "table_ok T" "rcx_idle (\<lambda>s. s = None) T m"
  shows "\<exists>rs m'. run t (calls (rcx_hash_call f) cs) m = Returned rs m' \<and> rcx_idle (\<lambda>s. s = None) T m' \<and>
    rcx_set_steps cs (table_set T m) rs = Some (table_set T m') \<and>
    (fst ` set cs \<subseteq> balanced \<longrightarrow> rcu_nest m' t = rcu_nest m t)"
proof (rule rcx_calls[where I = "rcx_idle (\<lambda>s. s = None) T", OF _ assms(3)])
  fix c m assume c: "c \<in> set cs" and m: "rcx_idle (\<lambda>s. s = None) T m"
  have b: "fallback_bounded c" "valid_key (snd c)" using c assms(1) by (auto simp: fallback_bounded_def fallback_call_def)
  from fallback_outcome[OF b(1) assms(2) m] rcx_outcome_step[OF m _ assms(2) b(2)]
  show "\<exists>r m'. run t (rcx_hash_call f c) m = Returned r m' \<and> rcx_idle (\<lambda>s. s = None) T m' \<and>
      rcx_set_step c (table_set T m) r = Some (table_set T m') \<and> (fst c \<in> balanced \<longrightarrow> rcu_nest m' t = rcu_nest m t)"
    by blast
qed

text \<open>The calls with a fallback are those of the RCU list: the same values, the same set.\<close>

fun lf_version :: "rcu_op \<Rightarrow> rcx_op" where
  "lf_version Contains = HtmContains"
| "lf_version Add = LfAdd"
| "lf_version Remove = LfRemove"
| "lf_version _ = HtmContains"

definition basic_call :: "rcu_call \<Rightarrow> bool" where
  "basic_call c \<longleftrightarrow> fst c \<in> {Contains, Add, Remove} \<and> valid_key (snd c)"

lemma basic_call:
  "basic_call c \<Longrightarrow> coarse_call c" "basic_call c \<Longrightarrow> fallback_bounded (map_prod lf_version id c)"
  by (cases c; auto simp: basic_call_def coarse_call_def fallback_bounded_def fallback_call_def)+

lemma lf_balanced: "fst (map_prod lf_version id c) \<in> balanced"
  by (cases c; cases "fst c") (simp_all add: balanced_def)

lemma lf_set_step:
  assumes "basic_call c"
  shows "rcx_set_step (map_prod lf_version id c) S r = Some S' \<longleftrightarrow> (r, S') = set_spec c S"
proof -
  obtain oper k where c: "c = (oper, k)" by (cases c)
  show ?thesis
    using assms unfolding c by (cases oper) (auto simp: basic_call_def giving_up_def rcx_adding_def)
qed

lemma lf_set_steps:
  assumes "\<forall>c \<in> set cs. basic_call c" "rcx_set_steps (map (map_prod lf_version id) cs) S rs = Some S'"
  shows "set_specs cs S = (rs, S')"
  using assms
proof (induction cs arbitrary: S rs)
  case Nil
  then show ?case by (cases rs) simp_all
next
  case (Cons c cs)
  obtain r rs' S1 where r: "rs = r # rs'" "rcx_set_step (map_prod lf_version id c) S r = Some S1"
    "rcx_set_steps (map (map_prod lf_version id) cs) S1 rs' = Some S'"
    using Cons.prems(2) by (cases rs) (fastforce simp: id_def split: option.splits)+
  have "set_spec c S = (r, S1)" using lf_set_step[of c S r S1] r(2) Cons.prems(1) by simp
  moreover have "set_specs cs S1 = (rs', S')" using Cons.IH[OF _ r(3)] Cons.prems(1) by simp
  ultimately show ?case by (simp add: r(1))
qed

subsection \<open>A removal of an absent key\<close>

lemma plain_remove_absent:
  assumes c: "valid_key key" "table_ok T" and m: "rcx_idle (\<lambda>_. True) T m" and a: "key \<notin> table_set T m"
  shows "\<exists>m'. run t (rcx_hash_list_remove WALK key) m = Returned 0 m' \<and> rcx_idle (\<lambda>_. True) T m' \<and>
    hist m' = hist m \<and> rcu_nest m' t = rcu_nest m t + 1"
proof -
  define l where "l = bucket_of T key"
  have k: "a_key key = key" "bucket_of T key = l" "slot T key = (l, key)"
    using c valid_key_ok by (auto simp: a_key_def l_def slot_def)
  have cc: "plain_call (HtmRemove, a_key key)" "l = bucket_of T (a_key key)"
    using c by (simp_all add: k plain_call_def giving_up_def)
  have ab: "\<not> in_log (l, a_key key) (hist m)"
    using in_log_contents[OF rcx_idleD(1)[OF m] c(2) rcx_idleD(2)[OF m] c(1)] a
    by (simp add: k table_set_def)
  note sp = plain_alone.remove_absent_spec[where t = t and H = "hist m" and l = l and key = key and
      c = "rcu_nest m t", OF cc(1) c(2) cc(2) refl refl refl UNIV_I ab,
      unfolded plain_alone.triple_def, unfolded k log_only_me when_only_me nest_is_def]
  from alone_table_run[OF plain.protocol_axioms sp, of m T] m show ?thesis
    unfolding rcx_idle_def by blast
qed

subsection \<open>The mark of the locked removal\<close>

lemma fallback_locked_remove:
  assumes c: "valid_key key" "table_ok T" and m: "rcx_idle (\<lambda>s. s = None) T m" and a: "key \<in> table_set T m"
  shows "\<exists>n m'. run t (locked_remove WALK (bucket_of T key) key) m = Returned 1 m' \<and> rcx_idle (\<lambda>s. s = None) T m' \<and>
    pub m' (bucket_of T key) n \<and> in_chain m' (bucket_of T key) n \<and> rmvd m' n"
proof -
  define l where "l = bucket_of T key"
  have k: "a_key key = key" "bucket_of T key = l" "slot T key = (l, key)"
    using c valid_key_ok by (auto simp: a_key_def l_def slot_def)
  have b: "in_log (l, a_key key) (hist m)"
    using in_log_contents[OF rcx_idleD(1)[OF m] c(2) rcx_idleD(2)[OF m] c(1)] a
    by (simp add: k table_set_def)
  have L: "is_list l m" using bucket_is_list[OF c(2) rcx_idleD(2)[OF m] c(1)] by (simp add: k)
  then have "contents m l = replay {} (upds l (hist m))"
    using rcx_idleD(1)[OF m] by (auto simp: inv_def hist_ok_def is_list_def)
  then have s: "member_is l (a_key key) (in_log (l, a_key key) (hist m)) m"
    using L by (simp add: member_is_def is_list_def in_log_def)
  note sp = fallback_alone.locked_remove_marks[where t = t and H = "hist m" and l = l and key = key and
      c = "rcu_nest m t - 1", unfolded fallback_alone.triple_def started_def deleted_def fallback_alone.spoiled_def,
      unfolded k log_only_me when_only_me nest_is_def]
  from alone_table_run[OF fallback.protocol_axioms sp, of m T] m s b L
  show ?thesis
    unfolding rcx_idle_def by (auto simp: k)
qed

end
