(* ===== verification/RcxSystems.thy ===== *)
theory RcxSystems
  imports Examples RcxSpec
begin

text \<open>
  The properties of the transactional list, plain and with a fallback to the lock of the list: threads
  among others, a thread that runs alone, and what the code does that it does not mean to do. The
  hardware's decisions are a parameter of the machine: the properties hold for each of its answers.
\<close>

subsection \<open>Preliminaries\<close>

definition rcx_own_keys :: "hash_list_t \<Rightarrow> (tid \<Rightarrow> rcx_call list option) \<Rightarrow> tid \<Rightarrow> (ptr \<times> val_t) set" where
  "rcx_own_keys T cs t = untouched (slots rcx_api T cs) t"

text \<open>A table at rest is calm whatever the family of calls that has worked on it.\<close>

lemma fine_tx_ok: "fine_idle t T m \<Longrightarrow> tx_ok P m"
proof -
  assume i: "fine_idle t T m"
  then have g: "fg_ok m" by (simp add: fine_idle_def)
  have "in_chain m l p" if "pub m l p" "\<not> rmvd m p" for l p
    using fg_free[OF g that(1)] that i by (simp add: fine_idle_def quiet_def)
  then show ?thesis using fg_inv[OF g] by (simp add: tx_ok_def calm_but_def)
qed

lemma ex_tx: "tx_ok P ex_mach" "rcx_idle P ex_table ex_mach"
  using fine_tx_ok[OF ex_ready(4)] ex_ready(3) by (auto simp: rcx_idle_def coarse_idle_def)

definition ex_plain :: "tid \<Rightarrow> rcx_call list option" where
  "ex_plain = [0 \<mapsto> [(HtmAdd, 3), (HtmContains, 3)], 1 \<mapsto> [(HtmRetryAdd, 4)]]"

definition ex_fallback :: "tid \<Rightarrow> rcx_call list option" where
  "ex_fallback = [0 \<mapsto> [(LfAdd, 3), (HtmContains, 3), (LfRemove, 3)], 1 \<mapsto> [(LfAdd, 4)]]"

lemma ex_rcx_calls:
  "\<And>t l. ex_plain t = Some l \<Longrightarrow> \<forall>c \<in> set l. plain_call c"
  "\<And>t l. ex_fallback t = Some l \<Longrightarrow> \<forall>c \<in> set l. fallback_call c"
  "\<And>t l. ex_fallback t = Some l \<Longrightarrow> \<forall>c \<in> set l. fallback_bounded c"
  by (auto simp: ex_plain_def ex_fallback_def plain_call_def fallback_bounded_def fallback_call_def giving_up_def
      valid_key_def LIST_VAL_MAX_def split: if_splits)

lemma ex_plain_run:
  obtains rs m' where "sys_reach (rcx_pool 1 ex_plain, ex_mach) ((rcx_pool 1 ex_plain)(0 \<mapsto> Ret rs), m')"
proof -
  let ?cs = "[(HtmAdd, 3), (HtmContains, 3)]"
  have "\<forall>c \<in> set ?cs. plain_bounded c"
    by (simp add: plain_bounded_def plain_call_def giving_up_def valid_key_def LIST_VAL_MAX_def)
  from plain_calls_set[OF this ex_ready(1) ex_tx(2), of 0 1] obtain rs m' where
    r: "run 0 (calls (rcx_hash_call 1) ?cs) ex_mach = Returned rs m'" by blast
  have p: "rcx_pool 1 ex_plain 0 = Some (calls (rcx_hash_call 1) ?cs)"
    unfolding rcx_pool_def ex_plain_def by (simp del: calls.simps)
  show ?thesis by (rule that, rule run_reach[where pool = "rcx_pool 1 ex_plain", OF r sys_start p])
qed


lemma ex_rcx_own:
  "\<forall>c \<in> set (the (ex_plain 0)). slot ex_table (snd c) \<in> rcx_own_keys ex_table ex_plain 0"
  "\<forall>c \<in> set (the (ex_fallback 0)). slot ex_table (snd c) \<in> rcx_own_keys ex_table ex_fallback 0"
  "the (ex_plain 0) = [(HtmAdd, 3), (HtmContains, 3)]" "ex_plain 0 \<noteq> None"
  "the (ex_fallback 0) = [(LfAdd, 3), (HtmContains, 3), (LfRemove, 3)]" "ex_fallback 0 \<noteq> None"
  by (simp_all add: ex_plain_def ex_fallback_def rcx_own_keys_def untouched_def slots_def slot_def rcx_api_def)

lemma rcx_trace_result:
  assumes "table_ok T" "inv m" "table_is T m" "inv m'" "table_is T m'"
    and "\<exists>H. trace rcx_api T K t (hist m) cs rs H \<and> mine t (hist m') = mine t H \<and> touch K (hist m') = touch K H"
    and "\<forall>c \<in> set cs. valid_key (snd c) \<and> slot T (snd c) \<in> K"
  shows "\<exists>S. rcx_set_steps cs (table_set T m) rs = Some S \<and>
    (\<forall>k. valid_key k \<and> slot T k \<in> K \<longrightarrow> (k \<in> table_set T m' \<longleftrightarrow> k \<in> S))"
proof -
  obtain H where H: "trace rcx_api T K t (hist m) cs rs H" "touch K (hist m') = touch K H"
    using assms(6) by blast
  show ?thesis
    using trace_set_steps[OF H(1) assms(7)] log_set_touch[OF H(2), of _ T]
    unfolding log_set_hist[OF assms(2,1,3)] log_set_hist[OF assms(4,1,5)] by blast
qed

section \<open>Systems of threads on one transactional table\<close>

text \<open>C5: Whatever calls of the plain transactional family any number of threads make, however they
  interleave and whichever transactions the hardware aborts: every reachable state satisfies the list
  invariant, and neighbours that are both unmarked are in their list. No call dereferences NULL or a
  freed node, and no thread ever has to wait.\<close>

theorem plain_system_safe:
  assumes "tx_ok (\<lambda>_. True) m" "table_ok T" "table_is T m"
    and "\<And>t l. cs t = Some l \<Longrightarrow> \<forall>c \<in> set l. plain_call c"
    and "sys_reach (rcx_pool f cs, m) (pool, m')"
  shows "tx_ok (\<lambda>_. True) m' \<and> table_is T m' \<and> pool t \<noteq> Some Fault \<and>
    (\<forall>b u n. pool t = Some (Act b u n) \<longrightarrow> b t m')"
proof -
  have c: "\<forall>c \<in> set l. plain_call c \<and> table_ok T" if "cs t = Some l" for t l
    using assms(2,4) that by blast
  note r = assms(5)[unfolded rcx_pool_def]
  show ?thesis
    using plain_client.sys_safe(1,2)[OF assms(1,3) _ r] plain_client.sys_never_blocked[OF assms(1,3) _ r] c
    by (auto simp: plain_mode_def)
qed

theorem plain_system_safe_witness:
  "\<exists>pool rs m. sys_reach (rcx_pool 1 ex_plain, ex_mach) (pool, m) \<and> pool 0 = Some (Ret rs) \<and>
    tx_ok (\<lambda>_. True) m \<and> table_is ex_table m \<and> pool 1 \<noteq> Some Fault"
proof -
  obtain rs m where r: "sys_reach (rcx_pool 1 ex_plain, ex_mach) ((rcx_pool 1 ex_plain)(0 \<mapsto> Ret rs), m)"
    by (rule ex_plain_run)
  have "((rcx_pool 1 ex_plain)(0 \<mapsto> Ret rs)) 0 = Some (Ret rs)" by simp
  moreover have "tx_ok (\<lambda>_. True) m \<and> table_is ex_table m \<and> ((rcx_pool 1 ex_plain)(0 \<mapsto> Ret rs)) 1 \<noteq> Some Fault"
    using plain_system_safe[OF ex_tx(1) ex_ready(1) ex_rest(3) _ r] ex_rcx_calls(1) by blast
  ultimately show ?thesis using r by blast
qed





text \<open>C8: A finished thread of the plain family whose keys no other thread updates got the values of a
  sequential set whose updates may give up, and left its keys in that set's state: an update that
  returned \<open>-1\<close> had something to change and did not change it.\<close>

theorem plain_own_keys:
  assumes "tx_ok (\<lambda>_. True) m" "table_ok T" "table_is T m"
    and "\<And>t l. cs t = Some l \<Longrightarrow> \<forall>c \<in> set l. plain_call c"
    and "sys_reach (rcx_pool f cs, m) (pool, m')" "pool t = Some (Ret rs)"
    and "\<forall>c \<in> set (the (cs t)). slot T (snd c) \<in> rcx_own_keys T cs t" "cs t \<noteq> None"
  shows "\<exists>S. rcx_set_steps (the (cs t)) (table_set T m) rs = Some S \<and>
    (\<forall>k. valid_key k \<and> slot T k \<in> rcx_own_keys T cs t \<longrightarrow> (k \<in> table_set T m' \<longleftrightarrow> k \<in> S))"
proof -
  have c: "\<forall>c \<in> set l. plain_call c \<and> table_ok T" if "cs t = Some l" for t l
    using assms(2,4) that by blast
  note r = assms(5)[unfolded rcx_pool_def]
  have i: "tx_ok (\<lambda>_. True) m'" "table_is T m'"
    using plain_client.sys_safe(1)[OF assms(1,3) _ r] c by blast+
  have "\<exists>H. trace rcx_api T (rcx_own_keys T cs t) t (hist m) (the (cs t)) rs H \<and> mine t (hist m') = mine t H \<and>
      touch (rcx_own_keys T cs t) (hist m') = touch (rcx_own_keys T cs t) H"
    unfolding rcx_own_keys_def by (rule plain_client.sys_result[OF assms(1,3) _ r assms(6)]) (rule c)
  moreover have "\<forall>c \<in> set (the (cs t)). valid_key (snd c) \<and> slot T (snd c) \<in> rcx_own_keys T cs t"
    using assms(4)[of t] assms(7,8) unfolding plain_call_def by fastforce
  ultimately show ?thesis
    by (rule rcx_trace_result[OF assms(2) tx_inv[OF assms(1)] assms(3) tx_inv[OF i(1)] i(2)])
qed

theorem plain_own_keys_witness:
  "\<exists>pool rs m S. sys_reach (rcx_pool 1 ex_plain, ex_mach) (pool, m) \<and> pool 0 = Some (Ret rs) \<and>
    rcx_set_steps [(HtmAdd, 3), (HtmContains, 3)] {} rs = Some S"
proof -
  obtain rs m where r: "sys_reach (rcx_pool 1 ex_plain, ex_mach) ((rcx_pool 1 ex_plain)(0 \<mapsto> Ret rs), m)"
    by (rule ex_plain_run)
  have p: "((rcx_pool 1 ex_plain)(0 \<mapsto> Ret rs)) 0 = Some (Ret rs)" by simp
  have "\<exists>S. rcx_set_steps (the (ex_plain 0)) (table_set ex_table ex_mach) rs = Some S"
    using plain_own_keys[OF ex_tx(1) ex_ready(1) ex_rest(3) _ r p ex_rcx_own(1,4)] ex_rcx_calls(1) by blast
  then show ?thesis unfolding ex_ready(5) ex_rcx_own(3) using r p by blast
qed



section \<open>A thread that runs alone\<close>

text \<open>C14: On a table at rest, every sequence of plain calls without an unbounded retry returns, whatever the
  hardware answers, as a run of the set whose updates may give up, and leaves the table at rest.\<close>

theorem plain_calls_refine:
  assumes "table_ok T" "rcx_idle (\<lambda>_. True) T m" "\<forall>c \<in> set cs. plain_bounded c"
  shows "\<exists>rs m'. run t (calls (rcx_hash_call f) cs) m = Returned rs m' \<and> rcx_idle (\<lambda>_. True) T m' \<and>
    rcx_set_steps cs (table_set T m) rs = Some (table_set T m')"
  using plain_calls_set[OF assms(3,1,2), of t f] by blast

theorem plain_calls_refine_witness:
  "\<exists>rs m'. run 0 (calls (rcx_hash_call 0) [(HtmAdd, 3), (HtmTryRemove, 3)]) ex_mach = Returned rs m' \<and>
    rcx_set_steps [(HtmAdd, 3), (HtmTryRemove, 3)] {} rs = Some (table_set ex_table m')"
proof -
  have "\<forall>c \<in> set [(HtmAdd, 3), (HtmTryRemove, 3)]. plain_bounded c"
    by (simp add: plain_bounded_def plain_call_def giving_up_def valid_key_def LIST_VAL_MAX_def)
  from plain_calls_refine[OF ex_ready(1) ex_tx(2) this] show ?thesis unfolding ex_ready(5) by blast
qed

text \<open>C16: On a table at rest, the \<open>lf\<close> calls and lookups do exactly what the calls of the RCU list with one
  lock per list do: the same values are returned and the same set results, whatever the hardware
  answers, and the nesting of read-side sections is what it was.\<close>

theorem lf_equals_rcu:
  assumes "table_ok T" "rcx_idle (\<lambda>s. s = None) T m" "\<forall>c \<in> set cs. basic_call c"
  shows "\<exists>rs m1 m2. run t (calls (rcx_hash_call f) (map (map_prod lf_version id) cs)) m = Returned rs m1 \<and>
    run t (calls (rcu_hash_call f) cs) m = Returned rs m2 \<and> table_set T m1 = table_set T m2 \<and>
    rcu_nest m1 t = rcu_nest m t"
proof -
  let ?ds = "map (map_prod lf_version id) cs"
  have d: "\<forall>c \<in> set ?ds. fallback_bounded c" "fst ` set ?ds \<subseteq> balanced"
    using assms(3) basic_call(2) lf_balanced by fastforce+
  obtain rs m1 where l: "run t (calls (rcx_hash_call f) ?ds) m = Returned rs m1"
    "rcx_set_steps ?ds (table_set T m) rs = Some (table_set T m1)" "rcu_nest m1 t = rcu_nest m t"
    using fallback_calls_set[OF d(1) assms(1,2)] d(2) by blast
  have "coarse_idle T m" using assms(2) tx_inv by (auto simp: rcx_idle_def coarse_idle_def)
  then obtain rs' m2 where c: "run t (calls (rcu_hash_call f) cs) m = Returned rs' m2"
    "(rs', table_set T m2) = set_specs cs (table_set T m)"
    using coarse_calls_set[of cs T m t f] assms(1,3) basic_call(1) by blast
  then show ?thesis using l lf_set_steps[OF assms(3) l(2)] by auto
qed

theorem lf_equals_rcu_witness:
  "\<exists>rs m1 m2. run 0 (calls (rcx_hash_call 0) [(LfAdd, 3), (HtmContains, 3)]) ex_mach = Returned rs m1 \<and>
    run 0 (calls (rcu_hash_call 0) [(Add, 3), (Contains, 3)]) ex_mach = Returned rs m2 \<and>
    table_set ex_table m1 = table_set ex_table m2"
proof -
  have "\<forall>c \<in> set [(Add, 3), (Contains, 3)]. basic_call c"
    by (simp add: basic_call_def valid_key_def LIST_VAL_MAX_def)
  from lf_equals_rcu[OF ex_ready(1) ex_tx(2) this, of 0 0] show ?thesis by (auto simp del: calls.simps)
qed

section \<open>What goes wrong\<close>

text \<open>C32: \<open>rcx_hash_list_remove\<close> of an absent key reports success, changes nothing in the table, and does not
  leave the read-side section it has entered: the thread's nesting is one deeper than before.\<close>

theorem remove_absent_leaks:
  assumes "valid_key key" "table_ok T" "rcx_idle (\<lambda>_. True) T m" "key \<notin> table_set T m"
  shows "\<exists>m'. run t (rcx_hash_list_remove WALK key) m = Returned 0 m' \<and> hist m' = hist m \<and>
    rcu_nest m' t = rcu_nest m t + 1"
  using plain_remove_absent[OF assms] by blast

theorem remove_absent_leaks_witness:
  "\<exists>m'. run 0 (rcx_hash_list_remove WALK 3) ex_mach = Returned 0 m' \<and> rcu_nest m' 0 = rcu_nest ex_mach 0 + 1"
proof -
  have "valid_key 3" by (simp add: valid_key_def LIST_VAL_MAX_def)
  from remove_absent_leaks[OF this ex_ready(1) ex_tx(2)] show ?thesis unfolding ex_ready(5) by blast
qed

text \<open>C30: The locked path of the removals marks the wrong node: after it has removed a key that was present,
  a node that is still in the list is marked as removed.\<close>

theorem locked_remove_marks_member:
  assumes "valid_key key" "table_ok T" "rcx_idle (\<lambda>s. s = None) T m" "key \<in> table_set T m"
  shows "\<exists>n m'. run t (locked_remove WALK (bucket_of T key) key) m = Returned 1 m' \<and>
    in_chain m' (bucket_of T key) n \<and> rmvd m' n"
  using fallback_locked_remove[OF assms] by blast

theorem locked_remove_marks_member_witness:
  "\<exists>m n m'. run 0 (rcx_hash_list_lf_add WALK 3) ex_mach = Returned 0 m \<and>
    run 0 (locked_remove WALK (bucket_of ex_table 3) 3) m = Returned 1 m' \<and>
    in_chain m' (bucket_of ex_table 3) n \<and> rmvd m' n"
proof -
  have v: "valid_key 3" by (simp add: valid_key_def LIST_VAL_MAX_def)
  have c: "fallback_bounded (LfAdd, 3)" using v by (simp add: fallback_bounded_def fallback_call_def)
  obtain r m where r: "run 0 (rcx_hash_list_lf_add WALK 3) ex_mach = Returned r m"
    "rcx_idle (\<lambda>s. s = None) ex_table m" "rcx_set_step (LfAdd, 3) {} r = Some (table_set ex_table m)"
    using fallback_outcome[OF c ex_ready(1) ex_tx(2), of 0 0]
      rcx_outcome_step(1)[OF ex_tx(2) _ ex_ready(1), of "\<lambda>s. s = None" _ "(LfAdd, 3)"] v
    unfolding ex_ready(5) by fastforce
  have "r = 0" "3 \<in> table_set ex_table m"
    using r(3) by (auto simp: rcx_adding_def giving_up_def split: if_splits)
  then show ?thesis using locked_remove_marks_member[OF v ex_ready(1) r(2)] r(1) by blast
qed

text \<open>C31: No transaction changes a list next to a marked node: beside such a member of the list, an insertion
  and a removal by transaction abort, whatever the hardware answers, and only count the attempt.\<close>

theorem marked_member_aborts:
  assumes "mem m prev \<noteq> None" "mem m next \<noteq> None" "mem m n \<noteq> None" "rmvd m prev \<or> rmvd m next"
    and "c = link_tx prev next x \<or> c = unlink_tx prev next n"
  shows "\<exists>s. s \<noteq> XBEGIN_STARTED \<and> run t (xact c) m = Returned s (m\<lparr>hcnt := hcnt m + 1\<rparr>)"
proof -
  let ?m = "m\<lparr>hcnt := hcnt m + 1\<rparr>"
  have "\<exists>code. run t c ?m = Returned (Some code) ?m"
    using assms run_link_tx[of ?m prev "next" t x] run_unlink_tx[of ?m prev "next" n t]
    by (auto simp: rmvd_def)
  then obtain code where "run t c ?m = Returned (Some code) ?m" by blast
  then show ?thesis
    using abort_not_started(1)[of code] by (auto simp: xact_def run_atomic xrun_def Let_def)
qed

theorem marked_member_aborts_witness:
  "\<exists>s h m. h = hd_of ex_mach (bucket_of ex_table 3) \<and> m = mark h ex_mach \<and> s \<noteq> XBEGIN_STARTED \<and>
    run 0 (xact (link_tx h h 7)) m = Returned s (m\<lparr>hcnt := hcnt m + 1\<rparr>)"
proof -
  define h where "h = hd_of ex_mach (bucket_of ex_table 3)"
  have "valid_key 3" by (simp add: valid_key_def LIST_VAL_MAX_def)
  then have "pub ex_mach (bucket_of ex_table 3) h"
    using bucket_is_list[OF ex_ready(1) ex_rest(3)] wf_hd[OF inv_wfm[OF ex_rest(1)]]
    by (auto simp: is_list_def h_def)
  then have e: "mem ex_mach h \<noteq> None" by (simp add: pub_def)
  then have h: "mem (mark h ex_mach) h \<noteq> None" "rmvd (mark h ex_mach) h"
    using rmvd_mark[OF e] by (auto simp: mark_def set_node_def)
  from marked_member_aborts[OF h(1,1,1) disjI1[OF h(2)] disjI1[OF refl]]
  show ?thesis unfolding h_def[symmetric] by blast
qed

end
