(* ===== verification/RluMachine.thy ===== *)
theory RluMachine
  imports Machine
begin

text \<open>
  The data of rlu.h and rlu.c: objects behind their headers, the per-thread record with its write-set log,
  the globals, and the accesses of the C code to them as atomic actions. An object is a node of the
  lists, the only kind of object that the program puts under RLU. A pointer to an object is an
  address of the heap (\<open>ObjP a\<close>) or an offset in a buffer of a thread's log (\<open>CopyP s i o\<close>: buffer
  \<open>i\<close> of the record at \<open>s\<close>); the headers sit in front of both, as in the source. The sizes are those
  of a 64-bit machine. Counters that the source keeps as \<open>long\<close> are integers: none of them can reach
  \<open>2 ^ 63\<close>. Where the source narrows one to \<open>int\<close> the model does.
\<close>

subsection \<open>Constants\<close>

definition RLU_TYPE_FINE_GRAINED :: int where "RLU_TYPE_FINE_GRAINED = 1"
definition RLU_TYPE_COARSE_GRAINED :: int where "RLU_TYPE_COARSE_GRAINED = 2"
definition RLU_MAX_THREADS :: nat where "RLU_MAX_THREADS = 200"
definition RLU_MAX_WRITE_SETS :: int where "RLU_MAX_WRITE_SETS = 200"
definition RLU_MAX_FREE_NODES :: nat where "RLU_MAX_FREE_NODES = 100000"
definition RLU_MAX_WRITE_SET_BUFFER_SIZE :: nat where "RLU_MAX_WRITE_SET_BUFFER_SIZE = 100000"
definition RLU_MAX_NESTED_WRITER_LOCKS :: int where "RLU_MAX_NESTED_WRITER_LOCKS = 20"
definition RLU_MAX_WRITER_LOCKS :: int where "RLU_MAX_WRITER_LOCKS = 20000"
definition MAX_VERSION :: int where "MAX_VERSION = 2 ^ 63 - 2"
definition Q_ITERS_LIMIT :: int where "Q_ITERS_LIMIT = 100000000"

definition OBJ_HEADER_SIZE :: nat where "OBJ_HEADER_SIZE = 8"
definition WS_OBJ_HEADER_SIZE :: nat where "WS_OBJ_HEADER_SIZE = 32"

text \<open>\<open>sizeof(node_t)\<close>: the padding of the union, 128 pointers.\<close>

definition sizeof_node :: nat where "sizeof_node = 1024"

definition ALIGN_NUMBER :: nat where "ALIGN_NUMBER = 8"

definition ALIGN_OBJ_SIZE :: "nat \<Rightarrow> nat" where
  "ALIGN_OBJ_SIZE n =
    (if n mod ALIGN_NUMBER \<noteq> 0 then n + (ALIGN_NUMBER - n mod ALIGN_NUMBER) else n)"

definition WS_INDEX :: "int \<Rightarrow> int" where
  "WS_INDEX ws_counter = c_rem ws_counter RLU_MAX_WRITE_SETS"

definition LOCK_ID :: "int \<Rightarrow> int" where
  "LOCK_ID th_id = th_id + 1"

subsection \<open>Types\<close>

datatype addr = NullP | ObjP nat | CopyP nat nat nat | PTR_ID_OBJ_COPY

record rlu_node =
  nval :: val_t
  nnext :: addr

text \<open>An object of the heap and its \<open>rlu_obj_header_t\<close>.\<close>

record rlu_obj =
  obj_h :: addr
  obj_node :: rlu_node

text \<open>An entry of a buffer: \<open>rlu_ws_obj_header_t\<close>, the object header and the copy.\<close>

record ws_entry =
  p_obj_actual :: addr
  obj_size :: nat
  ws_run_counter :: nat
  ws_thread_id :: int
  copy_h :: addr
  copy_node :: rlu_node

record writer_locks_t =
  wl_size :: int
  wl_ids :: "int \<Rightarrow> int"

text \<open>\<open>buffer o\<close> is the entry whose copy starts at offset \<open>o\<close>.\<close>

record obj_list_t =
  writer_locks :: writer_locks_t
  num_of_objs :: nat
  p_cur :: nat
  buffer :: "nat \<Rightarrow> ws_entry"

record wait_entry_t =
  is_wait :: int
  wait_run_counter :: nat

record rlu_thread_data =
  uniq_id :: int
  is_check_locks :: int
  is_write_detected :: int
  is_steal :: int
  rlu_type :: int
  max_write_sets :: int
  run_counter :: nat
  local_version :: int
  local_commit_version :: int
  is_no_quiescence :: int
  is_sync :: int
  writer_version :: int
  q_threads :: "nat \<Rightarrow> wait_entry_t"
  ws_head_counter :: int
  ws_wb_counter :: int
  ws_tail_counter :: int
  ws_cur_id :: int
  obj_write_set :: "nat \<Rightarrow> obj_list_t"
  free_nodes_size :: nat
  free_nodes :: "nat \<Rightarrow> addr"
  n_starts :: int
  n_finish :: int
  n_writers :: int
  n_writer_writeback :: int
  n_pure_readers :: int
  n_aborts :: int
  n_steals :: int
  n_writer_sync_waits :: int
  n_writeback_q_iters :: int
  n_sync_requests :: int
  n_sync_and_writeback :: int

record rlu_data_t =
  t_starts :: int
  t_finish :: int
  t_writers :: int
  t_writer_writeback :: int
  t_writeback_q_iters :: int
  t_pure_readers :: int
  t_steals :: int
  t_aborts :: int
  t_sync_requests :: int
  t_sync_and_writeback :: int

text \<open>
  The machine: the heap of objects, the lists and the table of rlu-hash-list.c, the thread records by
  their address (0 is \<open>NULL\<close>), and the globals of rlu.c. The allocator and the content of fresh memory are parameters, as in \<open>Machine\<close>.
\<close>

record rlu_mach =
  objs :: "nat \<Rightarrow> rlu_obj option"
  rlists :: "ptr \<Rightarrow> addr option"
  r_hash_list :: "hash_list_t option"
  tds :: "nat \<Rightarrow> rlu_thread_data option"
  g_rlu_type :: int
  g_rlu_max_write_sets :: int
  g_rlu_cur_threads :: nat
  g_rlu_threads :: "nat \<Rightarrow> nat"
  g_rlu_writer_locks :: "int \<Rightarrow> int"
  g_rlu_writer_version :: int
  g_rlu_commit_version :: int
  g_rlu_data :: rlu_data_t
  r_live :: "nat list"
  r_llive :: "ptr list"
  r_alloc :: "nat list \<Rightarrow> nat \<Rightarrow> nat"
  r_junk :: "nat \<Rightarrow> rlu_node"
  r_hjunk :: "nat \<Rightarrow> addr"
  r_cnt :: nat

type_synonym 'a rlu = "(rlu_mach, 'a) proc"

text \<open>What \<open>memset(self, 0, ...)\<close> leaves.\<close>

definition zero_entry :: ws_entry where
  "zero_entry = \<lparr>p_obj_actual = NullP, obj_size = 0, ws_run_counter = 0, ws_thread_id = 0, copy_h = NullP,
     copy_node = \<lparr>nval = 0, nnext = NullP\<rparr>\<rparr>"

definition zero_ws :: obj_list_t where
  "zero_ws = \<lparr>writer_locks = \<lparr>wl_size = 0, wl_ids = (\<lambda>_. 0)\<rparr>, num_of_objs = 0, p_cur = 0,
     buffer = (\<lambda>_. zero_entry)\<rparr>"

definition zero_td :: rlu_thread_data where
  "zero_td = \<lparr>uniq_id = 0, is_check_locks = 0, is_write_detected = 0, is_steal = 0, rlu_type = 0,
     max_write_sets = 0, run_counter = 0, local_version = 0, local_commit_version = 0,
     is_no_quiescence = 0, is_sync = 0, writer_version = 0,
     q_threads = (\<lambda>_. \<lparr>is_wait = 0, wait_run_counter = 0\<rparr>),
     ws_head_counter = 0, ws_wb_counter = 0, ws_tail_counter = 0, ws_cur_id = 0,
     obj_write_set = (\<lambda>_. zero_ws), free_nodes_size = 0, free_nodes = (\<lambda>_. NullP),
     n_starts = 0, n_finish = 0, n_writers = 0, n_writer_writeback = 0, n_pure_readers = 0,
     n_aborts = 0, n_steals = 0, n_writer_sync_waits = 0, n_writeback_q_iters = 0, n_sync_requests = 0, n_sync_and_writeback = 0\<rparr>"

subsection \<open>Actions\<close>

text \<open>\<open>RLU_ASSERT\<close>: a failure ends in \<open>BUG()\<close>.\<close>

definition rlu_assert :: "bool \<Rightarrow> unit rlu" where
  "rlu_assert b = (if b then Ret () else Fault)"

text \<open>A field of a thread's record, and an update of some of its fields.\<close>

definition td_rd :: "nat \<Rightarrow> (rlu_thread_data \<Rightarrow> 'a) \<Rightarrow> 'a rlu" where
  "td_rd s f = atomic (\<lambda>t m. case tds m s of Some d \<Rightarrow> Some (f d, m) | None \<Rightarrow> None)"

definition set_td :: "nat \<Rightarrow> rlu_thread_data \<Rightarrow> rlu_mach \<Rightarrow> rlu_mach" where
  "set_td s d m = m\<lparr>tds := (tds m)(s := Some d)\<rparr>"

definition td_wr :: "nat \<Rightarrow> (rlu_thread_data \<Rightarrow> rlu_thread_data) \<Rightarrow> unit rlu" where
  "td_wr s f = atomic (\<lambda>t m. case tds m s of Some d \<Rightarrow> Some ((), set_td s (f d) m) | None \<Rightarrow> None)"

definition rlu_upd :: "(rlu_mach \<Rightarrow> rlu_mach) \<Rightarrow> unit rlu" where
  "rlu_upd f = atomic (\<lambda>t m. Some ((), f m))"

text \<open>\<open>self->obj_write_set[ws_id]\<close>.\<close>

definition ws_rd :: "nat \<Rightarrow> int \<Rightarrow> (obj_list_t \<Rightarrow> 'a) \<Rightarrow> 'a rlu" where
  "ws_rd s i f = (if 0 \<le> i \<and> i < RLU_MAX_WRITE_SETS then td_rd s (\<lambda>d. f (obj_write_set d (nat i))) else Fault)"

definition set_ws :: "int \<Rightarrow> (obj_list_t \<Rightarrow> obj_list_t) \<Rightarrow> rlu_thread_data \<Rightarrow> rlu_thread_data" where
  "set_ws i f d = d\<lparr>obj_write_set := (obj_write_set d)(nat i := f (obj_write_set d (nat i)))\<rparr>"

definition ws_wr :: "nat \<Rightarrow> int \<Rightarrow> (obj_list_t \<Rightarrow> obj_list_t) \<Rightarrow> unit rlu" where
  "ws_wr s i f = (if 0 \<le> i \<and> i < RLU_MAX_WRITE_SETS then td_wr s (set_ws i f) else Fault)"

text \<open>An entry of a buffer. One that does not fit in the buffer is out of bounds.\<close>

definition ent_rd :: "nat \<Rightarrow> int \<Rightarrow> nat \<Rightarrow> (ws_entry \<Rightarrow> 'a) \<Rightarrow> 'a rlu" where
  "ent_rd s i off f =
    (if off \<le> RLU_MAX_WRITE_SET_BUFFER_SIZE then ws_rd s i (\<lambda>w. f (buffer w off)) else Fault)"

definition set_ent :: "nat \<Rightarrow> (ws_entry \<Rightarrow> ws_entry) \<Rightarrow> obj_list_t \<Rightarrow> obj_list_t" where
  "set_ent off f w = w\<lparr>buffer := (buffer w)(off := f (buffer w off))\<rparr>"

definition ent_wr :: "nat \<Rightarrow> int \<Rightarrow> nat \<Rightarrow> (ws_entry \<Rightarrow> ws_entry) \<Rightarrow> unit rlu" where
  "ent_wr s i off f =
    (if off \<le> RLU_MAX_WRITE_SET_BUFFER_SIZE then ws_wr s i (set_ent off f) else Fault)"

text \<open>\<open>GET_COPY(p)\<close>: the header in front of an object, in the heap or in a buffer.\<close>

fun GET_COPY :: "addr \<Rightarrow> addr rlu" where
  "GET_COPY (ObjP a) = atomic (\<lambda>t m. case objs m a of Some x \<Rightarrow> Some (obj_h x, m) | None \<Rightarrow> None)"
| "GET_COPY (CopyP s i off) = ent_rd s (int i) off copy_h"
| "GET_COPY _ = Fault"

text \<open>A field of the write-set header in front of a copy.\<close>

fun ws_header :: "addr \<Rightarrow> (ws_entry \<Rightarrow> 'a) \<Rightarrow> 'a rlu" where
  "ws_header (CopyP s i off) f = ent_rd s (int i) off f"
| "ws_header _ f = Fault"

text \<open>The compare-and-swap on the header of an object, and its reset.\<close>

fun TRY_CAS_PTR_OBJ_COPY :: "addr \<Rightarrow> addr \<Rightarrow> bool rlu" where
  "TRY_CAS_PTR_OBJ_COPY (ObjP a) q = atomic (\<lambda>t m. case objs m a of
      Some x \<Rightarrow> if obj_h x = NullP
        then Some (True, m\<lparr>objs := (objs m)(a := Some (x\<lparr>obj_h := q\<rparr>))\<rparr>) else Some (False, m)
    | None \<Rightarrow> None)"
| "TRY_CAS_PTR_OBJ_COPY _ q = Fault"

fun UNLOCK :: "addr \<Rightarrow> unit rlu" where
  "UNLOCK (ObjP a) = atomic (\<lambda>t m. case objs m a of
      Some x \<Rightarrow> Some ((), m\<lparr>objs := (objs m)(a := Some (x\<lparr>obj_h := NullP\<rparr>))\<rparr>) | None \<Rightarrow> None)"
| "UNLOCK _ = Fault"

text \<open>The fields of a node, read and written through a pointer of either kind.\<close>

fun nd_rd :: "addr \<Rightarrow> (rlu_node \<Rightarrow> 'a) \<Rightarrow> 'a rlu" where
  "nd_rd (ObjP a) f = atomic (\<lambda>t m. case objs m a of Some x \<Rightarrow> Some (f (obj_node x), m) | None \<Rightarrow> None)"
| "nd_rd (CopyP s i off) f = ent_rd s (int i) off (\<lambda>e. f (copy_node e))"
| "nd_rd _ f = Fault"

fun nd_wr :: "addr \<Rightarrow> (rlu_node \<Rightarrow> rlu_node) \<Rightarrow> unit rlu" where
  "nd_wr (ObjP a) f = atomic (\<lambda>t m. case objs m a of
      Some x \<Rightarrow> Some ((), m\<lparr>objs := (objs m)(a := Some (x\<lparr>obj_node := f (obj_node x)\<rparr>))\<rparr>) | None \<Rightarrow> None)"
| "nd_wr (CopyP s i off) f = ent_wr s (int i) off (\<lambda>e. e\<lparr>copy_node := f (copy_node e)\<rparr>)"
| "nd_wr _ f = Fault"

text \<open>\<open>memcpy\<close> of an object, field by field; a copy into a buffer has to fit.\<close>

fun in_buffer :: "addr \<Rightarrow> nat \<Rightarrow> bool" where
  "in_buffer (CopyP s i off) n \<longleftrightarrow> off + n \<le> RLU_MAX_WRITE_SET_BUFFER_SIZE"
| "in_buffer _ n \<longleftrightarrow> True"

definition memcpy :: "addr \<Rightarrow> addr \<Rightarrow> nat \<Rightarrow> unit rlu" where
  "memcpy dst src n =
    (if in_buffer dst n \<and> in_buffer src n then
       bind (nd_rd src nval) (\<lambda>v.
       bind (nd_wr dst (\<lambda>x. x\<lparr>nval := v\<rparr>)) (\<lambda>_.
       bind (nd_rd src nnext) (\<lambda>q.
       nd_wr dst (\<lambda>x. x\<lparr>nnext := q\<rparr>))))
     else Fault)"

text \<open>The record of the thread registered under an identifier.\<close>

definition thread_at :: "nat \<Rightarrow> nat rlu" where
  "thread_at i = (if i < RLU_MAX_THREADS then get (\<lambda>t m. g_rlu_threads m i) else Fault)"

definition peer_rd :: "nat \<Rightarrow> (rlu_thread_data \<Rightarrow> 'a) \<Rightarrow> 'a rlu" where
  "peer_rd i f = bind (thread_at i) (\<lambda>p. td_rd p f)"

text \<open>\<open>malloc\<close> and \<open>free\<close> of an object.\<close>

definition obj_malloc :: "addr rlu" where
  "obj_malloc = atomic (\<lambda>t m. let a = r_alloc m (r_live m) (r_cnt m) in
     Some (if objs m a = None
       then (ObjP a, m\<lparr>objs := (objs m)(a := Some \<lparr>obj_h = r_hjunk m (r_cnt m), obj_node = r_junk m (r_cnt m)\<rparr>),
                       r_live := a # r_live m, r_cnt := r_cnt m + 1\<rparr>)
       else (NullP, m\<lparr>r_cnt := r_cnt m + 1\<rparr>)))"

definition list_malloc :: "ptr rlu" where
  "list_malloc = atomic (\<lambda>t m. let a = r_alloc m (r_llive m) (r_cnt m) in
     Some (if a \<noteq> NULL \<and> rlists m a = None
       then (a, m\<lparr>rlists := (rlists m)(a := Some (r_hjunk m (r_cnt m))), r_llive := a # r_llive m,
                  r_cnt := r_cnt m + 1\<rparr>)
       else (NULL, m\<lparr>r_cnt := r_cnt m + 1\<rparr>)))"

fun obj_free :: "addr \<Rightarrow> unit rlu" where
  "obj_free (ObjP a) = atomic (\<lambda>t m.
     if objs m a = None then None
     else Some ((), m\<lparr>objs := (objs m)(a := None), r_live := removeAll a (r_live m)\<rparr>))"
| "obj_free _ = Fault"

end
