(* ===== verification/RluEngine.thy ===== *)
theory RluEngine
  imports RluMachine
begin

text \<open>
  rlu.c, function by function. \<open>self\<close> is the address of the thread's record. Loop bounds that only the thread
  itself changes, and not in the loop, are read once. \<open>g\<close> bounds the iterations of the busy-wait of
  \<open>rlu_wait_for_quiescence\<close>. The traces of the debug builds are left out.
\<close>

subsection \<open>Writer locks\<close>

definition rlu_reset_writer_locks :: "nat \<Rightarrow> int \<Rightarrow> unit rlu" where
  "rlu_reset_writer_locks self ws_id =
    ws_wr self ws_id (\<lambda>w. w\<lparr>writer_locks := (writer_locks w)\<lparr>wl_size := 0\<rparr>\<rparr>)"

definition wl_id_at :: "nat \<Rightarrow> int \<Rightarrow> int \<Rightarrow> int rlu" where
  "wl_id_at self ws_id i = (if 0 \<le> i \<and> i < RLU_MAX_NESTED_WRITER_LOCKS
     then ws_rd self ws_id (\<lambda>w. wl_ids (writer_locks w) i) else Fault)"

definition rlu_add_writer_lock :: "nat \<Rightarrow> int \<Rightarrow> unit rlu" where
  "rlu_add_writer_lock self writer_lock_id =
    bind (td_rd self ws_cur_id) (\<lambda>cur.
    bind (ws_rd self cur (\<lambda>w. wl_size (writer_locks w))) (\<lambda>n_locks.
    bind (for_each [0..<nat n_locks] (\<lambda>i.
      bind (wl_id_at self cur (int i)) (\<lambda>x. rlu_assert (x \<noteq> writer_lock_id)))) (\<lambda>_.
    bind (if 0 \<le> n_locks \<and> n_locks < RLU_MAX_NESTED_WRITER_LOCKS
      then ws_wr self cur (\<lambda>w. w\<lparr>writer_locks := (writer_locks w)
        \<lparr>wl_ids := (wl_ids (writer_locks w))(n_locks := writer_lock_id)\<rparr>\<rparr>) else Fault) (\<lambda>_.
    bind (ws_wr self cur (\<lambda>w. w\<lparr>writer_locks := (writer_locks w)\<lparr>wl_size := wl_size (writer_locks w) + 1\<rparr>\<rparr>)) (\<lambda>_.
    bind (ws_rd self cur (\<lambda>w. wl_size (writer_locks w))) (\<lambda>n.
    rlu_assert (n < RLU_MAX_NESTED_WRITER_LOCKS)))))))"

definition writer_lock_at :: "int \<Rightarrow> int rlu" where
  "writer_lock_at i = (if 0 \<le> i \<and> i < RLU_MAX_WRITER_LOCKS
     then get (\<lambda>t m. g_rlu_writer_locks m i) else Fault)"

definition rlu_try_acquire_writer_lock :: "nat \<Rightarrow> int \<Rightarrow> bool rlu" where
  "rlu_try_acquire_writer_lock self writer_lock_id =
    bind (writer_lock_at writer_lock_id) (\<lambda>cur_lock.
    if cur_lock = 0 then
      bind (td_rd self uniq_id) (\<lambda>u.
      atomic (\<lambda>t m. if g_rlu_writer_locks m writer_lock_id = 0
        then Some (True, m\<lparr>g_rlu_writer_locks := (g_rlu_writer_locks m)(writer_lock_id := LOCK_ID u)\<rparr>)
        else Some (False, m)))
    else Ret False)"

definition rlu_release_writer_lock :: "nat \<Rightarrow> int \<Rightarrow> unit rlu" where
  "rlu_release_writer_lock self writer_lock_id =
    bind (writer_lock_at writer_lock_id) (\<lambda>x.
    bind (td_rd self uniq_id) (\<lambda>u.
    bind (rlu_assert (x = LOCK_ID u)) (\<lambda>_.
    rlu_upd (\<lambda>m. m\<lparr>g_rlu_writer_locks := (g_rlu_writer_locks m)(writer_lock_id := 0)\<rparr>))))"

definition rlu_release_writer_locks :: "nat \<Rightarrow> int \<Rightarrow> unit rlu" where
  "rlu_release_writer_locks self ws_id =
    bind (ws_rd self ws_id (\<lambda>w. wl_size (writer_locks w))) (\<lambda>n.
    for_each [0..<nat n] (\<lambda>i.
      bind (wl_id_at self ws_id (int i)) (\<lambda>id. rlu_release_writer_lock self id)))"

subsection \<open>Write sets\<close>

definition rlu_reset :: "nat \<Rightarrow> unit rlu" where
  "rlu_reset self =
    bind (td_wr self (\<lambda>d. d\<lparr>is_write_detected := 0\<rparr>)) (\<lambda>_.
    bind (td_wr self (\<lambda>d. d\<lparr>is_steal := 1\<rparr>)) (\<lambda>_.
    td_wr self (\<lambda>d. d\<lparr>is_check_locks := 1\<rparr>)))"

definition rlu_reset_write_set :: "nat \<Rightarrow> int \<Rightarrow> unit rlu" where
  "rlu_reset_write_set self ws_counter =
    (let ws_id = WS_INDEX ws_counter in
     bind (ws_wr self ws_id (\<lambda>w. w\<lparr>num_of_objs := 0\<rparr>)) (\<lambda>_.
     bind (ws_wr self ws_id (\<lambda>w. w\<lparr>p_cur := 0\<rparr>)) (\<lambda>_.
     rlu_reset_writer_locks self ws_id)))"

text \<open>A pointer into a buffer from the numbers of its parts.\<close>

definition copy_ptr :: "nat \<Rightarrow> int \<Rightarrow> nat \<Rightarrow> addr" where
  "copy_ptr self ws_id off = CopyP self (nat ws_id) off"

definition rlu_add_ws_obj_header_to_write_set :: "nat \<Rightarrow> addr \<Rightarrow> nat \<Rightarrow> addr rlu" where
  "rlu_add_ws_obj_header_to_write_set self p_obj sz =
    bind (td_rd self ws_cur_id) (\<lambda>cur.
    bind (ws_rd self cur p_cur) (\<lambda>p.
    let off = p + WS_OBJ_HEADER_SIZE + OBJ_HEADER_SIZE in
    bind (ent_wr self cur off (\<lambda>e. e\<lparr>p_obj_actual := p_obj\<rparr>)) (\<lambda>_.
    bind (ent_wr self cur off (\<lambda>e. e\<lparr>obj_size := sz\<rparr>)) (\<lambda>_.
    bind (td_rd self run_counter) (\<lambda>rc.
    bind (ent_wr self cur off (\<lambda>e. e\<lparr>ws_run_counter := rc\<rparr>)) (\<lambda>_.
    bind (td_rd self uniq_id) (\<lambda>u.
    bind (ent_wr self cur off (\<lambda>e. e\<lparr>ws_thread_id := u\<rparr>)) (\<lambda>_.
    bind (ent_wr self cur off (\<lambda>e. e\<lparr>copy_h := PTR_ID_OBJ_COPY\<rparr>)) (\<lambda>_.
    bind (ws_wr self cur (\<lambda>w. w\<lparr>p_cur := off\<rparr>)) (\<lambda>_.
    Ret (copy_ptr self cur off)))))))))))"

definition rlu_add_obj_copy_to_write_set :: "nat \<Rightarrow> addr \<Rightarrow> nat \<Rightarrow> unit rlu" where
  "rlu_add_obj_copy_to_write_set self p_obj sz =
    bind (td_rd self ws_cur_id) (\<lambda>cur.
    bind (ws_rd self cur p_cur) (\<lambda>p.
    bind (memcpy (copy_ptr self cur p) p_obj sz) (\<lambda>_.
    let p = p + ALIGN_OBJ_SIZE sz in
    bind (ws_wr self cur (\<lambda>w. w\<lparr>p_cur := p\<rparr>)) (\<lambda>_.
    bind (ws_wr self cur (\<lambda>w. w\<lparr>num_of_objs := num_of_objs w + 1\<rparr>)) (\<lambda>_.
    rlu_assert (p < RLU_MAX_WRITE_SET_BUFFER_SIZE))))))"

text \<open>\<open>GET_THREAD_ID(p)\<close> and \<open>FORCE_ACTUAL(p)\<close>.\<close>

definition GET_THREAD_ID :: "addr \<Rightarrow> int rlu" where
  "GET_THREAD_ID p_obj = bind (GET_COPY p_obj) (\<lambda>c. ws_header c ws_thread_id)"

definition FORCE_ACTUAL :: "addr \<Rightarrow> addr rlu" where
  "FORCE_ACTUAL p_obj =
    bind (GET_COPY p_obj) (\<lambda>c. if c = PTR_ID_OBJ_COPY then ws_header p_obj p_obj_actual else Ret p_obj)"

fun writeback_objs :: "nat \<Rightarrow> int \<Rightarrow> nat \<Rightarrow> nat \<Rightarrow> nat rlu" where
  "writeback_objs self ws_id 0 cur = Ret cur"
| "writeback_objs self ws_id (Suc k) cur =
    (let off = cur + WS_OBJ_HEADER_SIZE + OBJ_HEADER_SIZE in
     bind (ent_rd self ws_id off p_obj_actual) (\<lambda>actual.
     bind (ent_rd self ws_id off obj_size) (\<lambda>sz.
     bind (ent_rd self ws_id off copy_h) (\<lambda>h.
     bind (rlu_assert (h = PTR_ID_OBJ_COPY)) (\<lambda>_.
     bind (memcpy actual (copy_ptr self ws_id off) sz) (\<lambda>_.
     let cur = off + ALIGN_OBJ_SIZE sz in
     bind (GET_THREAD_ID actual) (\<lambda>th.
     bind (td_rd self uniq_id) (\<lambda>u.
     bind (rlu_assert (th = u)) (\<lambda>_.
     bind (UNLOCK actual) (\<lambda>_.
     writeback_objs self ws_id k cur))))))))))"

definition rlu_writeback_write_set :: "nat \<Rightarrow> int \<Rightarrow> unit rlu" where
  "rlu_writeback_write_set self ws_counter =
    (let ws_id = WS_INDEX ws_counter in
     bind (ws_rd self ws_id num_of_objs) (\<lambda>n.
     bind (writeback_objs self ws_id n 0) (\<lambda>cur.
     bind (ws_rd self ws_id p_cur) (\<lambda>p.
     rlu_assert (cur = p)))))"

definition rlu_writeback_write_sets_and_unlock :: "nat \<Rightarrow> int rlu" where
  "rlu_writeback_write_sets_and_unlock self =
    bind (td_rd self ws_head_counter) (\<lambda>hd.
    bind (td_rd self ws_wb_counter) (\<lambda>wb.
    bind (for_each [hd..wb - 1] (rlu_reset_write_set self)) (\<lambda>_.
    bind (td_wr self (\<lambda>d. d\<lparr>ws_head_counter := ws_wb_counter d\<rparr>)) (\<lambda>_.
    bind (td_rd self ws_tail_counter) (\<lambda>tl.
    bind (for_each [wb..tl - 1] (rlu_writeback_write_set self)) (\<lambda>_.
    bind (td_wr self (\<lambda>d. d\<lparr>ws_wb_counter := ws_tail_counter d\<rparr>)) (\<lambda>_.
    Ret (if wb < tl then tl - wb else 0))))))))"

fun unlock_objs_loop :: "nat \<Rightarrow> int \<Rightarrow> nat \<Rightarrow> nat \<Rightarrow> unit rlu" where
  "unlock_objs_loop self ws_id 0 cur = Ret ()"
| "unlock_objs_loop self ws_id (Suc k) cur =
    (let off = cur + WS_OBJ_HEADER_SIZE + OBJ_HEADER_SIZE in
     bind (ent_rd self ws_id off p_obj_actual) (\<lambda>actual.
     bind (ent_rd self ws_id off obj_size) (\<lambda>sz.
     bind (ent_rd self ws_id off copy_h) (\<lambda>h.
     bind (rlu_assert (h = PTR_ID_OBJ_COPY)) (\<lambda>_.
     bind (GET_COPY actual) (\<lambda>c.
     bind (rlu_assert (c = copy_ptr self ws_id off)) (\<lambda>_.
     bind (UNLOCK actual) (\<lambda>_.
     unlock_objs_loop self ws_id k (off + ALIGN_OBJ_SIZE sz)))))))))"

text \<open>The counter is an \<open>int\<close> here, where the caller passes a \<open>long\<close>.\<close>

definition rlu_unlock_objs :: "nat \<Rightarrow> int \<Rightarrow> unit rlu" where
  "rlu_unlock_objs self ws_counter =
    (let ws_id = WS_INDEX ws_counter in
     bind (ws_rd self ws_id num_of_objs) (\<lambda>n.
     unlock_objs_loop self ws_id n 0))"

subsection \<open>Sections\<close>

definition rlu_assert_in_section :: "nat \<Rightarrow> unit rlu" where
  "rlu_assert_in_section self = bind (td_rd self run_counter) (\<lambda>rc. rlu_assert (odd rc))"

definition rlu_register_thread :: "nat \<Rightarrow> unit rlu" where
  "rlu_register_thread self =
    bind (td_rd self run_counter) (\<lambda>rc.
    bind (rlu_assert (even rc)) (\<lambda>_.
    bind (td_wr self (\<lambda>d. d\<lparr>run_counter := run_counter d + 1\<rparr>)) (\<lambda>_.
    bind (get (\<lambda>t m. g_rlu_writer_version m)) (\<lambda>v.
    bind (td_wr self (\<lambda>d. d\<lparr>local_version := v\<rparr>)) (\<lambda>_.
    bind (get (\<lambda>t m. g_rlu_commit_version m)) (\<lambda>v.
    td_wr self (\<lambda>d. d\<lparr>local_commit_version := v\<rparr>)))))))"

definition rlu_unregister_thread :: "nat \<Rightarrow> unit rlu" where
  "rlu_unregister_thread self =
    bind (td_rd self run_counter) (\<lambda>rc.
    bind (rlu_assert (odd rc)) (\<lambda>_.
    td_wr self (\<lambda>d. d\<lparr>run_counter := run_counter d + 1\<rparr>)))"

definition rlu_process_free :: "nat \<Rightarrow> unit rlu" where
  "rlu_process_free self =
    bind (td_rd self free_nodes_size) (\<lambda>n.
    bind (for_each [0..<n] (\<lambda>i.
      bind (if i < RLU_MAX_FREE_NODES then td_rd self (\<lambda>d. free_nodes d i) else Fault) (\<lambda>p_obj.
      bind (GET_COPY p_obj) (\<lambda>c.
      bind (rlu_assert (c = NullP)) (\<lambda>_.
      obj_free p_obj))))) (\<lambda>_.
    td_wr self (\<lambda>d. d\<lparr>free_nodes_size := 0\<rparr>)))"

subsection \<open>Quiescence\<close>

definition set_q :: "nat \<Rightarrow> (wait_entry_t \<Rightarrow> wait_entry_t) \<Rightarrow> rlu_thread_data \<Rightarrow> rlu_thread_data" where
  "set_q i f d = d\<lparr>q_threads := (q_threads d)(i := f (q_threads d i))\<rparr>"

definition q_rd :: "nat \<Rightarrow> nat \<Rightarrow> (wait_entry_t \<Rightarrow> 'a) \<Rightarrow> 'a rlu" where
  "q_rd self i f = (if i < RLU_MAX_THREADS then td_rd self (\<lambda>d. f (q_threads d i)) else Fault)"

definition q_wr :: "nat \<Rightarrow> nat \<Rightarrow> (wait_entry_t \<Rightarrow> wait_entry_t) \<Rightarrow> unit rlu" where
  "q_wr self i f = (if i < RLU_MAX_THREADS then td_wr self (set_q i f) else Fault)"

text \<open>The number of threads is read in each iteration; \<open>q_threads\<close> has \<open>RLU_MAX_THREADS\<close> entries, so the
  loop has no more iterations than that.\<close>

definition init_q_entry :: "nat \<Rightarrow> nat \<Rightarrow> unit rlu" where
  "init_q_entry self th_id =
    bind (q_wr self th_id (\<lambda>q. q\<lparr>is_wait := 0\<rparr>)) (\<lambda>_.
    bind (td_rd self uniq_id) (\<lambda>u.
    if int th_id = u then Ret () else
    bind (thread_at th_id) (\<lambda>p.
    if p = 0 then Ret () else
    bind (peer_rd th_id run_counter) (\<lambda>rc.
    bind (q_wr self th_id (\<lambda>q. q\<lparr>wait_run_counter := rc\<rparr>)) (\<lambda>_.
    bind (q_rd self th_id wait_run_counter) (\<lambda>rc.
    if odd rc then q_wr self th_id (\<lambda>q. q\<lparr>is_wait := 1\<rparr>) else Ret ()))))))"

fun init_q_loop :: "nat \<Rightarrow> nat \<Rightarrow> nat \<Rightarrow> unit rlu" where
  "init_q_loop self 0 th_id = Diverge"
| "init_q_loop self (Suc k) th_id =
    bind (get (\<lambda>t m. g_rlu_cur_threads m)) (\<lambda>n.
    if th_id < n then bind (init_q_entry self th_id) (\<lambda>_. init_q_loop self k (th_id + 1))
    else Ret ())"

definition rlu_init_quiescence :: "nat \<Rightarrow> unit rlu" where
  "rlu_init_quiescence self = init_q_loop self (RLU_MAX_THREADS + 1) 0"

fun wait_for_one :: "nat \<Rightarrow> nat \<Rightarrow> int \<Rightarrow> nat \<Rightarrow> int \<Rightarrow> int rlu" where
  "wait_for_one 0 self version_limit th_id iters = Diverge"
| "wait_for_one (Suc g) self version_limit th_id iters =
    bind (q_rd self th_id is_wait) (\<lambda>w.
    if w = 0 then Ret iters else
    let iters = iters + 1 in
    bind (q_rd self th_id wait_run_counter) (\<lambda>old.
    bind (peer_rd th_id run_counter) (\<lambda>rc.
    if old \<noteq> rc then bind (q_wr self th_id (\<lambda>q. q\<lparr>is_wait := 0\<rparr>)) (\<lambda>_. Ret iters) else
    bind (if version_limit \<noteq> 0 then bind (peer_rd th_id local_version) (\<lambda>v. Ret (version_limit \<le> v))
      else Ret False) (\<lambda>newer.
    if newer then bind (q_wr self th_id (\<lambda>q. q\<lparr>is_wait := 0\<rparr>)) (\<lambda>_. Ret iters) else
    wait_for_one g self version_limit th_id (if Q_ITERS_LIMIT < iters then 0 else iters)))))"

fun wait_for_all :: "nat \<Rightarrow> nat \<Rightarrow> int \<Rightarrow> nat list \<Rightarrow> int \<Rightarrow> int rlu" where
  "wait_for_all g self version_limit [] iters = Ret iters"
| "wait_for_all g self version_limit (th_id # ths) iters =
    bind (wait_for_one g self version_limit th_id iters) (\<lambda>iters.
    wait_for_all g self version_limit ths iters)"

definition rlu_wait_for_quiescence :: "nat \<Rightarrow> nat \<Rightarrow> int \<Rightarrow> int rlu" where
  "rlu_wait_for_quiescence g self version_limit =
    bind (get (\<lambda>t m. g_rlu_cur_threads m)) (\<lambda>cur_threads.
    wait_for_all g self version_limit [0..<cur_threads] 0)"

definition rlu_synchronize :: "nat \<Rightarrow> nat \<Rightarrow> unit rlu" where
  "rlu_synchronize g self =
    bind (td_rd self is_no_quiescence) (\<lambda>nq.
    if nq \<noteq> 0 then Ret () else
    bind (rlu_init_quiescence self) (\<lambda>_.
    bind (td_rd self writer_version) (\<lambda>v.
    bind (rlu_wait_for_quiescence g self v) (\<lambda>q_iters.
    td_wr self (\<lambda>d. d\<lparr>n_writeback_q_iters := n_writeback_q_iters d + q_iters\<rparr>)))))"

definition rlu_sync_and_writeback :: "nat \<Rightarrow> nat \<Rightarrow> unit rlu" where
  "rlu_sync_and_writeback g self =
    bind (td_rd self run_counter) (\<lambda>rc.
    bind (rlu_assert (even rc)) (\<lambda>_.
    bind (td_rd self (\<lambda>d. ws_tail_counter d = ws_head_counter d)) (\<lambda>nothing.
    if nothing then Ret () else
    bind (td_wr self (\<lambda>d. d\<lparr>n_sync_and_writeback := n_sync_and_writeback d + 1\<rparr>)) (\<lambda>_.
    bind (td_rd self (\<lambda>d. ws_tail_counter d - ws_wb_counter d)) (\<lambda>ws_num.
    bind (get (\<lambda>t m. g_rlu_writer_version m)) (\<lambda>v.
    bind (td_wr self (\<lambda>d. d\<lparr>writer_version := v + 1\<rparr>)) (\<lambda>_.
    bind (rlu_upd (\<lambda>m. m\<lparr>g_rlu_writer_version := g_rlu_writer_version m + 1\<rparr>)) (\<lambda>_.
    bind (rlu_synchronize g self) (\<lambda>_.
    bind (rlu_writeback_write_sets_and_unlock self) (\<lambda>ws_wb_num.
    bind (rlu_assert (ws_num = ws_wb_num)) (\<lambda>_.
    bind (td_wr self (\<lambda>d. d\<lparr>writer_version := MAX_VERSION\<rparr>)) (\<lambda>_.
    bind (rlu_upd (\<lambda>m. m\<lparr>g_rlu_commit_version := g_rlu_commit_version m + 1\<rparr>)) (\<lambda>_.
    bind (td_rd self is_sync) (\<lambda>y.
    bind (if y \<noteq> 0 then td_wr self (\<lambda>d. d\<lparr>is_sync := 0\<rparr>) else Ret ()) (\<lambda>_.
    rlu_process_free self)))))))))))))))"

definition rlu_send_sync_request :: "int \<Rightarrow> unit rlu" where
  "rlu_send_sync_request other_th_id =
    (if other_th_id < 0 then Fault else
     bind (thread_at (nat other_th_id)) (\<lambda>p. td_wr p (\<lambda>d. d\<lparr>is_sync := is_sync d + 1\<rparr>)))"

definition rlu_commit_write_set :: "nat \<Rightarrow> nat \<Rightarrow> unit rlu" where
  "rlu_commit_write_set g self =
    bind (td_wr self (\<lambda>d. d\<lparr>n_writers := n_writers d + 1\<rparr>)) (\<lambda>_.
    bind (td_wr self (\<lambda>d. d\<lparr>n_writer_writeback := n_writer_writeback d + 1\<rparr>)) (\<lambda>_.
    bind (td_wr self (\<lambda>d. d\<lparr>ws_tail_counter := ws_tail_counter d + 1\<rparr>)) (\<lambda>_.
    bind (td_wr self (\<lambda>d. d\<lparr>ws_cur_id := WS_INDEX (ws_tail_counter d)\<rparr>)) (\<lambda>_.
    bind (td_rd self (\<lambda>d. WS_INDEX (ws_tail_counter d) = WS_INDEX (ws_head_counter d) \<or>
      max_write_sets d \<le> ws_tail_counter d - ws_wb_counter d)) (\<lambda>full.
    bind (if full then rlu_sync_and_writeback g self else Ret ()) (\<lambda>_.
    bind (td_rd self (\<lambda>d. ws_head_counter d < ws_tail_counter d)) (\<lambda>b.
    bind (rlu_assert b) (\<lambda>_.
    bind (td_rd self (\<lambda>d. WS_INDEX (ws_tail_counter d) \<noteq> WS_INDEX (ws_head_counter d))) (\<lambda>b.
    rlu_assert b)))))))))"

subsection \<open>The interface\<close>

definition rlu_init :: "int \<Rightarrow> int \<Rightarrow> unit rlu" where
  "rlu_init type n =
    bind (rlu_upd (\<lambda>m. m\<lparr>g_rlu_writer_version := 0\<rparr>)) (\<lambda>_.
    bind (rlu_upd (\<lambda>m. m\<lparr>g_rlu_commit_version := 0\<rparr>)) (\<lambda>_.
    bind (if type = RLU_TYPE_COARSE_GRAINED then
        bind (rlu_upd (\<lambda>m. m\<lparr>g_rlu_type := RLU_TYPE_COARSE_GRAINED\<rparr>)) (\<lambda>_.
        rlu_upd (\<lambda>m. m\<lparr>g_rlu_max_write_sets := 1\<rparr>))
      else if type = RLU_TYPE_FINE_GRAINED then
        bind (rlu_upd (\<lambda>m. m\<lparr>g_rlu_type := RLU_TYPE_FINE_GRAINED\<rparr>)) (\<lambda>_.
        rlu_upd (\<lambda>m. m\<lparr>g_rlu_max_write_sets := n\<rparr>))
      else Fault) (\<lambda>_.
    bind (rlu_assert (2 \<le> RLU_MAX_WRITE_SETS)) (\<lambda>_.
    bind (rlu_assert (1 \<le> n)) (\<lambda>_.
    rlu_assert (n * 2 \<le> RLU_MAX_WRITE_SETS))))))"

definition rlu_finish :: "unit rlu" where
  "rlu_finish = Ret ()"

text \<open>The lines of the report, label and number.\<close>

definition rlu_print_stats :: "(string \<times> int) list rlu" where
  "rlu_print_stats =
    bind (get (\<lambda>t m. g_rlu_data m)) (\<lambda>g.
    Ret [(''t_starts'', t_starts g), (''t_finish'', t_finish g), (''t_writers'', t_writers g),
      (''t_writer_writebacks'', t_writer_writeback g), (''t_writeback_q_iters'', t_writeback_q_iters g),
      (''a_writeback_q_iters'', if 0 < t_writer_writeback g
         then c_div (t_writeback_q_iters g) (t_writer_writeback g) else 0),
      (''t_pure_readers'', t_pure_readers g), (''t_steals'', t_steals g), (''t_aborts'', t_aborts g),
      (''t_sync_requests'', t_sync_requests g), (''t_sync_and_writeback'', t_sync_and_writeback g)])"

definition rlu_thread_init :: "nat \<Rightarrow> unit rlu" where
  "rlu_thread_init self =
    bind (td_wr self (\<lambda>d. zero_td)) (\<lambda>_.
    bind (get (\<lambda>t m. g_rlu_type m)) (\<lambda>ty.
    bind (td_wr self (\<lambda>d. d\<lparr>rlu_type := ty\<rparr>)) (\<lambda>_.
    bind (get (\<lambda>t m. g_rlu_max_write_sets m)) (\<lambda>n.
    bind (td_wr self (\<lambda>d. d\<lparr>max_write_sets := n\<rparr>)) (\<lambda>_.
    bind (atomic (\<lambda>t m. Some (g_rlu_cur_threads m, m\<lparr>g_rlu_cur_threads := g_rlu_cur_threads m + 1\<rparr>))) (\<lambda>u.
    bind (td_wr self (\<lambda>d. d\<lparr>uniq_id := int u\<rparr>)) (\<lambda>_.
    bind (td_wr self (\<lambda>d. d\<lparr>local_version := 0\<rparr>)) (\<lambda>_.
    bind (td_wr self (\<lambda>d. d\<lparr>writer_version := MAX_VERSION\<rparr>)) (\<lambda>_.
    bind (for_each [0..RLU_MAX_WRITE_SETS - 1] (rlu_reset_write_set self)) (\<lambda>_.
    if u < RLU_MAX_THREADS
    then rlu_upd (\<lambda>m. m\<lparr>g_rlu_threads := (g_rlu_threads m)(u := self)\<rparr>) else Fault))))))))))"

definition add_stat :: "nat \<Rightarrow> (rlu_thread_data \<Rightarrow> int) \<Rightarrow> (int \<Rightarrow> rlu_data_t \<Rightarrow> rlu_data_t) \<Rightarrow> unit rlu" where
  "add_stat self f add =
    bind (td_rd self f) (\<lambda>x. rlu_upd (\<lambda>m. m\<lparr>g_rlu_data := add x (g_rlu_data m)\<rparr>))"

definition rlu_thread_finish :: "nat \<Rightarrow> nat \<Rightarrow> unit rlu" where
  "rlu_thread_finish g self =
    bind (rlu_sync_and_writeback g self) (\<lambda>_.
    bind (rlu_sync_and_writeback g self) (\<lambda>_.
    bind (add_stat self n_starts (\<lambda>x r. r\<lparr>t_starts := t_starts r + x\<rparr>)) (\<lambda>_.
    bind (add_stat self n_finish (\<lambda>x r. r\<lparr>t_finish := t_finish r + x\<rparr>)) (\<lambda>_.
    bind (add_stat self n_writers (\<lambda>x r. r\<lparr>t_writers := t_writers r + x\<rparr>)) (\<lambda>_.
    bind (add_stat self n_writer_writeback (\<lambda>x r. r\<lparr>t_writer_writeback := t_writer_writeback r + x\<rparr>)) (\<lambda>_.
    bind (add_stat self n_writeback_q_iters (\<lambda>x r. r\<lparr>t_writeback_q_iters := t_writeback_q_iters r + x\<rparr>)) (\<lambda>_.
    bind (add_stat self n_pure_readers (\<lambda>x r. r\<lparr>t_pure_readers := t_pure_readers r + x\<rparr>)) (\<lambda>_.
    bind (add_stat self n_steals (\<lambda>x r. r\<lparr>t_steals := t_steals r + x\<rparr>)) (\<lambda>_.
    bind (add_stat self n_aborts (\<lambda>x r. r\<lparr>t_aborts := t_aborts r + x\<rparr>)) (\<lambda>_.
    bind (add_stat self n_sync_requests (\<lambda>x r. r\<lparr>t_sync_requests := t_sync_requests r + x\<rparr>)) (\<lambda>_.
    add_stat self n_sync_and_writeback (\<lambda>x r. r\<lparr>t_sync_and_writeback := t_sync_and_writeback r + x\<rparr>))))))))))))"

text \<open>The header of a new object is set to \<open>NULL\<close> like that of an unlocked one.\<close>

definition rlu_alloc :: "nat \<Rightarrow> addr rlu" where
  "rlu_alloc sz =
    bind obj_malloc (\<lambda>p. if p = NullP then Ret NullP else bind (UNLOCK p) (\<lambda>_. Ret p))"

definition rlu_free :: "nat \<Rightarrow> addr \<Rightarrow> unit rlu" where
  "rlu_free self p_obj =
    (if p_obj = NullP then Ret ()
     else if self = 0 then obj_free p_obj
     else
       bind (rlu_assert_in_section self) (\<lambda>_.
       bind (FORCE_ACTUAL p_obj) (\<lambda>p_obj.
       bind (td_rd self free_nodes_size) (\<lambda>n.
       bind (if n < RLU_MAX_FREE_NODES
         then td_wr self (\<lambda>d. d\<lparr>free_nodes := (free_nodes d)(n := p_obj)\<rparr>) else Fault) (\<lambda>_.
       bind (td_wr self (\<lambda>d. d\<lparr>free_nodes_size := free_nodes_size d + 1\<rparr>)) (\<lambda>_.
       bind (td_rd self free_nodes_size) (\<lambda>n.
       rlu_assert (n < RLU_MAX_FREE_NODES))))))))"

definition rlu_sync_checkpoint :: "nat \<Rightarrow> nat \<Rightarrow> unit rlu" where
  "rlu_sync_checkpoint g self =
    bind (td_rd self is_sync) (\<lambda>y.
    if y = 0 then Ret () else
    bind (td_wr self (\<lambda>d. d\<lparr>n_sync_requests := n_sync_requests d + 1\<rparr>)) (\<lambda>_.
    rlu_sync_and_writeback g self))"

definition rlu_reader_lock :: "nat \<Rightarrow> nat \<Rightarrow> unit rlu" where
  "rlu_reader_lock g self =
    bind (td_wr self (\<lambda>d. d\<lparr>n_starts := n_starts d + 1\<rparr>)) (\<lambda>_.
    bind (rlu_sync_checkpoint g self) (\<lambda>_.
    bind (rlu_reset self) (\<lambda>_.
    bind (rlu_register_thread self) (\<lambda>_.
    bind (td_wr self (\<lambda>d. d\<lparr>is_steal := 1\<rparr>)) (\<lambda>_.
    bind (td_rd self (\<lambda>d. local_version d - local_commit_version d = 0)) (\<lambda>same.
    bind (if same then td_wr self (\<lambda>d. d\<lparr>is_steal := 0\<rparr>) else Ret ()) (\<lambda>_.
    bind (td_wr self (\<lambda>d. d\<lparr>is_check_locks := 1\<rparr>)) (\<lambda>_.
    bind (td_rd self (\<lambda>d. local_version d - local_commit_version d = 0 \<and>
      ws_tail_counter d - ws_wb_counter d = 0)) (\<lambda>pure.
    if pure then
      bind (td_wr self (\<lambda>d. d\<lparr>is_check_locks := 0\<rparr>)) (\<lambda>_.
      td_wr self (\<lambda>d. d\<lparr>n_pure_readers := n_pure_readers d + 1\<rparr>))
    else Ret ())))))))))"

definition rlu_try_writer_lock :: "nat \<Rightarrow> int \<Rightarrow> int rlu" where
  "rlu_try_writer_lock self writer_lock_id =
    bind (td_rd self rlu_type) (\<lambda>ty.
    bind (rlu_assert (ty = RLU_TYPE_COARSE_GRAINED)) (\<lambda>_.
    bind (rlu_try_acquire_writer_lock self writer_lock_id) (\<lambda>b.
    if \<not> b then Ret 0 else
    bind (rlu_add_writer_lock self writer_lock_id) (\<lambda>_. Ret 1))))"

definition rlu_reader_unlock :: "nat \<Rightarrow> nat \<Rightarrow> unit rlu" where
  "rlu_reader_unlock g self =
    bind (td_wr self (\<lambda>d. d\<lparr>n_finish := n_finish d + 1\<rparr>)) (\<lambda>_.
    bind (rlu_unregister_thread self) (\<lambda>_.
    bind (td_rd self is_write_detected) (\<lambda>wd.
    bind (if wd \<noteq> 0 then
        bind (td_wr self (\<lambda>d. d\<lparr>is_write_detected := 0\<rparr>)) (\<lambda>_.
        bind (rlu_commit_write_set g self) (\<lambda>_.
        bind (td_rd self (\<lambda>d. WS_INDEX (ws_tail_counter d - 1))) (\<lambda>i.
        rlu_release_writer_locks self i)))
      else
        bind (td_rd self ws_cur_id) (\<lambda>i.
        bind (rlu_release_writer_locks self i) (\<lambda>_.
        bind (td_rd self ws_cur_id) (\<lambda>i.
        rlu_reset_writer_locks self i)))) (\<lambda>_.
    rlu_sync_checkpoint g self))))"

definition rlu_deref_slow_path :: "nat \<Rightarrow> addr \<Rightarrow> addr rlu" where
  "rlu_deref_slow_path self p_obj =
    (if p_obj = NullP then Ret p_obj else
     bind (GET_COPY p_obj) (\<lambda>c.
     if c = NullP then Ret p_obj
     else if c = PTR_ID_OBJ_COPY then Ret p_obj
     else
       bind (ws_header c ws_thread_id) (\<lambda>th_id.
       bind (td_rd self uniq_id) (\<lambda>u.
       if th_id = u then Ret c else
       bind (td_rd self is_steal) (\<lambda>st.
       if st = 0 then Ret p_obj
       else if th_id < 0 then Fault
       else
         bind (peer_rd (nat th_id) writer_version) (\<lambda>wv.
         bind (td_rd self local_version) (\<lambda>lv.
         if wv \<le> lv then
           bind (td_wr self (\<lambda>d. d\<lparr>n_steals := n_steals d + 1\<rparr>)) (\<lambda>_. Ret c)
         else Ret p_obj)))))))"

text \<open>\<open>RLU_DEREF\<close> is a macro: it evaluates its argument \<open>e\<close> again wherever it mentions it.\<close>

definition RLU_DEREF :: "nat \<Rightarrow> addr rlu \<Rightarrow> addr rlu" where
  "RLU_DEREF self e =
    bind (td_rd self is_check_locks) (\<lambda>ck.
    if ck = 0 then e else
    bind (bind e (\<lambda>p. if p = NullP then Ret False
      else bind (bind e GET_COPY) (\<lambda>c. Ret (c = NullP)))) (\<lambda>unlocked.
    if unlocked then e else bind e (rlu_deref_slow_path self)))"

text \<open>The new value of \<open>*p_p_obj\<close> comes with the result.\<close>

definition rlu_try_lock :: "nat \<Rightarrow> addr \<Rightarrow> nat \<Rightarrow> (int \<times> addr) rlu" where
  "rlu_try_lock self p sz =
    bind (rlu_assert (p \<noteq> NullP)) (\<lambda>_.
    bind (GET_COPY p) (\<lambda>c.
    bind (if c = PTR_ID_OBJ_COPY then
        bind (ws_header p p_obj_actual) (\<lambda>p_obj. bind (GET_COPY p_obj) (\<lambda>c. Ret (p_obj, c)))
      else Ret (p, c)) (\<lambda>(p_obj, c).
    if c \<noteq> NullP then
      bind (ws_header c ws_thread_id) (\<lambda>th_id.
      bind (td_rd self uniq_id) (\<lambda>u.
      if th_id = u then
        bind (td_rd self run_counter) (\<lambda>rc.
        bind (ws_header c ws_run_counter) (\<lambda>wrc.
        if rc = wrc then Ret (1, c)
        else bind (td_wr self (\<lambda>d. d\<lparr>is_sync := is_sync d + 1\<rparr>)) (\<lambda>_. Ret (0, p))))
      else
        bind (rlu_send_sync_request th_id) (\<lambda>_.
        bind (td_wr self (\<lambda>d. d\<lparr>is_sync := is_sync d + 1\<rparr>)) (\<lambda>_.
        Ret (0, p)))))
    else
      bind (td_rd self is_write_detected) (\<lambda>wd.
      bind (if wd = 0 then
          bind (td_wr self (\<lambda>d. d\<lparr>is_write_detected := 1\<rparr>)) (\<lambda>_.
          td_wr self (\<lambda>d. d\<lparr>is_check_locks := 1\<rparr>))
        else Ret ()) (\<lambda>_.
      bind (rlu_add_ws_obj_header_to_write_set self p_obj sz) (\<lambda>copy.
      bind (TRY_CAS_PTR_OBJ_COPY p_obj copy) (\<lambda>b.
      if \<not> b then Ret (0, p) else
      bind (rlu_add_obj_copy_to_write_set self p_obj sz) (\<lambda>_.
      bind (GET_COPY p_obj) (\<lambda>c.
      bind (rlu_assert (c = copy)) (\<lambda>_.
      Ret (1, copy)))))))))))"

definition rlu_lock :: "nat \<Rightarrow> addr \<Rightarrow> nat \<Rightarrow> addr rlu" where
  "rlu_lock self p sz =
    bind (td_rd self rlu_type) (\<lambda>ty.
    bind (rlu_assert (ty = RLU_TYPE_COARSE_GRAINED)) (\<lambda>_.
    bind (rlu_try_lock self p sz) (\<lambda>(r, q).
    bind (rlu_assert (r \<noteq> 0)) (\<lambda>_. Ret q))))"

definition rlu_abort :: "nat \<Rightarrow> nat \<Rightarrow> unit rlu" where
  "rlu_abort g self =
    bind (td_wr self (\<lambda>d. d\<lparr>n_aborts := n_aborts d + 1\<rparr>)) (\<lambda>_.
    bind (rlu_unregister_thread self) (\<lambda>_.
    bind (td_rd self is_write_detected) (\<lambda>wd.
    bind (if wd \<noteq> 0 then
        bind (td_wr self (\<lambda>d. d\<lparr>is_write_detected := 0\<rparr>)) (\<lambda>_.
        bind (td_rd self ws_tail_counter) (\<lambda>tl.
        bind (rlu_unlock_objs self (to_int32 tl)) (\<lambda>_.
        bind (td_rd self ws_cur_id) (\<lambda>i.
        bind (rlu_release_writer_locks self i) (\<lambda>_.
        bind (td_rd self ws_tail_counter) (\<lambda>tl.
        rlu_reset_write_set self tl))))))
      else
        bind (td_rd self ws_cur_id) (\<lambda>i.
        bind (rlu_release_writer_locks self i) (\<lambda>_.
        bind (td_rd self ws_cur_id) (\<lambda>i.
        rlu_reset_writer_locks self i)))) (\<lambda>_.
    rlu_sync_checkpoint g self))))"

definition actual_of :: "addr \<Rightarrow> addr rlu" where
  "actual_of p = (if p \<noteq> NullP then FORCE_ACTUAL p else Ret p)"

definition rlu_cmp_ptrs :: "addr \<Rightarrow> addr \<Rightarrow> bool rlu" where
  "rlu_cmp_ptrs p q = bind (actual_of p) (\<lambda>p. bind (actual_of q) (\<lambda>q. Ret (p = q)))"

text \<open>The pointers that are assigned are the \<open>p_next\<close> fields of nodes, here of the node at \<open>x\<close>.\<close>

definition rlu_assign_pointer :: "addr \<Rightarrow> addr \<Rightarrow> unit rlu" where
  "rlu_assign_pointer x p = bind (actual_of p) (\<lambda>p. nd_wr x (\<lambda>n. n\<lparr>nnext := p\<rparr>))"

end
