(* ===== verification/RluList.thy ===== *)
theory RluList
  imports RluEngine
begin

text \<open>
  rlu-hash-list.c, function by function: the hash table of sorted lists whose nodes are RLU objects.
  \<open>w\<close> bounds a walk, \<open>g\<close> the busy-wait for quiescence and \<open>f\<close> the attempts of a \<open>goto restart\<close>.
\<close>

subsection \<open>Nodes and lists\<close>

definition rlu_new_node :: "addr rlu" where
  "rlu_new_node = rlu_alloc sizeof_node"

definition rl_set_head :: "ptr \<Rightarrow> addr \<Rightarrow> unit rlu" where
  "rl_set_head l p = atomic (\<lambda>t m. if rlists m l = None then None
     else Some ((), m\<lparr>rlists := (rlists m)(l := Some p)\<rparr>))"

definition rl_head :: "ptr \<Rightarrow> addr rlu" where
  "rl_head l = atomic (\<lambda>t m. case rlists m l of Some p \<Rightarrow> Some (p, m) | None \<Rightarrow> None)"

definition rlu_new_list :: "ptr rlu" where
  "rlu_new_list =
    bind list_malloc (\<lambda>p_list.
    bind rlu_new_node (\<lambda>p_max_node.
    bind (nd_wr p_max_node (\<lambda>n. n\<lparr>nval := LIST_VAL_MAX\<rparr>)) (\<lambda>_.
    bind (nd_wr p_max_node (\<lambda>n. n\<lparr>nnext := NullP\<rparr>)) (\<lambda>_.
    bind rlu_new_node (\<lambda>p_min_node.
    bind (nd_wr p_min_node (\<lambda>n. n\<lparr>nval := LIST_VAL_MIN\<rparr>)) (\<lambda>_.
    bind (nd_wr p_min_node (\<lambda>n. n\<lparr>nnext := p_max_node\<rparr>)) (\<lambda>_.
    bind (rl_set_head p_list p_min_node) (\<lambda>_.
    Ret p_list))))))))"

text \<open>The table is written in place of the global pointer, as in \<open>RcuList\<close>.\<close>

definition rl_set_bucket :: "int \<Rightarrow> ptr \<Rightarrow> unit rlu" where
  "rl_set_bucket i l = atomic (\<lambda>t m. case r_hash_list m of
      None \<Rightarrow> None
    | Some T \<Rightarrow> if 0 \<le> i \<and> i < int MAX_BUCKETS
        then Some ((), m\<lparr>r_hash_list := Some (T\<lparr>buckets := (buckets T)(i := l)\<rparr>)\<rparr>) else None)"

fun rlu_fill_buckets :: "nat \<Rightarrow> int \<Rightarrow> int \<Rightarrow> unit rlu" where
  "rlu_fill_buckets 0 i n = Ret ()"
| "rlu_fill_buckets (Suc k) i n =
    (if i < n then
       bind rlu_new_list (\<lambda>l.
       bind (rl_set_bucket i l) (\<lambda>_.
       rlu_fill_buckets k (i + 1) n))
     else Ret ())"

definition rlu_new_hash_list :: "int \<Rightarrow> unit rlu" where
  "rlu_new_hash_list n =
    bind (get (\<lambda>t m. r_alloc m [] (r_cnt m))) (\<lambda>p_hash_list.
    bind (if p_hash_list = NULL then Fault
      else rlu_upd (\<lambda>m. m\<lparr>r_hash_list := Some \<lparr>n_buckets = n, buckets = (\<lambda>_. NULL)\<rparr>\<rparr>)) (\<lambda>_.
    rlu_fill_buckets (nat n) 0 n))"

definition rlu_hash_list_init :: "int \<Rightarrow> int rlu" where
  "rlu_hash_list_init nr_buckets = bind (rlu_new_hash_list nr_buckets) (\<lambda>_. Ret 0)"

fun rlu_list_size_loop :: "nat \<Rightarrow> addr \<Rightarrow> int \<Rightarrow> int rlu" where
  "rlu_list_size_loop 0 p_node sz = Diverge"
| "rlu_list_size_loop (Suc w) p_node sz =
    bind (nd_rd p_node nnext) (\<lambda>q.
    if q \<noteq> NullP then bind (nd_rd p_node nnext) (\<lambda>p_node. rlu_list_size_loop w p_node (sz + 1))
    else Ret sz)"

definition rlu_list_size :: "nat \<Rightarrow> ptr \<Rightarrow> int rlu" where
  "rlu_list_size w p_list =
    bind (rl_head p_list) (\<lambda>h.
    bind (nd_rd h nnext) (\<lambda>p_node.
    rlu_list_size_loop w p_node 0))"

definition rl_table :: "hash_list_t rlu" where
  "rl_table = atomic (\<lambda>t m. case r_hash_list m of Some T \<Rightarrow> Some (T, m) | None \<Rightarrow> None)"

definition rl_bucket :: "int \<Rightarrow> ptr rlu" where
  "rl_bucket i = bind rl_table (\<lambda>T. if 0 \<le> i \<and> i < int MAX_BUCKETS then Ret (buckets T i) else Fault)"

fun rlu_hash_size_loop :: "nat \<Rightarrow> nat \<Rightarrow> int \<Rightarrow> int \<Rightarrow> int rlu" where
  "rlu_hash_size_loop w 0 i sz = Diverge"
| "rlu_hash_size_loop w (Suc k) i sz =
    bind rl_table (\<lambda>T.
    if i < n_buckets T then
      bind (rl_bucket i) (\<lambda>l.
      bind (rlu_list_size w l) (\<lambda>s. rlu_hash_size_loop w k (i + 1) (sz + s)))
    else Ret sz)"

definition rlu_hash_list_size :: "nat \<Rightarrow> int rlu" where
  "rlu_hash_list_size w = rlu_hash_size_loop w (MAX_BUCKETS + 1) 0 0"

subsection \<open>Walks\<close>

fun rlu_search :: "nat \<Rightarrow> nat \<Rightarrow> val_t \<Rightarrow> addr \<Rightarrow> addr \<Rightarrow> (addr \<times> addr \<times> val_t) rlu" where
  "rlu_search 0 self key prev nx = Diverge"
| "rlu_search (Suc w) self key prev nx =
    bind (nd_rd nx nval) (\<lambda>v.
    if key \<le> v then Ret (prev, nx, v)
    else bind (RLU_DEREF self (nd_rd nx nnext)) (\<lambda>q. rlu_search w self key nx q))"

definition rlu_find :: "nat \<Rightarrow> nat \<Rightarrow> ptr \<Rightarrow> val_t \<Rightarrow> (addr \<times> addr \<times> val_t) rlu" where
  "rlu_find w self p_list key =
    bind (RLU_DEREF self (rl_head p_list)) (\<lambda>p_prev.
    bind (RLU_DEREF self (nd_rd p_prev nnext)) (\<lambda>p_next.
    rlu_search w self key p_prev p_next))"

definition rlu_list_contains :: "nat \<Rightarrow> nat \<Rightarrow> nat \<Rightarrow> ptr \<Rightarrow> val_t \<Rightarrow> bool rlu" where
  "rlu_list_contains w g self p_list key =
    bind (rlu_reader_lock g self) (\<lambda>_.
    bind (rlu_find w self p_list key) (\<lambda>(p_prev, p_next, v).
    bind (rlu_reader_unlock g self) (\<lambda>_.
    Ret (v = key))))"

subsection \<open>Updates\<close>

text \<open>The new node between the copies of its neighbours.\<close>

definition rlu_link :: "nat \<Rightarrow> val_t \<Rightarrow> addr \<Rightarrow> addr \<Rightarrow> unit rlu" where
  "rlu_link self key p_prev nx =
    bind rlu_new_node (\<lambda>p_new_node.
    bind (nd_wr p_new_node (\<lambda>n. n\<lparr>nval := key\<rparr>)) (\<lambda>_.
    bind (rlu_assign_pointer p_new_node nx) (\<lambda>_.
    rlu_assign_pointer p_prev p_new_node)))"

fun rlu_list_add :: "nat \<Rightarrow> nat \<Rightarrow> nat \<Rightarrow> nat \<Rightarrow> ptr \<Rightarrow> val_t \<Rightarrow> int rlu" where
  "rlu_list_add w g 0 self p_list key = Diverge"
| "rlu_list_add w g (Suc f) self p_list key =
    bind (rlu_reader_lock g self) (\<lambda>_.
    bind (rlu_find w self p_list key) (\<lambda>(p_prev, p_next, v).
    if v \<noteq> key then
      bind (rlu_try_lock self p_prev sizeof_node) (\<lambda>(ok, p_prev).
      if ok = 0 then bind (rlu_abort g self) (\<lambda>_. rlu_list_add w g f self p_list key) else
      bind (rlu_try_lock self p_next sizeof_node) (\<lambda>(ok, p_next).
      if ok = 0 then bind (rlu_abort g self) (\<lambda>_. rlu_list_add w g f self p_list key) else
      bind (rlu_link self key p_prev p_next) (\<lambda>_.
      bind (rlu_reader_unlock g self) (\<lambda>_. Ret 0))))
    else bind (rlu_reader_unlock g self) (\<lambda>_. Ret 0)))"

definition rlu_list_try_add :: "nat \<Rightarrow> nat \<Rightarrow> nat \<Rightarrow> ptr \<Rightarrow> val_t \<Rightarrow> int rlu" where
  "rlu_list_try_add w g self p_list key =
    bind (rlu_reader_lock g self) (\<lambda>_.
    bind (rlu_find w self p_list key) (\<lambda>(p_prev, p_next, v).
    if v \<noteq> key then
      bind (rlu_try_lock self p_prev sizeof_node) (\<lambda>(ok, p_prev).
      if ok = 0 then bind (rlu_abort g self) (\<lambda>_. Ret 2) else
      bind (rlu_try_lock self p_next sizeof_node) (\<lambda>(ok, p_next).
      if ok = 0 then bind (rlu_abort g self) (\<lambda>_. Ret 2) else
      bind (rlu_link self key p_prev p_next) (\<lambda>_.
      bind (rlu_reader_unlock g self) (\<lambda>_. Ret 0))))
    else bind (rlu_reader_unlock g self) (\<lambda>_. Ret 0)))"

fun rlu_list_remove :: "nat \<Rightarrow> nat \<Rightarrow> nat \<Rightarrow> nat \<Rightarrow> ptr \<Rightarrow> val_t \<Rightarrow> int rlu" where
  "rlu_list_remove w g 0 self p_list key = Diverge"
| "rlu_list_remove w g (Suc f) self p_list key =
    bind (rlu_reader_lock g self) (\<lambda>_.
    bind (rlu_find w self p_list key) (\<lambda>(p_prev, p_next, v).
    if v = key then
      bind (RLU_DEREF self (nd_rd p_next nnext)) (\<lambda>n.
      bind (rlu_try_lock self p_prev sizeof_node) (\<lambda>(ok, p_prev).
      if ok = 0 then bind (rlu_abort g self) (\<lambda>_. rlu_list_remove w g f self p_list key) else
      bind (rlu_try_lock self p_next sizeof_node) (\<lambda>(ok, p_next).
      if ok = 0 then bind (rlu_abort g self) (\<lambda>_. rlu_list_remove w g f self p_list key) else
      bind (rlu_assign_pointer p_prev n) (\<lambda>_.
      bind (rlu_free self p_next) (\<lambda>_.
      bind (rlu_reader_unlock g self) (\<lambda>_. Ret 0))))))
    else bind (rlu_reader_unlock g self) (\<lambda>_. Ret 0)))"

definition rlu_list_try_remove :: "nat \<Rightarrow> nat \<Rightarrow> nat \<Rightarrow> ptr \<Rightarrow> val_t \<Rightarrow> int rlu" where
  "rlu_list_try_remove w g self p_list key =
    bind (rlu_reader_lock g self) (\<lambda>_.
    bind (rlu_find w self p_list key) (\<lambda>(p_prev, p_next, v).
    if v = key then
      bind (RLU_DEREF self (nd_rd p_next nnext)) (\<lambda>n.
      bind (rlu_try_lock self p_prev sizeof_node) (\<lambda>(ok, p_prev).
      if ok = 0 then bind (rlu_abort g self) (\<lambda>_. Ret 2) else
      bind (rlu_try_lock self p_next sizeof_node) (\<lambda>(ok, p_next).
      if ok = 0 then bind (rlu_abort g self) (\<lambda>_. Ret 2) else
      bind (rlu_assign_pointer p_prev n) (\<lambda>_.
      bind (rlu_free self p_next) (\<lambda>_.
      bind (rlu_reader_unlock g self) (\<lambda>_. Ret 0))))))
    else bind (rlu_reader_unlock g self) (\<lambda>_. Ret 0)))"

subsection \<open>The hash table\<close>

definition RLU_HASH_VALUE :: "val_t \<Rightarrow> int rlu" where
  "RLU_HASH_VALUE key =
    bind rl_table (\<lambda>T. if n_buckets T = 0 then Fault else Ret (c_rem key (n_buckets T)))"

definition with_rlu_bucket :: "(ptr \<Rightarrow> val_t \<Rightarrow> 'a rlu) \<Rightarrow> val_t \<Rightarrow> 'a rlu" where
  "with_rlu_bucket opr key =
    bind (RLU_HASH_VALUE key) (\<lambda>h. bind (rl_bucket h) (\<lambda>l. opr l key))"

definition rlu_hash_list_contains :: "nat \<Rightarrow> nat \<Rightarrow> nat \<Rightarrow> val_t \<Rightarrow> int rlu" where
  "rlu_hash_list_contains w g self key =
    bind (with_rlu_bucket (rlu_list_contains w g self) key) (\<lambda>ret. Ret (if ret then 0 else - ENOENT))"

definition rlu_hash_list_add :: "nat \<Rightarrow> nat \<Rightarrow> nat \<Rightarrow> nat \<Rightarrow> val_t \<Rightarrow> int rlu" where
  "rlu_hash_list_add w g f self key = with_rlu_bucket (rlu_list_add w g f self) key"

definition rlu_hash_list_try_add :: "nat \<Rightarrow> nat \<Rightarrow> nat \<Rightarrow> val_t \<Rightarrow> int rlu" where
  "rlu_hash_list_try_add w g self key = with_rlu_bucket (rlu_list_try_add w g self) key"

definition rlu_hash_list_remove :: "nat \<Rightarrow> nat \<Rightarrow> nat \<Rightarrow> nat \<Rightarrow> val_t \<Rightarrow> int rlu" where
  "rlu_hash_list_remove w g f self key = with_rlu_bucket (rlu_list_remove w g f self) key"

definition rlu_hash_list_try_remove :: "nat \<Rightarrow> nat \<Rightarrow> nat \<Rightarrow> val_t \<Rightarrow> int rlu" where
  "rlu_hash_list_try_remove w g self key = with_rlu_bucket (rlu_list_try_remove w g self) key"

subsection \<open>Destruction\<close>

fun rlu_destroy_loop :: "nat \<Rightarrow> addr \<Rightarrow> unit rlu" where
  "rlu_destroy_loop 0 iter = Diverge"
| "rlu_destroy_loop (Suc w) iter =
    (if iter \<noteq> NullP then
       bind (rlu_free 0 iter) (\<lambda>_.
       bind (nd_rd iter nnext) (\<lambda>iter. rlu_destroy_loop w iter))
     else Ret ())"

definition rl_kfree :: "ptr \<Rightarrow> unit rlu" where
  "rl_kfree l = atomic (\<lambda>t m. if l = NULL then Some ((), m) else if rlists m l = None then None
     else Some ((), m\<lparr>rlists := (rlists m)(l := None), r_llive := removeAll l (r_llive m)\<rparr>))"

fun rlu_destroy_buckets :: "nat \<Rightarrow> nat \<Rightarrow> int \<Rightarrow> unit rlu" where
  "rlu_destroy_buckets w 0 i = Diverge"
| "rlu_destroy_buckets w (Suc k) i =
    bind rl_table (\<lambda>T.
    if i < n_buckets T then
      bind (rl_bucket i) (\<lambda>l.
      bind (rl_head l) (\<lambda>h.
      bind (rlu_destroy_loop w h) (\<lambda>_.
      bind (rl_bucket i) (\<lambda>l.
      bind (rl_kfree l) (\<lambda>_. rlu_destroy_buckets w k (i + 1))))))
    else Ret ())"

definition rlu_hash_list_destroy :: "nat \<Rightarrow> unit rlu" where
  "rlu_hash_list_destroy w =
    bind (rlu_destroy_buckets w (MAX_BUCKETS + 1) 0) (\<lambda>_.
    rlu_upd (\<lambda>m. m\<lparr>r_hash_list := None\<rparr>))"

end
