(* ===== verification/RluRun.thy ===== *)
theory RluRun
  imports RluList
begin

text \<open>
  Running RLU programs by one thread: \<open>runs t c m Q\<close> says that \<open>c\<close> returns from \<open>m\<close>, in a state and with a
  value that satisfy \<open>Q\<close>. The rules for the actions turn it into the effect on the machine.
\<close>

subsection \<open>Total correctness of a run\<close>

definition runs :: "tid \<Rightarrow> ('s, 'a) proc \<Rightarrow> 's \<Rightarrow> ('a \<Rightarrow> 's \<Rightarrow> bool) \<Rightarrow> bool" where
  "runs t c m Q \<longleftrightarrow> (\<exists>a m'. run t c m = Returned a m' \<and> Q a m')"

named_theorems runs_simps \<open>what a program does from a known state\<close>

lemma runs_control [simp, runs_simps]:
  "runs t (Ret a) m Q = Q a m"
  "runs t Fault m Q = False"
  "runs t Diverge m Q = False"
  by (simp_all add: runs_def)

lemma runs_bind [simp, runs_simps]: "runs t (bind c k) m Q = runs t c m (\<lambda>a m'. runs t (k a) m' Q)"
proof -
  have "runs t (bind c k) m Q \<longleftrightarrow> (\<exists>a m'. result_bind (run t c m) (\<lambda>a m'. run t (k a) m') = Returned a m' \<and> Q a m')"
    by (simp add: runs_def run_bind)
  also have "\<dots> \<longleftrightarrow> runs t c m (\<lambda>a m'. runs t (k a) m' Q)"
    by (cases "run t c m") (auto simp: runs_def)
  finally show ?thesis .
qed

lemma runs_atomic: "runs t (atomic f) m Q \<longleftrightarrow> (\<exists>a m'. f t m = Some (a, m') \<and> Q a m')"
  by (auto simp: runs_def run_atomic split: option.splits)

lemma runs_get [simp, runs_simps]: "runs t (get f) m Q = Q (f t m) m"
  by (simp add: get_def runs_atomic)

lemma runs_upd [simp, runs_simps]: "runs t (rlu_upd f) m Q = Q () (f m)"
  by (simp add: rlu_upd_def runs_atomic)

lemma runs_assert [simp, runs_simps]: "runs t (rlu_assert b) m Q \<longleftrightarrow> b \<and> Q () m"
  by (simp add: rlu_assert_def)

lemma runs_run: "run t c m = Returned a m' \<Longrightarrow> runs t c m Q = Q a m'"
  by (simp add: runs_def)

lemma runs_mono: "runs t c m Q \<Longrightarrow> (\<And>a m'. Q a m' \<Longrightarrow> Q' a m') \<Longrightarrow> runs t c m Q'"
  by (auto simp: runs_def)

lemma runs_conj: "runs t c m Q \<Longrightarrow> runs t c m Q' \<Longrightarrow> runs t c m (\<lambda>a m'. Q a m' \<and> Q' a m')"
  by (auto simp: runs_def)

lemma runs_if: "runs t (if b then c else d) m Q = (if b then runs t c m Q else runs t d m Q)"
  by simp

lemma runs_for_each:
  assumes "I [] m"
    and "\<And>xs x ys m. l = xs @ x # ys \<Longrightarrow> I xs m \<Longrightarrow> runs t (f x) m (\<lambda>_ m'. I (xs @ [x]) m')"
  shows "runs t (for_each l f) m (\<lambda>_ m'. I l m')"
proof -
  have "runs t (for_each ys f) m (\<lambda>_ m'. I l m')" if "l = xs @ ys" "I xs m" for xs ys m
    using that
  proof (induction ys arbitrary: xs m)
    case (Cons y ys)
    have "runs t (f y) m (\<lambda>_ m'. I (xs @ [y]) m')" using assms(2)[of xs y ys m] Cons.prems by simp
    then show ?case by (simp, rule runs_mono) (rule Cons.IH, use Cons.prems in simp_all)
  qed simp
  from this[of "[]" l m] show ?thesis using assms(1) by simp
qed

subsection \<open>The thread records\<close>

lemma td_proj [simp]:
  "tds (set_td s d m) = (tds m)(s := Some d)" "objs (set_td s d m) = objs m" "rlists (set_td s d m) = rlists m"
  "r_hash_list (set_td s d m) = r_hash_list m" "g_rlu_cur_threads (set_td s d m) = g_rlu_cur_threads m"
  "g_rlu_threads (set_td s d m) = g_rlu_threads m" "g_rlu_writer_version (set_td s d m) = g_rlu_writer_version m"
  "g_rlu_commit_version (set_td s d m) = g_rlu_commit_version m" "r_live (set_td s d m) = r_live m"
  "r_alloc (set_td s d m) = r_alloc m" "r_cnt (set_td s d m) = r_cnt m" "r_llive (set_td s d m) = r_llive m"
  "r_junk (set_td s d m) = r_junk m" "r_hjunk (set_td s d m) = r_hjunk m"
  by (simp_all add: set_td_def)

lemma set_td_twice [simp]: "set_td s d (set_td s d' m) = set_td s d m"
  by (simp add: set_td_def)

lemma set_td_same: "tds m s = Some d \<Longrightarrow> set_td s d m = m"
  by (simp add: set_td_def fun_upd_idem)

lemma runs_td_rd [simp, runs_simps]: "tds m s = Some d \<Longrightarrow> runs t (td_rd s f) m Q = Q (f d) m"
  by (simp add: td_rd_def runs_atomic)

lemma runs_td_wr [simp, runs_simps]: "tds m s = Some d \<Longrightarrow> runs t (td_wr s f) m Q = Q () (set_td s (f d) m)"
  by (simp add: td_wr_def runs_atomic)

lemma runs_ws_rd [simp, runs_simps]:
  "tds m s = Some d \<Longrightarrow> runs t (ws_rd s i f) m Q \<longleftrightarrow> 0 \<le> i \<and> i < RLU_MAX_WRITE_SETS \<and> Q (f (obj_write_set d (nat i))) m"
  by (auto simp: ws_rd_def)

lemma runs_ws_wr [simp, runs_simps]:
  "tds m s = Some d \<Longrightarrow> runs t (ws_wr s i f) m Q \<longleftrightarrow> 0 \<le> i \<and> i < RLU_MAX_WRITE_SETS \<and> Q () (set_td s (set_ws i f d) m)"
  by (auto simp: ws_wr_def)

lemma runs_ent_rd [simp, runs_simps]:
  "tds m s = Some d \<Longrightarrow> runs t (ent_rd s i off f) m Q \<longleftrightarrow> off \<le> RLU_MAX_WRITE_SET_BUFFER_SIZE \<and>
     0 \<le> i \<and> i < RLU_MAX_WRITE_SETS \<and> Q (f (buffer (obj_write_set d (nat i)) off)) m"
  by (auto simp: ent_rd_def)

lemma runs_ent_wr [simp, runs_simps]:
  "tds m s = Some d \<Longrightarrow> runs t (ent_wr s i off f) m Q \<longleftrightarrow> off \<le> RLU_MAX_WRITE_SET_BUFFER_SIZE \<and>
     0 \<le> i \<and> i < RLU_MAX_WRITE_SETS \<and> Q () (set_td s (set_ws i (set_ent off f) d) m)"
  by (auto simp: ent_wr_def)

text \<open>What the updates of a record change.\<close>

lemma set_ws_proj [simp]:
  "obj_write_set (set_ws i f d) = (obj_write_set d)(nat i := f (obj_write_set d (nat i)))"
  "uniq_id (set_ws i f d) = uniq_id d" "run_counter (set_ws i f d) = run_counter d"
  "ws_head_counter (set_ws i f d) = ws_head_counter d" "ws_wb_counter (set_ws i f d) = ws_wb_counter d"
  "ws_tail_counter (set_ws i f d) = ws_tail_counter d" "ws_cur_id (set_ws i f d) = ws_cur_id d"
  "free_nodes_size (set_ws i f d) = free_nodes_size d" "free_nodes (set_ws i f d) = free_nodes d"
  "max_write_sets (set_ws i f d) = max_write_sets d" "is_sync (set_ws i f d) = is_sync d"
  "is_write_detected (set_ws i f d) = is_write_detected d" "is_check_locks (set_ws i f d) = is_check_locks d"
  "is_no_quiescence (set_ws i f d) = is_no_quiescence d" "writer_version (set_ws i f d) = writer_version d"
  "local_version (set_ws i f d) = local_version d" "local_commit_version (set_ws i f d) = local_commit_version d"
  "is_steal (set_ws i f d) = is_steal d" "rlu_type (set_ws i f d) = rlu_type d"
  by (simp_all add: set_ws_def)

lemma set_ws_twice [simp]: "set_ws i f (set_ws i g d) = set_ws i (f \<circ> g) d"
  by (simp add: set_ws_def)

lemma set_ent_proj [simp]:
  "buffer (set_ent off f w) = (buffer w)(off := f (buffer w off))" "num_of_objs (set_ent off f w) = num_of_objs w"
  "p_cur (set_ent off f w) = p_cur w" "writer_locks (set_ent off f w) = writer_locks w"
  by (simp_all add: set_ent_def)

subsection \<open>Objects\<close>

lemma runs_get_copy_obj [simp, runs_simps]:
  "objs m a = Some x \<Longrightarrow> runs t (GET_COPY (ObjP a)) m Q = Q (obj_h x) m"
  by (simp add: runs_atomic)

lemma runs_nd_rd_obj [simp, runs_simps]:
  "objs m a = Some x \<Longrightarrow> runs t (nd_rd (ObjP a) f) m Q = Q (f (obj_node x)) m"
  by (simp add: runs_atomic)

definition set_obj :: "nat \<Rightarrow> rlu_obj \<Rightarrow> rlu_mach \<Rightarrow> rlu_mach" where
  "set_obj a x m = m\<lparr>objs := (objs m)(a := Some x)\<rparr>"

lemma obj_proj [simp]:
  "objs (set_obj a x m) = (objs m)(a := Some x)" "tds (set_obj a x m) = tds m" "rlists (set_obj a x m) = rlists m"
  "r_hash_list (set_obj a x m) = r_hash_list m" "g_rlu_cur_threads (set_obj a x m) = g_rlu_cur_threads m"
  "g_rlu_threads (set_obj a x m) = g_rlu_threads m" "g_rlu_writer_version (set_obj a x m) = g_rlu_writer_version m"
  "g_rlu_commit_version (set_obj a x m) = g_rlu_commit_version m" "r_live (set_obj a x m) = r_live m"
  "r_alloc (set_obj a x m) = r_alloc m" "r_cnt (set_obj a x m) = r_cnt m" "r_llive (set_obj a x m) = r_llive m"
  "r_junk (set_obj a x m) = r_junk m" "r_hjunk (set_obj a x m) = r_hjunk m"
  "set_obj a x (set_obj a y m) = set_obj a x m"
  by (simp_all add: set_obj_def)

lemma runs_nd_wr_obj [simp, runs_simps]:
  "objs m a = Some x \<Longrightarrow> runs t (nd_wr (ObjP a) f) m Q = Q () (set_obj a (x\<lparr>obj_node := f (obj_node x)\<rparr>) m)"
  by (simp add: runs_atomic set_obj_def)

lemma runs_unlock [simp, runs_simps]:
  "objs m a = Some x \<Longrightarrow> runs t (UNLOCK (ObjP a)) m Q = Q () (set_obj a (x\<lparr>obj_h := NullP\<rparr>) m)"
  by (simp add: runs_atomic set_obj_def)

lemma runs_cas [simp, runs_simps]:
  "objs m a = Some x \<Longrightarrow> obj_h x = NullP \<Longrightarrow>
    runs t (TRY_CAS_PTR_OBJ_COPY (ObjP a) q) m Q = Q True (set_obj a (x\<lparr>obj_h := q\<rparr>) m)"
  by (auto simp add: runs_atomic set_obj_def)

declare GET_COPY.simps(1) [simp del] nd_rd.simps(1) [simp del] nd_wr.simps(1) [simp del]
  UNLOCK.simps(1) [simp del] TRY_CAS_PTR_OBJ_COPY.simps(1) [simp del]

end
