(* ===== verification/Driver.thy ===== *)
theory Driver
  imports RluRun Client
begin

text \<open>
  The part of sync\_test.c that works on the lists: filling the table by half and the loop of a benchmark thread,
  over the operations of a benchmark on any state. The random numbers and the clock are parameters. The
  creation of threads, the completion and the messages are left out.
\<close>

subsection \<open>The code\<close>

text \<open>The operations of a \<open>benchmark_t\<close>, their first argument applied.\<close>

record 's benchmark_t =
  b_lookup :: "val_t \<Rightarrow> ('s, int) proc"
  b_insert :: "val_t \<Rightarrow> ('s, int) proc"
  b_delete :: "val_t \<Rightarrow> ('s, int) proc"

text \<open>The counters of a thread, \<open>unsigned long\<close>.\<close>

record bench_ops =
  nb_lookup :: "64 word"
  nb_insert :: "64 word"
  nb_delete :: "64 word"
  nb_ins_abort :: "64 word"
  nb_del_abort :: "64 word"

definition no_ops :: bench_ops where
  "no_ops = \<lparr>nb_lookup = 0, nb_insert = 0, nb_delete = 0, nb_ins_abort = 0, nb_del_abort = 0\<rparr>"

text \<open>The module parameters, the thread's random numbers (32 bits each) and the clock, by the number of the call.\<close>

record bench_cfg =
  cfg_update :: int
  cfg_range :: int
  cfg_duration :: int
  cfg_rnd :: "nat \<Rightarrow> int"
  cfg_clock :: "nat \<Rightarrow> timespec"

text \<open>The remainder is that of \<open>unsigned int\<close>, and its value is assigned to an \<open>int\<close>.\<close>

definition rand_range :: "int \<Rightarrow> int \<Rightarrow> ('s, int) proc" where
  "rand_range n x = (if n mod 2 ^ 32 = 0 then Fault else Ret (to_int32 (x mod (n mod 2 ^ 32))))"

definition bench_op :: "'s benchmark_t \<Rightarrow> bench_cfg \<Rightarrow> nat \<Rightarrow> bench_ops \<Rightarrow> ('s, nat \<times> bench_ops) proc" where
  "bench_op b cfg k ops =
    bind (rand_range 10000 (cfg_rnd cfg k)) (\<lambda>op.
    bind (rand_range (cfg_range cfg) (cfg_rnd cfg (k + 1))) (\<lambda>val.
    if op < cfg_update cfg then
      bind (rand_range 2 (cfg_rnd cfg (k + 2))) (\<lambda>op.
      if op mod 2 = 0 then
        bind (b_insert b val) (\<lambda>r. Ret (k + 3,
          if r = 0 then ops\<lparr>nb_insert := nb_insert ops + 1\<rparr> else ops\<lparr>nb_ins_abort := nb_ins_abort ops + 1\<rparr>))
      else
        bind (b_delete b val) (\<lambda>r. Ret (k + 3,
          if r = 0 then ops\<lparr>nb_delete := nb_delete ops + 1\<rparr> else ops\<lparr>nb_del_abort := nb_del_abort ops + 1\<rparr>)))
    else
      bind (b_lookup b val) (\<lambda>_. Ret (k + 2, ops\<lparr>nb_lookup := nb_lookup ops + 1\<rparr>))))"

definition elapsed_ms :: "timespec \<Rightarrow> timespec \<Rightarrow> 64 word" where
  "elapsed_ms start now = of_int ((tv_sec now * 1000 + c_div (tv_nsec now) 1000000) -
     (tv_sec start * 1000 + c_div (tv_nsec start) 1000000))"

text \<open>\<open>k\<close> and \<open>j\<close> count the random numbers and the readings of the clock; \<open>f\<close> bounds the iterations.\<close>

fun bench_loop :: "nat \<Rightarrow> 's benchmark_t \<Rightarrow> bench_cfg \<Rightarrow> timespec \<Rightarrow> nat \<Rightarrow> nat \<Rightarrow> bench_ops \<Rightarrow> ('s, bench_ops) proc" where
  "bench_loop 0 b cfg start k j ops = Diverge"
| "bench_loop (Suc f) b cfg start k j ops =
    bind (bench_op b cfg k ops) (\<lambda>(k, ops).
    if elapsed_ms start (cfg_clock cfg j) < of_int (cfg_duration cfg)
    then bench_loop f b cfg start k (j + 1) ops else Ret ops)"

definition sync_test_thread :: "nat \<Rightarrow> 's benchmark_t \<Rightarrow> bench_cfg \<Rightarrow> ('s, bench_ops) proc" where
  "sync_test_thread f b cfg = bench_loop f b cfg (cfg_clock cfg 0) 0 1 no_ops"

text \<open>
  Each insertion is repeated with a new key until it succeeds. \<open>rnd\<close> are the values of \<open>get_random_int\<close>, \<open>f\<close>
  bounds the attempts of one insertion and \<open>n\<close> counts the insertions to go.
\<close>

fun fill_one :: "nat \<Rightarrow> (val_t \<Rightarrow> ('s, int) proc) \<Rightarrow> int \<Rightarrow> (nat \<Rightarrow> int) \<Rightarrow> nat \<Rightarrow> ('s, nat) proc" where
  "fill_one 0 ins rg rnd k = Diverge"
| "fill_one (Suc f) ins rg rnd k =
    bind (rand_range rg (rnd k)) (\<lambda>key.
    bind (ins key) (\<lambda>r. if r \<noteq> 0 then fill_one f ins rg rnd (k + 1) else Ret (k + 1)))"

fun fill_loop :: "nat \<Rightarrow> (val_t \<Rightarrow> ('s, int) proc) \<Rightarrow> int \<Rightarrow> (nat \<Rightarrow> int) \<Rightarrow> nat \<Rightarrow> nat \<Rightarrow> ('s, nat) proc" where
  "fill_loop f ins rg rnd k 0 = Ret k"
| "fill_loop f ins rg rnd k (Suc n) = bind (fill_one f ins rg rnd k) (\<lambda>k. fill_loop f ins rg rnd k n)"

definition half_fill :: "nat \<Rightarrow> (val_t \<Rightarrow> ('s, int) proc) \<Rightarrow> int \<Rightarrow> (nat \<Rightarrow> int) \<Rightarrow> ('s, nat) proc" where
  "half_fill f ins rg rnd = fill_loop f ins rg rnd 0 (nat (c_div rg 2))"

subsection \<open>Lists that serve a benchmark\<close>

definition total_ops :: "bench_ops \<Rightarrow> 64 word" where
  "total_ops ops = nb_lookup ops + nb_insert ops + nb_delete ops + nb_ins_abort ops + nb_del_abort ops"

text \<open>
  What a benchmark needs of a list: from a state with a budget of \<open>n\<close> calls every call returns and leaves a budget
  that is one smaller, and an insertion that fails succeeds the next time.
\<close>

locale bench_client =
  fixes t :: tid and b :: "'s benchmark_t" and ready :: "nat \<Rightarrow> 's \<Rightarrow> bool"
  assumes less: "ready (Suc n) m \<Longrightarrow> ready n m"
    and lookup: "ready (Suc n) m \<Longrightarrow> valid_key key \<Longrightarrow> runs t (b_lookup b key) m (\<lambda>r m'. ready n m')"
    and delete: "ready (Suc n) m \<Longrightarrow> valid_key key \<Longrightarrow> runs t (b_delete b key) m (\<lambda>r m'. ready n m')"
    and insert: "ready (Suc n) m \<Longrightarrow> valid_key key \<Longrightarrow> runs t (b_insert b key) m (\<lambda>r m'. ready n m')"
    and again: "ready (Suc (Suc n)) m \<Longrightarrow> valid_key key \<Longrightarrow> valid_key key' \<Longrightarrow>
      runs t (b_insert b key) m (\<lambda>r m'. r \<noteq> 0 \<longrightarrow> runs t (b_insert b key') m' (\<lambda>r m'. r = 0 \<and> ready n m'))"
begin

lemma less_add: "ready (k + n) m \<Longrightarrow> ready n m"
  by (induction k) (auto dest: less)

lemma rand_key:
  assumes "0 < rg" "rg < LIST_VAL_MAX" "0 \<le> x" "x < 2 ^ 32"
  obtains key where "rand_range rg x = Ret key" "valid_key key"
proof
  have r: "rg mod 2 ^ 32 = rg" using assms by (simp add: LIST_VAL_MAX_def)
  have m: "0 \<le> x mod rg" "x mod rg < rg" using assms(1) by simp_all
  then have "to_int32 (x mod rg) = x mod rg" using assms(2) by (simp add: to_int32_id LIST_VAL_MAX_def)
  then show "rand_range rg x = Ret (x mod rg)" using assms(1) by (simp only: rand_range_def r) simp
  show "valid_key (x mod rg)" using m assms(2) by (simp add: valid_key_def)
qed

lemma fill_one:
  assumes "ready (Suc (Suc n)) m" "0 < rg" "rg < LIST_VAL_MAX" "\<forall>k. 0 \<le> rnd k \<and> rnd k < 2 ^ 32"
  shows "runs t (fill_one 2 (b_insert b) rg rnd k) m (\<lambda>_ m'. ready n m')"
proof -
  obtain k1 k2 where k: "rand_range rg (rnd k) = (Ret k1 :: ('s, int) proc)" "valid_key k1"
    "rand_range rg (rnd (k + 1)) = (Ret k2 :: ('s, int) proc)" "valid_key k2"
    using rand_key[OF assms(2,3), of "rnd k"] rand_key[OF assms(2,3), of "rnd (k + 1)"] assms(4) by metis
  have "runs t (b_insert b k1) m (\<lambda>r m'. ready (Suc n) m' \<and>
      (r \<noteq> 0 \<longrightarrow> runs t (b_insert b k2) m' (\<lambda>r m'. r = 0 \<and> ready n m')))"
    by (rule runs_conj[OF insert[OF assms(1) k(2)] again[OF assms(1) k(2,4)]])
  then have "runs t (b_insert b k1) m (\<lambda>r m'. runs t (if r \<noteq> 0 then fill_one (Suc 0) (b_insert b) rg rnd (k + 1)
      else Ret (k + 1)) m' (\<lambda>_ m'. ready n m'))"
    by (rule runs_mono) (auto simp: k(3)[simplified] dest: less elim: runs_mono)
  then show ?thesis by (simp add: numeral_2_eq_2 k(1))
qed

lemma fill:
  assumes "ready (2 * nat (c_div rg 2) + n) m" "0 < rg" "rg < LIST_VAL_MAX" "\<forall>k. 0 \<le> rnd k \<and> rnd k < 2 ^ 32"
  shows "runs t (half_fill 2 (b_insert b) rg rnd) m (\<lambda>_ m'. ready n m')"
proof -
  have "runs t (fill_loop 2 (b_insert b) rg rnd k c) m (\<lambda>_ m'. ready n m')" if "ready (2 * c + n) m" for k c
    using that
  proof (induction c arbitrary: k m)
    case (Suc c)
    have r: "ready (Suc (Suc (2 * c + n))) m" using Suc.prems by simp
    show ?case
      unfolding fill_loop.simps runs_bind by (rule runs_mono[OF fill_one[OF r assms(2-4)]]) (rule Suc.IH)
  qed simp
  then show ?thesis using assms(1) by (simp add: half_fill_def)
qed

lemma one_op:
  assumes "ready (Suc n) m" "0 < cfg_range cfg" "cfg_range cfg < LIST_VAL_MAX"
    "\<forall>k. 0 \<le> cfg_rnd cfg k \<and> cfg_rnd cfg k < 2 ^ 32"
  shows "runs t (bench_op b cfg k ops) m (\<lambda>(k, ops') m'. ready n m' \<and> total_ops ops' = total_ops ops + 1)"
proof -
  obtain val where v: "rand_range (cfg_range cfg) (cfg_rnd cfg (k + 1)) = (Ret val :: ('s, int) proc)" "valid_key val"
    using rand_key[OF assms(2,3)] assms(4) by metis
  have r: "\<exists>i. rand_range j x = (Ret i :: ('s, int) proc)" if "j = 10000 \<or> j = 2" for j x
    using that by (auto simp: rand_range_def)
  obtain op op' where o: "rand_range 10000 (cfg_rnd cfg k) = (Ret op :: ('s, int) proc)"
    "rand_range 2 (cfg_rnd cfg (k + 2)) = (Ret op' :: ('s, int) proc)"
    using r[of 10000 "cfg_rnd cfg k"] r[of 2 "cfg_rnd cfg (k + 2)"] by blast
  show ?thesis
    using insert[OF assms(1) v(2)] delete[OF assms(1) v(2)] lookup[OF assms(1) v(2)]
    by (auto simp: bench_op_def o v(1)[simplified] o(2)[simplified] total_ops_def elim!: runs_mono)
qed

lemma loop:
  assumes "ready (Suc N + n) m" "0 < cfg_range cfg" "cfg_range cfg < LIST_VAL_MAX"
    "\<forall>k. 0 \<le> cfg_rnd cfg k \<and> cfg_rnd cfg k < 2 ^ 32"
    "of_int (cfg_duration cfg) \<le> elapsed_ms start (cfg_clock cfg (j + N))"
  shows "runs t (bench_loop (Suc N) b cfg start k j ops) m
    (\<lambda>ops' m'. ready n m' \<and> (\<exists>i \<le> N. total_ops ops' = total_ops ops + of_nat (Suc i)))"
  using assms(1,5)
proof (induction N arbitrary: k j ops m)
  case 0
  have r: "ready (Suc n) m" using 0 by simp
  have "runs t (bench_op b cfg k ops) m (\<lambda>r m'. ready n m' \<and> total_ops (snd r) = total_ops ops + 1)"
    by (rule runs_mono[OF one_op[OF r assms(2-4)]]) auto
  then show ?case using 0(2) by (simp add: split_beta not_less[symmetric])
next
  case (Suc N)
  let ?Q = "\<lambda>ops' m'. ready n m' \<and> (\<exists>i \<le> Suc N. total_ops ops' = total_ops ops + of_nat (Suc i))"
  have r: "ready (Suc (Suc N + n)) m" using Suc.prems by simp
  have "runs t (bench_op b cfg k ops) m (\<lambda>r m'. ready (Suc N + n) m' \<and> total_ops (snd r) = total_ops ops + 1)"
    by (rule runs_mono[OF one_op[OF r assms(2-4)]]) auto
  then have "runs t (bench_op b cfg k ops) m (\<lambda>r m'. runs t (if elapsed_ms start (cfg_clock cfg j) < of_int (cfg_duration cfg)
      then bench_loop (Suc N) b cfg start (fst r) (j + 1) (snd r) else Ret (snd r)) m' ?Q)"
  proof (rule runs_mono, elim conjE)
    fix r :: "nat \<times> bench_ops" and m'
    assume m': "ready (Suc N + n) m'" "total_ops (snd r) = total_ops ops + 1"
    have "runs t (bench_loop (Suc N) b cfg start (fst r) (j + 1) (snd r)) m'
        (\<lambda>ops'' m'. ready n m' \<and> (\<exists>i \<le> N. total_ops ops'' = total_ops (snd r) + of_nat (Suc i)))"
      by (rule Suc.IH) (use m' Suc.prems in simp_all)
    then have "runs t (bench_loop (Suc N) b cfg start (fst r) (j + 1) (snd r)) m' ?Q"
    proof (rule runs_mono, elim conjE exE)
      fix o2 m2 i assume 2: "ready n m2" "i \<le> N" "total_ops o2 = total_ops (snd r) + of_nat (Suc i)"
      then have "total_ops o2 = total_ops ops + of_nat (Suc (Suc i))" using m'(2) by simp
      then show "?Q o2 m2" using 2 by (intro conjI exI[of _ "Suc i"]) simp_all
    qed
    moreover have "ready n m'" using less_add[of "Suc N" n m'] m'(1) by simp
    then have "?Q (snd r) m'" using m'(2) by (auto intro!: exI[of _ 0])
    ultimately show "runs t (if elapsed_ms start (cfg_clock cfg j) < of_int (cfg_duration cfg)
        then bench_loop (Suc N) b cfg start (fst r) (j + 1) (snd r) else Ret (snd r)) m' ?Q"
      by (simp del: bench_loop.simps)
  qed
  then show ?case by (simp add: split_beta)
qed

end

end
