(* ===== verification/RluLog.thy ===== *)
theory RluLog
  imports RluRun
begin

text \<open>
  The write-set log of a thread and the objects it has locked: where an entry lies in its buffer, when a write set
  is well-formed, and what writing it back or unlocking it does to the heap.
\<close>

subsection \<open>The ring of write sets\<close>

definition ring :: "int \<Rightarrow> nat" where
  "ring c = nat (c mod 200)"

lemma ring_less [simp]: "ring c < 200"
  by (simp add: ring_def nat_less_iff)

lemma ws_index [simp]:
  assumes "0 \<le> c"
  shows "WS_INDEX c = int (ring c)"
  using assms by (simp add: WS_INDEX_def RLU_MAX_WRITE_SETS_def ring_def c_rem_def)

lemma ring_inj: "ring c = ring c' \<Longrightarrow> \<bar>c - c'\<bar> < 200 \<Longrightarrow> c = c'"
proof -
  assume a: "ring c = ring c'" "\<bar>c - c'\<bar> < 200"
  then have "c mod 200 = c' mod 200" by (simp add: ring_def eq_nat_nat_iff)
  then have "200 dvd c - c'" by (simp add: mod_eq_dvd_iff)
  then obtain k where k: "c - c' = 200 * k" by (rule dvdE)
  then have "k = 0" using a(2) by arith
  then show "c = c'" using k by simp
qed

text \<open>The entries of a buffer are 1064 bytes apart: two headers and a node.\<close>

definition ent_at :: "nat \<Rightarrow> nat" where
  "ent_at k = k * 1064"

definition off :: "nat \<Rightarrow> nat" where
  "off k = k * 1064 + 40"

lemma offs [simp]:
  "ent_at 0 = 0" "ent_at k + WS_OBJ_HEADER_SIZE + OBJ_HEADER_SIZE = off k" "off k + ALIGN_OBJ_SIZE sizeof_node = ent_at (Suc k)"
  "off k = off k' \<longleftrightarrow> k = k'" "ent_at k = ent_at k' \<longleftrightarrow> k = k'"
  by (simp_all add: ent_at_def off_def WS_OBJ_HEADER_SIZE_def OBJ_HEADER_SIZE_def ALIGN_OBJ_SIZE_def
      sizeof_node_def ALIGN_NUMBER_def)

lemma off_fits:
  "k < 93 \<Longrightarrow> off k + sizeof_node \<le> RLU_MAX_WRITE_SET_BUFFER_SIZE"
  "k < 93 \<Longrightarrow> off k \<le> RLU_MAX_WRITE_SET_BUFFER_SIZE"
  "k < 93 \<Longrightarrow> ent_at (Suc k) < RLU_MAX_WRITE_SET_BUFFER_SIZE"
  by (simp_all add: off_def ent_at_def sizeof_node_def RLU_MAX_WRITE_SET_BUFFER_SIZE_def)

abbreviation wset :: "rlu_thread_data \<Rightarrow> int \<Rightarrow> obj_list_t" where
  "wset d c \<equiv> obj_write_set d (ring c)"

abbreviation entry :: "rlu_thread_data \<Rightarrow> int \<Rightarrow> nat \<Rightarrow> ws_entry" where
  "entry d c k \<equiv> buffer (wset d c) (off k)"

text \<open>The objects whose copies a write set holds.\<close>

definition acts_of :: "rlu_thread_data \<Rightarrow> int \<Rightarrow> nat set \<Rightarrow> nat set" where
  "acts_of d c K = {a. \<exists>k \<in> K. p_obj_actual (entry d c k) = ObjP a}"

definition acts :: "rlu_thread_data \<Rightarrow> int \<Rightarrow> nat set" where
  "acts d c = acts_of d c {..<num_of_objs (wset d c)}"

definition entry_ok :: "nat \<Rightarrow> rlu_thread_data \<Rightarrow> rlu_mach \<Rightarrow> int \<Rightarrow> nat \<Rightarrow> bool" where
  "entry_ok s d m c k \<longleftrightarrow> copy_h (entry d c k) = PTR_ID_OBJ_COPY \<and> obj_size (entry d c k) = sizeof_node \<and>
     ws_thread_id (entry d c k) = uniq_id d \<and>
     (\<exists>a x. p_obj_actual (entry d c k) = ObjP a \<and> objs m a = Some x \<and> obj_h x = CopyP s (ring c) (off k))"

definition ws_ok :: "nat \<Rightarrow> rlu_thread_data \<Rightarrow> rlu_mach \<Rightarrow> int \<Rightarrow> bool" where
  "ws_ok s d m c \<longleftrightarrow> num_of_objs (wset d c) \<le> 90 \<and> p_cur (wset d c) = ent_at (num_of_objs (wset d c)) \<and>
     (\<forall>k < num_of_objs (wset d c). entry_ok s d m c k)"

definition clean :: "rlu_thread_data \<Rightarrow> int \<Rightarrow> bool" where
  "clean d c \<longleftrightarrow> num_of_objs (wset d c) = 0 \<and> p_cur (wset d c) = 0"

lemma clean_ok: "clean d c \<Longrightarrow> ws_ok s d m c" "clean d c \<Longrightarrow> acts d c = {}"
  by (simp_all add: clean_def ws_ok_def acts_def acts_of_def)

lemma acts_finite [simp]: "finite (acts d c)" and acts_card: "card (acts d c) \<le> num_of_objs (wset d c)"
proof -
  let ?f = "\<lambda>k. case p_obj_actual (entry d c k) of ObjP a \<Rightarrow> a | _ \<Rightarrow> 0"
  have s: "acts d c \<subseteq> ?f ` {..<num_of_objs (wset d c)}" by (force simp: acts_def acts_of_def)
  then show "finite (acts d c)" by (rule finite_subset) simp
  have "card (acts d c) \<le> card (?f ` {..<num_of_objs (wset d c)})" by (rule card_mono[OF _ s]) simp
  also have "\<dots> \<le> card {..<num_of_objs (wset d c)}" by (rule card_image_le) simp
  finally show "card (acts d c) \<le> num_of_objs (wset d c)" by simp
qed

subsection \<open>The heap a thread sees\<close>

definition lnode :: "rlu_mach \<Rightarrow> rlu_obj \<Rightarrow> rlu_node" where
  "lnode m x = (case obj_h x of
     CopyP p i o' \<Rightarrow> copy_node (buffer (obj_write_set (the (tds m p)) i) o') | _ \<Rightarrow> obj_node x)"

definition lheap :: "rlu_mach \<Rightarrow> nat \<Rightarrow> rlu_node option" where
  "lheap m a = map_option (lnode m) (objs m a)"

text \<open>Copies written back, locks dropped, and objects freed.\<close>

definition flush :: "nat set \<Rightarrow> rlu_mach \<Rightarrow> rlu_mach" where
  "flush A m = m\<lparr>objs := \<lambda>a. if a \<in> A
     then map_option (\<lambda>x. \<lparr>obj_h = NullP, obj_node = lnode m x\<rparr>) (objs m a) else objs m a\<rparr>"

definition unlocked :: "nat set \<Rightarrow> rlu_mach \<Rightarrow> rlu_mach" where
  "unlocked A m = m\<lparr>objs := \<lambda>a. if a \<in> A then map_option (\<lambda>x. x\<lparr>obj_h := NullP\<rparr>) (objs m a) else objs m a\<rparr>"

definition freed :: "nat set \<Rightarrow> rlu_mach \<Rightarrow> rlu_mach" where
  "freed A m = m\<lparr>objs := objs m |` (- A), r_live := filter (\<lambda>a. a \<notin> A) (r_live m)\<rparr>"

lemma flush_proj [simp]:
  "tds (flush A m) = tds m" "rlists (flush A m) = rlists m" "r_hash_list (flush A m) = r_hash_list m"
  "g_rlu_cur_threads (flush A m) = g_rlu_cur_threads m" "g_rlu_threads (flush A m) = g_rlu_threads m"
  "r_live (flush A m) = r_live m" "r_alloc (flush A m) = r_alloc m" "r_cnt (flush A m) = r_cnt m"
  by (simp_all add: flush_def)

lemma unlocked_proj [simp]:
  "tds (unlocked A m) = tds m" "rlists (unlocked A m) = rlists m" "r_hash_list (unlocked A m) = r_hash_list m"
  "g_rlu_cur_threads (unlocked A m) = g_rlu_cur_threads m" "g_rlu_threads (unlocked A m) = g_rlu_threads m"
  "r_live (unlocked A m) = r_live m" "r_alloc (unlocked A m) = r_alloc m" "r_cnt (unlocked A m) = r_cnt m"
  by (simp_all add: unlocked_def)

lemma freed_proj [simp]:
  "tds (freed A m) = tds m" "rlists (freed A m) = rlists m" "r_hash_list (freed A m) = r_hash_list m"
  "g_rlu_cur_threads (freed A m) = g_rlu_cur_threads m" "g_rlu_threads (freed A m) = g_rlu_threads m"
  "r_alloc (freed A m) = r_alloc m" "r_cnt (freed A m) = r_cnt m"
  "objs (freed A m) = objs m |` (- A)" "r_live (freed A m) = filter (\<lambda>a. a \<notin> A) (r_live m)"
  by (simp_all add: freed_def)

lemma lnode_free [simp]: "obj_h x = NullP \<Longrightarrow> lnode m x = obj_node x"
  by (simp add: lnode_def)

lemma lnode_tds: "tds m' = tds m \<Longrightarrow> lnode m' = lnode m"
  by (simp add: lnode_def fun_eq_iff cong: addr.case_cong)

lemma objs_flush: "objs (flush A m) a = (if a \<in> A
     then map_option (\<lambda>x. \<lparr>obj_h = NullP, obj_node = lnode m x\<rparr>) (objs m a) else objs m a)"
  by (simp add: flush_def)

lemma objs_unlocked: "objs (unlocked A m) a = (if a \<in> A then map_option (\<lambda>x. x\<lparr>obj_h := NullP\<rparr>) (objs m a) else objs m a)"
  by (simp add: unlocked_def)

lemma lheap_flush [simp]: "lheap (flush A m) = lheap m"
proof
  fix a
  have l: "lnode (flush A m) = lnode m" by (rule lnode_tds) simp
  show "lheap (flush A m) a = lheap m a"
    unfolding lheap_def l objs_flush by (simp add: option.map_comp comp_def)
qed

lemma flush_flush: "flush A (flush B m) = flush (B \<union> A) m"
proof -
  have l: "lnode (flush B m) = lnode m" by (rule lnode_tds) simp
  have "objs (flush A (flush B m)) a = objs (flush (B \<union> A) m) a" for a
    unfolding objs_flush l by (simp add: option.map_comp comp_def)
  then have "objs (flush A (flush B m)) = objs (flush (B \<union> A) m)" ..
  then show ?thesis by (simp add: flush_def)
qed

lemma flush_empty [simp]: "flush {} m = m"
  by (simp add: flush_def)

lemma unlocked_unlocked: "unlocked A (unlocked B m) = unlocked (B \<union> A) m"
  by (simp add: unlocked_def fun_eq_iff option.map_comp comp_def)

lemma unlocked_empty [simp]: "unlocked {} m = m"
  by (simp add: unlocked_def)

subsection \<open>Copying between the heap and a buffer\<close>

lemma node_copied [simp]: "(y :: rlu_node)\<lparr>nval := nval z, nnext := nnext z\<rparr> = z"
  by (cases y; cases z) simp

lemma obj_both [simp]: "(x :: rlu_obj)\<lparr>obj_node := y, obj_h := q\<rparr> = \<lparr>obj_h = q, obj_node = y\<rparr>"
  by (cases x) simp

lemma set_ent_comp [simp]: "set_ent o' f \<circ> set_ent o' f' = set_ent o' (f \<circ> f')"
  by (simp add: set_ent_def fun_eq_iff)

lemma runs_memcpy_out:
  assumes "tds m s = Some d" "objs m a = Some x" "k < 93"
  shows "runs t (memcpy (ObjP a) (CopyP s (ring c) (off k)) sizeof_node) m Q =
    Q () (set_obj a (x\<lparr>obj_node := copy_node (entry d c k)\<rparr>) m)"
  using assms off_fits[of k] by (simp add: memcpy_def RLU_MAX_WRITE_SETS_def)

lemma runs_memcpy_in:
  assumes "tds m s = Some d" "objs m a = Some x" "k < 93"
  shows "runs t (memcpy (CopyP s (ring c) (off k)) (ObjP a) sizeof_node) m Q =
    Q () (set_td s (set_ws (int (ring c)) (set_ent (off k) (\<lambda>e. e\<lparr>copy_node := obj_node x\<rparr>)) d) m)"
  using assms off_fits[of k] by (simp add: memcpy_def RLU_MAX_WRITE_SETS_def) (simp add: comp_def)

subsection \<open>Writing back\<close>

lemma entry_ok_flush:
  assumes "entry_ok s d m c k" "\<And>a. a \<in> A \<Longrightarrow> p_obj_actual (entry d c k) \<noteq> ObjP a"
  shows "entry_ok s d (flush A m) c k"
  using assms by (fastforce simp: entry_ok_def objs_flush)

lemma acts_of_first:
  "p_obj_actual (entry d c j) = ObjP a \<Longrightarrow> acts_of d c {j..<j + Suc n} = {a} \<union> acts_of d c {Suc j..<Suc j + n}"
proof -
  assume a: "p_obj_actual (entry d c j) = ObjP a"
  have "{j..<j + Suc n} = insert j {Suc j..<Suc j + n}" by auto
  then show ?thesis using a by (simp add: acts_of_def) blast
qed

lemma runs_writeback_objs:
  assumes "tds m s = Some d" "\<And>k. j \<le> k \<Longrightarrow> k < j + n \<Longrightarrow> entry_ok s d m c k" "j + n \<le> 90"
    and "Q (ent_at (j + n)) (flush (acts_of d c {j..<j + n}) m)"
  shows "runs t (writeback_objs s (int (ring c)) n (ent_at j)) m Q"
  using assms
proof (induction n arbitrary: j m)
  case 0
  then show ?case by (simp add: acts_of_def)
next
  case (Suc n)
  note d = Suc.prems(1)
  have ok: "entry_ok s d m c j" using Suc.prems(2) by simp
  then obtain a x where a: "p_obj_actual (entry d c j) = ObjP a" "objs m a = Some x" "obj_h x = CopyP s (ring c) (off j)"
    "copy_h (entry d c j) = PTR_ID_OBJ_COPY" "obj_size (entry d c j) = sizeof_node" "ws_thread_id (entry d c j) = uniq_id d"
    by (auto simp: entry_ok_def)
  have j: "j < 93" using Suc.prems(3) by simp
  have b: "off j \<le> RLU_MAX_WRITE_SET_BUFFER_SIZE" "int (ring c) < RLU_MAX_WRITE_SETS"
    using off_fits(2)[OF j] by (simp_all add: RLU_MAX_WRITE_SETS_def)
  have fl: "flush {a} m = set_obj a \<lparr>obj_h = NullP, obj_node = copy_node (entry d c j)\<rparr> m"
    using a(2,3) d by (auto simp: flush_def set_obj_def fun_eq_iff lnode_def)
  have actual: "p_obj_actual (entry d c k) \<noteq> ObjP a" if "k \<noteq> j" "entry_ok s d m c k" for k
    using that a(2,3) by (auto simp: entry_ok_def)
  have "runs t (writeback_objs s (int (ring c)) n (ent_at (Suc j))) (flush {a} m) Q"
  proof (rule Suc.IH)
    show "entry_ok s d (flush {a} m) c k" if "Suc j \<le> k" "k < Suc j + n" for k
      by (rule entry_ok_flush) (use that actual[of k] Suc.prems(2)[of k] in auto)
    have "acts_of d c {j..<j + Suc n} = {a} \<union> acts_of d c {Suc j..<Suc j + n}"
      by (rule acts_of_first[OF a(1)])
    then show "Q (ent_at (Suc j + n)) (flush (acts_of d c {Suc j..<Suc j + n}) (flush {a} m))"
      using Suc.prems(4) unfolding flush_flush by simp
  qed (use Suc.prems in simp_all)
  then show ?case
    using d a b j
    by (simp add: Let_def GET_THREAD_ID_def copy_ptr_def runs_memcpy_out[of m s d a x j] fl)
qed

lemma runs_writeback_write_set:
  assumes "tds m s = Some d" "ws_ok s d m c" "0 \<le> c"
  shows "runs t (rlu_writeback_write_set s c) m Q = Q () (flush (acts d c) m)"
proof -
  let ?n = "num_of_objs (wset d c)"
  have "runs t (writeback_objs s (int (ring c)) ?n (ent_at 0)) m (\<lambda>p m'. p = ent_at ?n \<and> m' = flush (acts d c) m)"
    by (rule runs_writeback_objs[OF assms(1)]) (use assms(2) in \<open>auto simp: ws_ok_def acts_def lessThan_atLeast0\<close>)
  then have "run t (writeback_objs s (int (ring c)) ?n 0) m = Returned (ent_at ?n) (flush (acts d c) m)"
    by (auto simp: runs_def)
  then show ?thesis
    using assms by (simp add: rlu_writeback_write_set_def Let_def runs_run ws_ok_def RLU_MAX_WRITE_SETS_def)
qed

subsection \<open>Unlocking\<close>

lemma runs_unlock_objs_loop:
  assumes "tds m s = Some d" "\<And>k. j \<le> k \<Longrightarrow> k < j + n \<Longrightarrow> entry_ok s d m c k" "j + n \<le> 90"
    and "Q () (unlocked (acts_of d c {j..<j + n}) m)"
  shows "runs t (unlock_objs_loop s (int (ring c)) n (ent_at j)) m Q"
  using assms
proof (induction n arbitrary: j m)
  case 0
  then show ?case by (simp add: acts_of_def)
next
  case (Suc n)
  note d = Suc.prems(1)
  have ok: "entry_ok s d m c j" using Suc.prems(2) by simp
  then obtain a x where a: "p_obj_actual (entry d c j) = ObjP a" "objs m a = Some x" "obj_h x = CopyP s (ring c) (off j)"
    "copy_h (entry d c j) = PTR_ID_OBJ_COPY" "obj_size (entry d c j) = sizeof_node"
    by (auto simp: entry_ok_def)
  have b: "off j \<le> RLU_MAX_WRITE_SET_BUFFER_SIZE" "int (ring c) < RLU_MAX_WRITE_SETS"
    using off_fits(2)[of j] Suc.prems(3) by (simp_all add: RLU_MAX_WRITE_SETS_def)
  have un: "unlocked {a} m = set_obj a (x\<lparr>obj_h := NullP\<rparr>) m"
    using a(2) by (auto simp: unlocked_def set_obj_def fun_eq_iff)
  have "entry_ok s d (unlocked {a} m) c k" if "k \<noteq> j" "entry_ok s d m c k" for k
  proof -
    obtain b y where b: "p_obj_actual (entry d c k) = ObjP b" "objs m b = Some y" "obj_h y = CopyP s (ring c) (off k)"
      using \<open>entry_ok s d m c k\<close> by (auto simp: entry_ok_def)
    then have "b \<noteq> a" using a(2,3) \<open>k \<noteq> j\<close> by auto
    then show ?thesis using \<open>entry_ok s d m c k\<close> b by (auto simp: entry_ok_def objs_unlocked)
  qed
  then have "runs t (unlock_objs_loop s (int (ring c)) n (ent_at (Suc j))) (unlocked {a} m) Q"
    by (intro Suc.IH)
      (use Suc.prems acts_of_first[OF a(1), of n] in \<open>simp_all add: unlocked_unlocked\<close>)
  then show ?case
    using d a b by (simp add: Let_def copy_ptr_def un)
qed

lemma runs_unlock_objs:
  assumes "tds m s = Some d" "ws_ok s d m c" "0 \<le> c"
  shows "runs t (rlu_unlock_objs s c) m Q = Q () (unlocked (acts d c) m)"
proof -
  let ?n = "num_of_objs (wset d c)"
  have "runs t (unlock_objs_loop s (int (ring c)) ?n (ent_at 0)) m (\<lambda>_ m'. m' = unlocked (acts d c) m)"
    by (rule runs_unlock_objs_loop[OF assms(1)]) (use assms(2) in \<open>auto simp: ws_ok_def acts_def lessThan_atLeast0\<close>)
  then have "run t (unlock_objs_loop s (int (ring c)) ?n 0) m = Returned () (unlocked (acts d c) m)"
    by (auto simp: runs_def)
  then show ?thesis
    using assms by (simp add: rlu_unlock_objs_def Let_def runs_run RLU_MAX_WRITE_SETS_def)
qed

subsection \<open>Write sets reset, objects freed, peers waited for\<close>

definition reset_ws :: "obj_list_t \<Rightarrow> obj_list_t" where
  "reset_ws w = w\<lparr>num_of_objs := 0, p_cur := 0, writer_locks := (writer_locks w)\<lparr>wl_size := 0\<rparr>\<rparr>"

definition resets :: "int set \<Rightarrow> rlu_thread_data \<Rightarrow> rlu_thread_data" where
  "resets C d = d\<lparr>obj_write_set := \<lambda>i. if i \<in> ring ` C then reset_ws (obj_write_set d i) else obj_write_set d i\<rparr>"

lemma resets_resets: "resets C (resets D d) = resets (D \<union> C) d"
proof -
  let ?f = "\<lambda>C w i. if i \<in> ring ` C then reset_ws (w i) else w i"
  have "?f C (?f D (obj_write_set d)) = ?f (D \<union> C) (obj_write_set d)"
    by (rule ext) (auto simp: reset_ws_def)
  then have "d\<lparr>obj_write_set := ?f C (?f D (obj_write_set d))\<rparr> = d\<lparr>obj_write_set := ?f (D \<union> C) (obj_write_set d)\<rparr>"
    by (rule arg_cong)
  moreover have "resets C (resets D d) = d\<lparr>obj_write_set := ?f C (?f D (obj_write_set d))\<rparr>"
    by (simp add: resets_def cong: if_cong)
  ultimately show ?thesis by (simp only: resets_def)
qed

lemma resets_empty [simp]: "resets {} d = d"
  by (simp add: resets_def)

lemma runs_reset_write_set:
  assumes "tds m s = Some d" "0 \<le> c"
  shows "runs t (rlu_reset_write_set s c) m Q = Q () (set_td s (resets {c} d) m)"
proof -
  have "resets {c} d = d\<lparr>obj_write_set := (obj_write_set d)(ring c := reset_ws (wset d c))\<rparr>"
    by (simp add: resets_def fun_upd_def cong: if_cong)
  then show ?thesis
    using assms by (simp add: rlu_reset_write_set_def rlu_reset_writer_locks_def Let_def RLU_MAX_WRITE_SETS_def
        set_ws_def reset_ws_def)
qed

lemma runs_reset_write_sets:
  assumes "tds m s = Some d" "\<forall>c \<in> set cs. 0 \<le> c"
  shows "runs t (for_each cs (rlu_reset_write_set s)) m Q = Q () (set_td s (resets (set cs) d) m)"
  using assms
proof (induction cs arbitrary: m d)
  case Nil
  then show ?case by (simp add: set_td_same)
next
  case (Cons c cs)
  then show ?case by (simp add: runs_reset_write_set resets_resets)
qed

lemma runs_writebacks:
  assumes "tds m s = Some d" "\<forall>c \<in> set cs. 0 \<le> c \<and> ws_ok s d m c" "distinct (map ring cs)"
  shows "runs t (for_each cs (rlu_writeback_write_set s)) m Q = Q () (flush (\<Union>c \<in> set cs. acts d c) m)"
  using assms
proof (induction cs arbitrary: m)
  case (Cons c cs)
  have "entry_ok s d (flush (acts d c) m) c' k"
    if "c' \<in> set cs" "k < num_of_objs (wset d c')" for c' k
  proof (rule entry_ok_flush)
    show e: "entry_ok s d m c' k" using Cons.prems(2) that by (auto simp: ws_ok_def)
    show "p_obj_actual (entry d c' k) \<noteq> ObjP a" if a: "a \<in> acts d c" for a
    proof
      assume "p_obj_actual (entry d c' k) = ObjP a"
      then obtain x where x: "objs m a = Some x" "obj_h x = CopyP s (ring c') (off k)" using e by (auto simp: entry_ok_def)
      obtain j where "j < num_of_objs (wset d c)" "p_obj_actual (entry d c j) = ObjP a"
        using a by (auto simp: acts_def acts_of_def)
      then have "obj_h x = CopyP s (ring c) (off j)"
        using Cons.prems(2) x(1) by (auto simp: ws_ok_def entry_ok_def)
      then have "ring c = ring c'" using x(2) by simp
      then show False using Cons.prems(3) \<open>c' \<in> set cs\<close> by auto
    qed
  qed
  then have "\<forall>c' \<in> set cs. 0 \<le> c' \<and> ws_ok s d (flush (acts d c) m) c'"
    using Cons.prems(2) by (auto simp: ws_ok_def)
  then show ?case
    using Cons by (simp add: runs_writeback_write_set flush_flush)
qed simp

end
