(* ===== verification/RluSync.thy ===== *)
theory RluSync
  imports RluLog
begin

text \<open>
  The synchronisation of a thread whose peers are outside their sections: nobody is waited for, the deferred
  write sets are written back, the older ones are reset and the pending objects are freed.
\<close>

subsection \<open>Quiescence\<close>

definition quiet_peers :: "nat \<Rightarrow> rlu_thread_data \<Rightarrow> rlu_mach \<Rightarrow> bool" where
  "quiet_peers s d m \<longleftrightarrow> g_rlu_cur_threads m \<le> RLU_MAX_THREADS \<and>
     (\<forall>i < g_rlu_cur_threads m. int i = uniq_id d \<or> g_rlu_threads m i = 0 \<or> g_rlu_threads m i = s \<or>
       (\<exists>e. tds m (g_rlu_threads m i) = Some e \<and> even (run_counter e)))"

lemma q_same [simp]: "d\<lparr>q_threads := q_threads d\<rparr> = d" "d\<lparr>n_writeback_q_iters := n_writeback_q_iters d\<rparr> = d"
  by (cases d; simp)+

lemma runs_q [simp]:
  "tds m s = Some d \<Longrightarrow> runs t (q_rd s i f) m Q \<longleftrightarrow> i < RLU_MAX_THREADS \<and> Q (f (q_threads d i)) m"
  "tds m s = Some d \<Longrightarrow> runs t (q_wr s i h) m Q' \<longleftrightarrow> i < RLU_MAX_THREADS \<and> Q' () (set_td s (set_q i h d) m)"
  by (auto simp: q_rd_def q_wr_def)

lemma runs_peer [simp]:
  "runs t (thread_at i) m Q \<longleftrightarrow> i < RLU_MAX_THREADS \<and> Q (g_rlu_threads m i) m"
  by (auto simp: thread_at_def)

lemma set_q_proj [simp]:
  "uniq_id (set_q i f d) = uniq_id d" "run_counter (set_q i f d) = run_counter d"
  "q_threads (set_q i f d) = (q_threads d)(i := f (q_threads d i))"
  by (simp_all add: set_q_def)

lemma set_q_eq: "set_q i f (d\<lparr>q_threads := q\<rparr>) = d\<lparr>q_threads := q(i := f (q i))\<rparr>"
  by (simp add: set_q_def)

lemma runs_init_q_entry:
  assumes "tds m s = Some d" "quiet_peers s d m" "even (run_counter d)" "i < g_rlu_cur_threads m"
    and Q: "\<And>w. is_wait w = 0 \<Longrightarrow> Q () (set_td s (d\<lparr>q_threads := (q_threads d)(i := w)\<rparr>) m)"
  shows "runs t (init_q_entry s i) m Q"
proof -
  let ?p = "g_rlu_threads m i"
  have i: "i < RLU_MAX_THREADS" using assms(2,4) by (simp add: quiet_peers_def)
  consider "int i = uniq_id d" | "?p = 0" | "?p = s" | e where "?p \<noteq> s" "tds m ?p = Some e" "even (run_counter e)"
  proof -
    have "int i = uniq_id d \<or> ?p = 0 \<or> ?p = s \<or> (\<exists>e. tds m ?p = Some e \<and> even (run_counter e))"
      using assms(2,4) by (simp add: quiet_peers_def)
    then show ?thesis using that by (cases "?p = s") auto
  qed
  then show ?thesis
  proof cases
    case 4
    then show ?thesis using assms(1) i Q by (simp add: init_q_entry_def peer_rd_def set_q_def)
  next
    case 3
    then show ?thesis using assms(1,3) i Q
      by (cases "s = 0") (simp_all add: init_q_entry_def peer_rd_def set_q_def)
  qed (use assms(1,3) i Q in \<open>simp_all add: init_q_entry_def peer_rd_def set_q_def\<close>)
qed

lemma quiet_peers_q: "tds m s = Some d \<Longrightarrow> quiet_peers s d m \<Longrightarrow>
    quiet_peers s (d\<lparr>q_threads := q\<rparr>) (set_td s (d\<lparr>q_threads := q\<rparr>) m)"
  by (fastforce simp: quiet_peers_def)

lemma runs_init_q_loop:
  assumes "tds m s = Some d" "quiet_peers s d m" "even (run_counter d)" "j \<le> g_rlu_cur_threads m"
    "g_rlu_cur_threads m - j < k" "\<forall>i < j. is_wait (q_threads d i) = 0"
    and "\<And>q. \<forall>i < g_rlu_cur_threads m. is_wait (q i) = 0 \<Longrightarrow> Q () (set_td s (d\<lparr>q_threads := q\<rparr>) m)"
  shows "runs t (init_q_loop s k j) m Q"
  using assms
proof (induction k arbitrary: j d m)
  case (Suc k)
  show ?case
  proof (cases "j < g_rlu_cur_threads m")
    case True
    have "runs t (init_q_entry s j) m (\<lambda>_ m'. runs t (init_q_loop s k (j + 1)) m' Q)"
    proof (rule runs_init_q_entry[OF Suc.prems(1-3) True])
      fix w :: wait_entry_t assume w: "is_wait w = 0"
      let ?d = "d\<lparr>q_threads := (q_threads d)(j := w)\<rparr>"
      show "runs t (init_q_loop s k (j + 1)) (set_td s ?d m) Q"
      proof (rule Suc.IH)
        show "quiet_peers s ?d (set_td s ?d m)" by (rule quiet_peers_q[OF Suc.prems(1,2)])
        show "\<forall>i < j + 1. is_wait (q_threads ?d i) = 0" using w Suc.prems(6) by (simp add: less_Suc_eq)
        show "Q () (set_td s (?d\<lparr>q_threads := q\<rparr>) (set_td s ?d m))"
          if "\<forall>i < g_rlu_cur_threads (set_td s ?d m). is_wait (q i) = 0" for q
          using Suc.prems(7)[of q] that by simp
      qed (use Suc.prems True in auto)
    qed
    then show ?thesis using True by simp
  next
    case False
    then have "j = g_rlu_cur_threads m" using Suc.prems(4) by simp
    then have "Q () (set_td s (d\<lparr>q_threads := q_threads d\<rparr>) m)" using Suc.prems(6,7) by blast
    then show ?thesis using False set_td_same[OF Suc.prems(1)] by simp
  qed
qed simp

lemma runs_wait_for_all:
  assumes "tds m s = Some d" "\<forall>i \<in> set is. i < RLU_MAX_THREADS \<and> is_wait (q_threads d i) = 0"
  shows "runs t (wait_for_all (Suc g) s v is n) m Q = Q n m"
  using assms by (induction "is") simp_all

lemma runs_synchronize:
  assumes "tds m s = Some d" "quiet_peers s d m" "even (run_counter d)"
    and Q: "\<And>q. Q () (set_td s (d\<lparr>q_threads := q\<rparr>) m)"
  shows "runs t (rlu_synchronize (Suc g) s) m Q"
proof (cases "is_no_quiescence d = 0")
  case True
  have N: "g_rlu_cur_threads m \<le> RLU_MAX_THREADS" using assms(2) by (simp add: quiet_peers_def)
  have "runs t (rlu_init_quiescence s) m (\<lambda>_ m'. \<exists>q. m' = set_td s (d\<lparr>q_threads := q\<rparr>) m \<and>
      (\<forall>i < g_rlu_cur_threads m. is_wait (q i) = 0))"
    unfolding rlu_init_quiescence_def
    by (rule runs_init_q_loop[OF assms(1-3)]) (use N in \<open>auto simp: RLU_MAX_THREADS_def\<close>)
  then have "runs t (rlu_init_quiescence s) m (\<lambda>_ m'. runs t (td_rd s writer_version) m' (\<lambda>v m'.
      runs t (rlu_wait_for_quiescence (Suc g) s v) m' (\<lambda>k m'.
      runs t (td_wr s (\<lambda>d. d\<lparr>n_writeback_q_iters := n_writeback_q_iters d + k\<rparr>)) m' Q)))"
  proof (rule runs_mono, elim exE conjE, hypsubst)
    fix q :: "nat \<Rightarrow> wait_entry_t" assume q: "\<forall>i < g_rlu_cur_threads m. is_wait (q i) = 0"
    have w: "runs t (wait_for_all (Suc g) s v [0..<g_rlu_cur_threads m] 0) (set_td s (d\<lparr>q_threads := q\<rparr>) m) P =
        P 0 (set_td s (d\<lparr>q_threads := q\<rparr>) m)" for v P
      by (rule runs_wait_for_all) (use q N in auto)
    have "(d\<lparr>q_threads := q, n_writeback_q_iters := n_writeback_q_iters d\<rparr>) = d\<lparr>q_threads := q\<rparr>" by (cases d) simp
    then show "runs t (td_rd s writer_version) (set_td s (d\<lparr>q_threads := q\<rparr>) m) (\<lambda>v m'.
      runs t (rlu_wait_for_quiescence (Suc g) s v) m' (\<lambda>k m'.
      runs t (td_wr s (\<lambda>d. d\<lparr>n_writeback_q_iters := n_writeback_q_iters d + k\<rparr>)) m' Q))"
      using Q[of q] by (simp add: rlu_wait_for_quiescence_def w)
  qed
  then show ?thesis using assms(1) True by (simp add: rlu_synchronize_def)
next
  case False
  then show ?thesis using assms(1) Q[of "q_threads d"] by (simp add: rlu_synchronize_def set_td_same)
qed

subsection \<open>Deferred frees\<close>

lemma freed_freed: "freed A (freed B m) = freed (B \<union> A) m"
proof -
  have "objs m |` (- B) |` (- A) = objs m |` (- (B \<union> A))" by (auto simp: restrict_map_def)
  then show ?thesis by (simp add: freed_def conj_commute)
qed

lemma restrict_UNIV [simp]: "f |` UNIV = f"
  by (simp add: restrict_map_def)

lemma freed_empty [simp]: "freed {} m = m"
  by (simp add: freed_def)

lemma runs_free_loop:
  assumes "tds m s = Some d" "\<forall>i \<in> set is. i < RLU_MAX_FREE_NODES" "map (free_nodes d) is = map ObjP as" "distinct as"
    and "\<forall>a \<in> set as. \<exists>x. objs m a = Some x \<and> obj_h x = NullP"
  shows "runs t (for_each is (\<lambda>i.
      bind (if i < RLU_MAX_FREE_NODES then td_rd s (\<lambda>d. free_nodes d i) else Fault) (\<lambda>p_obj.
      bind (GET_COPY p_obj) (\<lambda>c. bind (rlu_assert (c = NullP)) (\<lambda>_. obj_free p_obj))))) m Q =
    Q () (freed (set as) m)"
  using assms
proof (induction "is" arbitrary: m as)
  case (Cons i "is")
  obtain a as' where as: "as = a # as'" "free_nodes d i = ObjP a" using Cons.prems(3) by (cases as) auto
  obtain x where x: "objs m a = Some x" "obj_h x = NullP" using Cons.prems(5) as(1) by auto
  have f: "m\<lparr>objs := (objs m)(a := None), r_live := removeAll a (r_live m)\<rparr> = freed {a} m"
    by (simp add: freed_def removeAll_filter_not_eq restrict_map_def fun_upd_def fun_eq_iff eq_commute cong: if_cong)
  have "runs t (obj_free (ObjP a)) m P = P () (freed {a} m)" for P
    using x by (simp add: runs_atomic f)
  moreover have "\<forall>b \<in> set as'. \<exists>x. objs (freed {a} m) b = Some x \<and> obj_h x = NullP"
    using Cons.prems(4,5) as(1) by (auto simp: restrict_map_def)
  ultimately show ?case
    using Cons.IH[of "freed {a} m" as'] Cons.prems x as by (simp add: freed_freed del: obj_free.simps)
qed simp

lemma runs_process_free:
  assumes "tds m s = Some d" "free_nodes_size d \<le> RLU_MAX_FREE_NODES"
    and "map (free_nodes d) [0..<free_nodes_size d] = map ObjP as" "distinct as"
    and "\<forall>a \<in> set as. \<exists>x. objs m a = Some x \<and> obj_h x = NullP"
  shows "runs t (rlu_process_free s) m Q = Q () (set_td s (d\<lparr>free_nodes_size := 0\<rparr>) (freed (set as) m))"
  using assms runs_free_loop[OF assms(1) _ assms(3-5)]
  by (simp add: rlu_process_free_def)

subsection \<open>Writing back\<close>

definition pending :: "rlu_thread_data \<Rightarrow> nat set" where
  "pending d = (\<Union>c \<in> {ws_wb_counter d..<ws_tail_counter d}. acts d c)"

text \<open>What a synchronisation makes of the record and of the machine.\<close>

definition synced :: "nat \<Rightarrow> nat set \<Rightarrow> rlu_thread_data \<Rightarrow> rlu_mach \<Rightarrow> rlu_thread_data \<Rightarrow> rlu_mach \<Rightarrow> bool" where
  "synced s A d m d' m' \<longleftrightarrow>
     tds m' = (tds m)(s := Some d') \<and> objs m' = objs (flush (pending d) m) |` (- A) \<and>
     r_live m' = filter (\<lambda>a. a \<notin> A) (r_live m) \<and> rlists m' = rlists m \<and> r_hash_list m' = r_hash_list m \<and>
     g_rlu_cur_threads m' = g_rlu_cur_threads m \<and> g_rlu_threads m' = g_rlu_threads m \<and> r_alloc m' = r_alloc m \<and>
     uniq_id d' = uniq_id d \<and> run_counter d' = run_counter d \<and> max_write_sets d' = max_write_sets d \<and>
     ws_cur_id d' = ws_cur_id d \<and> ws_tail_counter d' = ws_tail_counter d \<and> is_write_detected d' = is_write_detected d \<and>
     is_check_locks d' = is_check_locks d \<and> rlu_type d' = rlu_type d \<and>
     ws_head_counter d' = ws_wb_counter d \<and> ws_wb_counter d' = ws_tail_counter d \<and> is_sync d' = 0 \<and>
     free_nodes_size d' = 0 \<and>
     obj_write_set d' = obj_write_set (resets {ws_head_counter d..<ws_wb_counter d} d)"

lemma distinct_rings:
  assumes "j - i \<le> 200"
  shows "distinct (map ring [i..j - 1])"
proof -
  have "inj_on ring {i..j - 1}"
  proof (rule inj_onI)
    fix x y assume "x \<in> {i..j - 1}" "y \<in> {i..j - 1}" "ring x = ring y"
    then show "x = y" using assms by (intro ring_inj) auto
  qed
  then show ?thesis by (simp add: distinct_map)
qed

lemma resets_proj [simp]:
  "uniq_id (resets C d) = uniq_id d" "run_counter (resets C d) = run_counter d" "max_write_sets (resets C d) = max_write_sets d"
  "ws_head_counter (resets C d) = ws_head_counter d" "ws_wb_counter (resets C d) = ws_wb_counter d"
  "ws_tail_counter (resets C d) = ws_tail_counter d" "ws_cur_id (resets C d) = ws_cur_id d" "is_sync (resets C d) = is_sync d"
  "is_write_detected (resets C d) = is_write_detected d" "is_check_locks (resets C d) = is_check_locks d"
  "rlu_type (resets C d) = rlu_type d" "free_nodes_size (resets C d) = free_nodes_size d" "free_nodes (resets C d) = free_nodes d"
  "buffer (obj_write_set (resets C d) i) = buffer (obj_write_set d i)"
  by (simp_all add: resets_def reset_ws_def)

lemma wset_resets: "ring c \<notin> ring ` C \<Longrightarrow> wset (resets C d) c = wset d c"
  by (simp add: resets_def)

lemma flush_set_td:
  assumes "tds m s = Some d" "\<And>i. buffer (obj_write_set d' i) = buffer (obj_write_set d i)"
  shows "flush A (set_td s d' m) = set_td s d' (flush A m)"
proof -
  have "lnode (set_td s d' m) x = lnode m x" for x
    using assms by (cases "obj_h x") (auto simp: lnode_def)
  then show ?thesis by (simp add: flush_def set_td_def cong: if_cong)
qed

lemma ws_ok_cong:
  assumes "wset d' c = wset d c" "uniq_id d' = uniq_id d" "\<And>a. objs m' a = objs m a"
  shows "ws_ok s d' m' c = ws_ok s d m c" "acts d' c = acts d c"
  using assms by (simp_all add: ws_ok_def entry_ok_def acts_def acts_of_def)

lemma runs_writeback_all:
  assumes d: "tds m s = Some d"
    and c: "0 \<le> ws_head_counter d" "ws_head_counter d \<le> ws_wb_counter d" "ws_wb_counter d \<le> ws_tail_counter d"
      "ws_tail_counter d - ws_head_counter d \<le> 200"
    and ok: "\<And>c. ws_wb_counter d \<le> c \<Longrightarrow> c < ws_tail_counter d \<Longrightarrow> ws_ok s d m c"
  shows "runs t (rlu_writeback_write_sets_and_unlock s) m Q =
    Q (ws_tail_counter d - ws_wb_counter d) (set_td s ((resets {ws_head_counter d..<ws_wb_counter d} d)
      \<lparr>ws_head_counter := ws_wb_counter d, ws_wb_counter := ws_tail_counter d\<rparr>) (flush (pending d) m))"
proof -
  let ?h = "ws_head_counter d" and ?w = "ws_wb_counter d" and ?tl = "ws_tail_counter d"
  let ?d1 = "(resets {?h..<?w} d)\<lparr>ws_head_counter := ?w\<rparr>"
  let ?m1 = "set_td s ?d1 m"
  have s: "set [?h..?w - 1] = {?h..<?w}" "set [?w..?tl - 1] = {?w..<?tl}" by auto
  have w: "wset ?d1 x = wset d x" if "?w \<le> x" "x < ?tl" for x
  proof -
    have "ring x \<noteq> ring y" if "y \<in> {?h..<?w}" for y
    proof
      assume "ring x = ring y"
      then have "x = y" by (rule ring_inj) (use \<open>?w \<le> x\<close> \<open>x < ?tl\<close> that c in auto)
      then show False using \<open>?w \<le> x\<close> that by simp
    qed
    then have "ring x \<notin> ring ` {?h..<?w}" by blast
    then show ?thesis using wset_resets[of x "{?h..<?w}" d] by simp
  qed
  have "\<forall>x \<in> set [?w..?tl - 1]. 0 \<le> x \<and> ws_ok s ?d1 ?m1 x"
    using c ok ws_ok_cong(1)[OF w, of _ ?m1 m s] unfolding s by simp
  moreover have "distinct (map ring [?w..?tl - 1])" by (rule distinct_rings) (use c in simp)
  ultimately have wb: "runs t (for_each [?w..?tl - 1] (rlu_writeback_write_set s)) ?m1 P =
      P () (flush (\<Union>x \<in> {?w..<?tl}. acts ?d1 x) ?m1)" for P
    using runs_writebacks[of ?m1 s ?d1 "[?w..?tl - 1]"] unfolding s(2) by simp
  have "(\<Union>x \<in> {?w..<?tl}. acts ?d1 x) = pending d"
    using ws_ok_cong(2)[OF w, of _ m m] unfolding pending_def by simp
  moreover have "flush (pending d) ?m1 = set_td s ?d1 (flush (pending d) m)" by (rule flush_set_td[OF d]) simp
  moreover have "runs t (for_each [?h..?w - 1] (rlu_reset_write_set s)) m P = P () (set_td s (resets {?h..<?w} d) m)" for P
    using runs_reset_write_sets[OF d, of "[?h..?w - 1]"] c(1) unfolding s(1) by simp
  ultimately show ?thesis
    using d wb c(3) by (simp add: rlu_writeback_write_sets_and_unlock_def)
qed

text \<open>The globals that a synchronisation counts up play no part in what it does.\<close>

lemma versions_proj [simp]:
  "tds (m\<lparr>g_rlu_writer_version := v\<rparr>) = tds m" "objs (m\<lparr>g_rlu_writer_version := v\<rparr>) = objs m"
  "flush A (m\<lparr>g_rlu_writer_version := v\<rparr>) = (flush A m)\<lparr>g_rlu_writer_version := v\<rparr>"
  "freed A (m\<lparr>g_rlu_commit_version := v\<rparr>) = (freed A m)\<lparr>g_rlu_commit_version := v\<rparr>"
proof -
  have "lnode (m\<lparr>g_rlu_writer_version := v\<rparr>) = lnode m" by (rule lnode_tds) simp
  then show "flush A (m\<lparr>g_rlu_writer_version := v\<rparr>) = (flush A m)\<lparr>g_rlu_writer_version := v\<rparr>"
    by (simp add: flush_def cong: if_cong)
qed (simp_all add: freed_def)

lemma runs_sync:
  assumes d: "tds m s = Some d" "even (run_counter d)" "quiet_peers s d m"
    and c: "ws_tail_counter d \<noteq> ws_head_counter d" "0 \<le> ws_head_counter d" "ws_head_counter d \<le> ws_wb_counter d"
      "ws_wb_counter d \<le> ws_tail_counter d" "ws_tail_counter d - ws_head_counter d \<le> 200"
    and ok: "\<And>c. ws_wb_counter d \<le> c \<Longrightarrow> c < ws_tail_counter d \<Longrightarrow> ws_ok s d m c"
    and fr: "free_nodes_size d \<le> RLU_MAX_FREE_NODES" "map (free_nodes d) [0..<free_nodes_size d] = map ObjP as"
      "distinct as" "\<forall>a \<in> set as. \<exists>x. objs (flush (pending d) m) a = Some x \<and> obj_h x = NullP"
    and Q: "\<And>d' m'. synced s (set as) d m d' m' \<Longrightarrow> Q () m'"
  shows "runs t (rlu_sync_and_writeback (Suc g) s) m Q"
proof -
  let ?d1 = "d\<lparr>n_sync_and_writeback := n_sync_and_writeback d + 1, writer_version := g_rlu_writer_version m + 1\<rparr>"
  let ?m1 = "(set_td s ?d1 m)\<lparr>g_rlu_writer_version := g_rlu_writer_version m + 1\<rparr>"
  have q1: "quiet_peers s ?d1 ?m1" using d by (fastforce simp: quiet_peers_def)
  have "runs t (rlu_synchronize (Suc g) s) ?m1 (\<lambda>_ m'. runs t (rlu_writeback_write_sets_and_unlock s) m' (\<lambda>n m'.
      ws_tail_counter d - ws_wb_counter d = n \<and> runs t (td_wr s (\<lambda>d. d\<lparr>writer_version := MAX_VERSION\<rparr>)) m' (\<lambda>_ m'.
      runs t (td_rd s is_sync) (m'\<lparr>g_rlu_commit_version := g_rlu_commit_version m' + 1\<rparr>) (\<lambda>y m'.
      runs t (if y \<noteq> 0 then td_wr s (\<lambda>d. d\<lparr>is_sync := 0\<rparr>) else Ret ()) m' (\<lambda>_ m'.
      runs t (rlu_process_free s) m' Q)))))"
  proof (rule runs_synchronize[OF _ q1])
    show "tds ?m1 s = Some ?d1" "even (run_counter ?d1)" using d by simp_all
    fix q
    let ?d2 = "?d1\<lparr>q_threads := q\<rparr>"
    let ?m2 = "set_td s ?d2 ?m1"
    let ?d3 = "(resets {ws_head_counter d..<ws_wb_counter d} ?d2)
      \<lparr>ws_head_counter := ws_wb_counter d, ws_wb_counter := ws_tail_counter d\<rparr>"
    have p: "pending ?d2 = pending d" by (simp add: pending_def acts_def acts_of_def)
    have ok2: "ws_ok s ?d2 ?m2 c" if "ws_wb_counter ?d2 \<le> c" "c < ws_tail_counter ?d2" for c
      using ok[of c] that by (simp add: ws_ok_def entry_ok_def)
    have fl: "flush (pending d) ?m2 = set_td s ?d2 ((flush (pending d) m)\<lparr>g_rlu_writer_version := g_rlu_writer_version m + 1\<rparr>)"
    proof -
      have "flush (pending d) ?m2 = set_td s ?d2 (flush (pending d) ?m1)"
        by (rule flush_set_td[of ?m1 s ?d1]) simp_all
      also have "\<dots> = set_td s ?d2 ((set_td s ?d1 (flush (pending d) m))\<lparr>g_rlu_writer_version := g_rlu_writer_version m + 1\<rparr>)"
        by (simp add: flush_set_td[OF d(1)])
      finally show ?thesis by (simp add: set_td_def)
    qed
    have wb: "runs t (rlu_writeback_write_sets_and_unlock s) ?m2 P =
      P (ws_tail_counter d - ws_wb_counter d) (set_td s ?d3
        ((flush (pending d) m)\<lparr>g_rlu_writer_version := g_rlu_writer_version m + 1\<rparr>))" for P
      using runs_writeback_all[of ?m2 s ?d2 t P] c ok2 unfolding p fl by simp
    have pf: "runs t (rlu_process_free s) m4 Q"
      if "tds m4 = (tds m)(s := Some (the (tds m4 s)))"
        "uniq_id (the (tds m4 s)) = uniq_id d" "run_counter (the (tds m4 s)) = run_counter d"
        "max_write_sets (the (tds m4 s)) = max_write_sets d" "ws_cur_id (the (tds m4 s)) = ws_cur_id d"
        "ws_tail_counter (the (tds m4 s)) = ws_tail_counter d" "is_write_detected (the (tds m4 s)) = is_write_detected d"
        "is_check_locks (the (tds m4 s)) = is_check_locks d" "rlu_type (the (tds m4 s)) = rlu_type d"
        "ws_head_counter (the (tds m4 s)) = ws_wb_counter d" "ws_wb_counter (the (tds m4 s)) = ws_tail_counter d"
        "is_sync (the (tds m4 s)) = 0"
        "obj_write_set (the (tds m4 s)) = obj_write_set (resets {ws_head_counter d..<ws_wb_counter d} d)"
        "free_nodes_size (the (tds m4 s)) = free_nodes_size d" "free_nodes (the (tds m4 s)) = free_nodes d"
        "objs m4 = objs (flush (pending d) m)" "r_live m4 = r_live m" "rlists m4 = rlists m"
        "r_hash_list m4 = r_hash_list m" "g_rlu_cur_threads m4 = g_rlu_cur_threads m"
        "g_rlu_threads m4 = g_rlu_threads m" "r_alloc m4 = r_alloc m" for m4
    proof -
      have d4: "tds m4 s = Some (the (tds m4 s))" using fun_cong[OF that(1), of s] by simp
      let ?d4 = "the (tds m4 s)"
      have "runs t (rlu_process_free s) m4 Q = Q () (set_td s (?d4\<lparr>free_nodes_size := 0\<rparr>) (freed (set as) m4))"
        by (rule runs_process_free) (use d4 that fr in simp_all)
      moreover have "tds (set_td s (?d4\<lparr>free_nodes_size := 0\<rparr>) (freed (set as) m4)) =
          (tds m)(s := Some (?d4\<lparr>free_nodes_size := 0\<rparr>))"
        by (simp, subst that(1), simp)
      ultimately show ?thesis using Q[of "?d4\<lparr>free_nodes_size := 0\<rparr>"] that(2-) by (simp add: synced_def)
    qed
    show "runs t (rlu_writeback_write_sets_and_unlock s) ?m2 (\<lambda>n m'.
      ws_tail_counter d - ws_wb_counter d = n \<and> runs t (td_wr s (\<lambda>d. d\<lparr>writer_version := MAX_VERSION\<rparr>)) m' (\<lambda>_ m'.
      runs t (td_rd s is_sync) (m'\<lparr>g_rlu_commit_version := g_rlu_commit_version m' + 1\<rparr>) (\<lambda>y m'.
      runs t (if y \<noteq> 0 then td_wr s (\<lambda>d. d\<lparr>is_sync := 0\<rparr>) else Ret ()) m' (\<lambda>_ m'.
      runs t (rlu_process_free s) m' Q))))"
      unfolding wb by (simp, intro conjI impI pf) (simp_all add: resets_def cong: if_cong)
  qed
  then show ?thesis using d(1,2) c(1) by (simp add: rlu_sync_and_writeback_def)
qed

end
