(* ===== verification/RluClient.thy ===== *)
theory RluClient
  imports RluRun Client
begin

text \<open>
  The interface between the lists of rlu-hash-list.c and the engine of rlu.c, for a thread whose peers are
  outside their sections, and the lists over it. The locale \<open>rlu_engine\<close> states what the calls of the engine
  do to the thread's view: the heap of objects as the thread sees it, the objects whose writes
  are deferred, those it has locked in this section and those waiting to be freed.
\<close>

subsection \<open>The view of a thread\<close>

record rlu_view =
  vheap :: "nat \<Rightarrow> rlu_node option"
  vpend :: "nat set"
  vmine :: "nat set"
  vfreed :: "nat set"
  vlists :: "ptr \<Rightarrow> addr option"
  vtable :: "hash_list_t option"
  must_sync :: bool
  vdirty :: bool

text \<open>A synchronisation writes the deferred copies back, which the thread does not see, and frees.\<close>

definition settle :: "rlu_view \<Rightarrow> rlu_view" where
  "settle V = V\<lparr>vheap := vheap V |` (- vfreed V), vpend := {}, vfreed := {}, must_sync := False, vdirty := False\<rparr>"

definition settled :: "rlu_view \<Rightarrow> rlu_view \<Rightarrow> bool" where
  "settled V V' \<longleftrightarrow> V' = V\<lparr>must_sync := False, vdirty := False\<rparr> \<or> V' = settle V"

lemma settledI [intro]: "settled V (settle V)" "settled V (V\<lparr>must_sync := False, vdirty := False\<rparr>)"
  by (simp_all add: settled_def)

subsection \<open>The contract of the engine\<close>

locale rlu_engine =
  fixes g self :: nat and t :: tid
    and rest sect :: "nat \<Rightarrow> rlu_view \<Rightarrow> rlu_mach \<Rightarrow> bool"
    and sees :: "rlu_mach \<Rightarrow> addr \<Rightarrow> nat \<Rightarrow> bool"
  assumes rest_less: "rest (Suc n) V m \<Longrightarrow> rest n V m"
    and rest_env: "rest n V m \<Longrightarrow> rlists m = vlists V \<and> r_hash_list m = vtable V"
    and sect_env: "sect n V m \<Longrightarrow> rlists m = vlists V \<and> r_hash_list m = vtable V"
    and enter: "rest n V m \<Longrightarrow>
      runs t (rlu_reader_lock g self) m (\<lambda>_ m'. \<exists>V'. settled V V' \<and> vmine V' = {} \<and> sect n V' m')"
    and read_val: "sect n V m \<Longrightarrow> sees m p a \<Longrightarrow> vheap V a = Some x \<Longrightarrow> run t (nd_rd p nval) m = Returned (nval x) m"
    and read_next: "sect n V m \<Longrightarrow> sees m p a \<Longrightarrow> vheap V a = Some x \<Longrightarrow> run t (nd_rd p nnext) m = Returned (nnext x) m"
    and deref: "sect n V m \<Longrightarrow> run t e m = Returned (ObjP a) m \<Longrightarrow> vheap V a = Some x \<Longrightarrow>
      runs t (RLU_DEREF self e) m (\<lambda>p m'. m' = m \<and> sees m p a)"
    and actual: "sect n V m \<Longrightarrow> sees m p a \<Longrightarrow> vheap V a = Some x \<Longrightarrow> run t (actual_of p) m = Returned (ObjP a) m"
    and lock_pending: "sect n V m \<Longrightarrow> sees m p a \<Longrightarrow> a \<in> vpend V \<Longrightarrow>
      runs t (rlu_try_lock self p sizeof_node) m (\<lambda>(r, q) m'. r = 0 \<and> sect n (V\<lparr>must_sync := True\<rparr>) m')"
    and lock_free: "sect n V m \<Longrightarrow> sees m p a \<Longrightarrow> vheap V a = Some x \<Longrightarrow> a \<notin> vpend V \<union> vmine V \<Longrightarrow>
      card (vmine V) < 90 \<Longrightarrow>
      runs t (rlu_try_lock self p sizeof_node) m (\<lambda>(r, q) m'. r = 1 \<and>
        sect n (V\<lparr>vmine := insert a (vmine V)\<rparr>) m' \<and> sees m' q a \<and> (\<forall>b p'. b \<noteq> a \<longrightarrow> sees m p' b \<longrightarrow> sees m' p' b))"
    and new_node: "sect n V m \<Longrightarrow>
      runs t rlu_new_node m (\<lambda>p m'. \<exists>a x. vheap V a = None \<and> sect n (V\<lparr>vheap := (vheap V)(a \<mapsto> x)\<rparr>) m' \<and>
        sees m' p a \<and> (\<forall>b p'. sees m p' b \<longrightarrow> sees m' p' b))"
    and write_node: "sect n V m \<Longrightarrow> sees m p a \<Longrightarrow> vheap V a = Some x \<Longrightarrow>
      runs t (nd_wr p f) m (\<lambda>_ m'. sect n (V\<lparr>vheap := (vheap V)(a \<mapsto> f x), vdirty := True\<rparr>) m' \<and>
        (\<forall>b p'. sees m p' b \<longrightarrow> sees m' p' b))"
    and free_node: "sect n V m \<Longrightarrow> sees m p a \<Longrightarrow> a \<in> vmine V \<Longrightarrow> a \<notin> vfreed V \<Longrightarrow> vdirty V \<Longrightarrow>
      runs t (rlu_free self p) m (\<lambda>_ m'. sect n (V\<lparr>vfreed := insert a (vfreed V)\<rparr>) m')"
    and leave: "sect (Suc n) V m \<Longrightarrow>
      runs t (rlu_reader_unlock g self) m (\<lambda>_ m'.
        \<exists>V'. settled (V\<lparr>vpend := vpend V \<union> vmine V, vmine := {}\<rparr>) V' \<and> rest n V' m')"
    and abandon: "sect n V m \<Longrightarrow> \<not> vdirty V \<Longrightarrow>
      runs t (rlu_abort g self) m (\<lambda>_ m'. \<exists>V'. settled (V\<lparr>vmine := {}\<rparr>) V' \<and> rest n V' m' \<and>
        (must_sync V \<longrightarrow> vpend V' = {}))"

subsection \<open>Sorted lists in a heap of nodes\<close>

text \<open>A list is the sequence of the addresses and values of its nodes.\<close>

fun rchain :: "(nat \<Rightarrow> rlu_node option) \<Rightarrow> (nat \<times> val_t) list \<Rightarrow> bool" where
  "rchain H [] \<longleftrightarrow> False"
| "rchain H [(a, v)] \<longleftrightarrow> H a = Some \<lparr>nval = v, nnext = NullP\<rparr>"
| "rchain H ((a, v) # (b, w) # L) \<longleftrightarrow> H a = Some \<lparr>nval = v, nnext = ObjP b\<rparr> \<and> rchain H ((b, w) # L)"

definition rkeys :: "(nat \<times> val_t) list \<Rightarrow> val_t set" where
  "rkeys L = {k \<in> snd ` set L. key_ok k}"

definition sorted_list :: "(nat \<times> val_t) list \<Rightarrow> bool" where
  "sorted_list L \<longleftrightarrow> sorted_wrt (<) (map snd L) \<and> distinct (map fst L) \<and> 2 \<le> length L \<and>
     snd (hd L) = LIST_VAL_MIN \<and> snd (last L) = LIST_VAL_MAX"

definition rlist :: "rlu_view \<Rightarrow> ptr \<Rightarrow> (nat \<times> val_t) list \<Rightarrow> bool" where
  "rlist V l L \<longleftrightarrow> vlists V l = Some (ObjP (fst (hd L))) \<and> rchain (vheap V) L \<and> sorted_list L"

lemma rchain_Cons:
  "L \<noteq> [] \<Longrightarrow> rchain H ((x, u) # L) \<longleftrightarrow> H x = Some \<lparr>nval = u, nnext = ObjP (fst (hd L))\<rparr> \<and> rchain H L"
  by (cases L) auto

lemma rchain_cong: "(\<And>a. a \<in> fst ` set L \<Longrightarrow> H a = H' a) \<Longrightarrow> rchain H L = rchain H' L"
  by (induction H L rule: rchain.induct) auto

lemma rchain_node: "rchain H L \<Longrightarrow> (a, v) \<in> set L \<Longrightarrow> \<exists>q. H a = Some \<lparr>nval = v, nnext = q\<rparr>"
  by (induction H L rule: rchain.induct) auto

lemma rchain_link: "rchain H (A @ (a, v) # (b, w) # B) \<Longrightarrow> H a = Some \<lparr>nval = v, nnext = ObjP b\<rparr>"
proof (induction A)
  case (Cons c A)
  then show ?case by (cases c; cases A) auto
qed simp

lemma rchain_insert:
  assumes "rchain H (A @ (a, v) # (b, w) # B)" "distinct (map fst (A @ (a, v) # (b, w) # B))"
    "c \<notin> fst ` set (A @ (a, v) # (b, w) # B)"
  shows "rchain (H(c \<mapsto> \<lparr>nval = k, nnext = ObjP b\<rparr>, a \<mapsto> \<lparr>nval = v, nnext = ObjP c\<rparr>))
    (A @ (a, v) # (c, k) # (b, w) # B)" (is "rchain ?H _")
  using assms
proof (induction A)
  case Nil
  then have "rchain H ((b, w) # B)" by simp
  moreover have "?H d = H d" if "d \<in> fst ` set ((b, w) # B)" for d using Nil that by auto
  ultimately have "rchain ?H ((b, w) # B)" using rchain_cong[of "(b, w) # B" ?H H] by blast
  then show ?case using Nil by (auto simp: fun_upd_def)
next
  case (Cons y A)
  then show ?case by (cases y) (auto simp: rchain_Cons hd_append)
qed

lemma rchain_delete:
  assumes "rchain H (A @ (a, v) # (b, w) # (c, x) # B)" "distinct (map fst (A @ (a, v) # (b, w) # (c, x) # B))"
  shows "rchain (H(a \<mapsto> \<lparr>nval = v, nnext = ObjP c\<rparr>)) (A @ (a, v) # (c, x) # B)" (is "rchain ?H _")
  using assms
proof (induction A)
  case Nil
  then have "rchain H ((c, x) # B)" by simp
  moreover have "?H d = H d" if "d \<in> fst ` set ((c, x) # B)" for d using Nil that by auto
  ultimately have "rchain ?H ((c, x) # B)" using rchain_cong[of "(c, x) # B" ?H H] by blast
  then show ?case using Nil by (auto simp: fun_upd_def)
next
  case (Cons y A)
  then show ?case by (cases y) (auto simp: rchain_Cons hd_append)
qed

text \<open>Values are 32 bits wide, so that no list is longer than the bound on walks.\<close>

lemma sorted_list_range:
  assumes "sorted_list L" "(a, v) \<in> set L"
  shows "LIST_VAL_MIN \<le> v \<and> v \<le> LIST_VAL_MAX"
proof -
  obtain b u M where L: "L = (b, u) # M" using assms(1) by (cases L) (auto simp: sorted_list_def)
  obtain M' c w where L': "L = M' @ [(c, w)]" using assms(1) by (cases L rule: rev_cases) (auto simp: sorted_list_def)
  have "u = LIST_VAL_MIN" "w = LIST_VAL_MAX" using assms(1) unfolding sorted_list_def
    by (metis L list.sel(1) snd_conv, metis L' last_snoc snd_conv)
  moreover have "u \<le> v" using assms unfolding L by (auto simp: sorted_list_def)
  moreover have "v \<le> w" using assms unfolding L' by (auto simp: sorted_list_def sorted_wrt_append)
  ultimately show ?thesis by simp
qed

lemma sorted_list_length:
  assumes "sorted_list L"
  shows "length L \<le> 2 ^ 32"
proof -
  have "distinct (map snd L)" using assms by (auto simp: sorted_list_def strict_sorted_iff)
  then have "card (snd ` set L) = length L" by (metis distinct_card length_map list.set_map)
  moreover have "snd ` set L \<subseteq> {LIST_VAL_MIN..LIST_VAL_MAX}" using sorted_list_range[OF assms] by auto
  then have "card (snd ` set L) \<le> card {LIST_VAL_MIN..LIST_VAL_MAX}" by (intro card_mono) simp_all
  ultimately show ?thesis by (simp add: LIST_VAL_MIN_def LIST_VAL_MAX_def)
qed

text \<open>The place of a key.\<close>

definition place :: "(nat \<times> val_t) list \<Rightarrow> val_t \<Rightarrow> (nat \<times> val_t) list \<Rightarrow> nat \<Rightarrow> val_t \<Rightarrow> nat \<Rightarrow> val_t \<Rightarrow>
    (nat \<times> val_t) list \<Rightarrow> bool" where
  "place L key A a v b w B \<longleftrightarrow> L = A @ (a, v) # (b, w) # B \<and> v < key \<and> key \<le> w"

lemma place_mem:
  assumes "sorted_list L" "place L key A a v b w B"
  shows "key \<in> snd ` set L \<longleftrightarrow> w = key"
proof -
  have "sorted_wrt (<) (map snd A @ v # w # map snd B)" using assms by (simp add: sorted_list_def place_def)
  then have "\<And>u. u \<in> snd ` set A \<Longrightarrow> u < v" "\<And>u. u \<in> snd ` set B \<Longrightarrow> w < u"
    by (auto simp: sorted_wrt_append)
  then show ?thesis using assms(2) by (fastforce simp: place_def)
qed

lemma place_insert:
  assumes "sorted_list L" "place L key A a v b w B" "w \<noteq> key" "c \<notin> fst ` set L" "key_ok key"
  shows "sorted_list (A @ (a, v) # (c, key) # (b, w) # B)"
    and "rkeys (A @ (a, v) # (c, key) # (b, w) # B) = insert key (rkeys L)"
proof -
  have L: "L = A @ (a, v) # (b, w) # B" "v < key" "key < w" using assms by (auto simp: place_def)
  have "sorted_wrt (<) (map snd A @ v # key # w # map snd B)"
    using assms(1) L unfolding sorted_list_def by (fastforce simp: sorted_wrt_append)
  moreover have "snd (hd (A @ (a, v) # (c, key) # (b, w) # B)) = snd (hd L)" by (cases A) (simp_all add: L)
  ultimately show "sorted_list (A @ (a, v) # (c, key) # (b, w) # B)"
    using assms(1,4) by (auto simp: sorted_list_def L(1) split: if_splits)
  show "rkeys (A @ (a, v) # (c, key) # (b, w) # B) = insert key (rkeys L)"
    using assms(5) by (auto simp: rkeys_def L(1))
qed

lemma place_delete:
  assumes "sorted_list L" "place L key A a v b key B" "key_ok key"
  obtains c x C where "B = (c, x) # C" "sorted_list (A @ (a, v) # B)" "rkeys (A @ (a, v) # B) = rkeys L - {key}"
proof -
  have L: "L = A @ (a, v) # (b, key) # B" using assms by (auto simp: place_def)
  obtain c x C where B: "B = (c, x) # C"
    using assms(1,3) unfolding L by (cases B) (auto simp: sorted_list_def key_ok_def)
  have s: "sorted_wrt (<) (map snd A @ v # key # map snd B)" using assms(1) by (simp add: sorted_list_def L)
  then have "\<And>u. u \<in> snd ` set A \<Longrightarrow> u < key" "v < key" "\<And>u. u \<in> snd ` set B \<Longrightarrow> key < u"
    by (auto simp: sorted_wrt_append)
  then have "key \<notin> snd ` set A" "key \<noteq> v" "key \<notin> snd ` set B" by blast+
  then have k: "rkeys (A @ (a, v) # B) = rkeys L - {key}" by (auto simp: rkeys_def L)
  have "snd (hd (A @ (a, v) # B)) = snd (hd L)" by (cases A) (simp_all add: L)
  then have "sorted_list (A @ (a, v) # B)"
    using assms(1) s by (auto simp: sorted_list_def L B sorted_wrt_append)
  from that[OF B this k] show ?thesis .
qed

end
