(* ===== verification/RluSections.thy ===== *)
theory RluSections
  imports RluSync RluClient
begin

text \<open>
  The invariant of a thread's log between calls and in a section, its view, and the proof that the engine keeps
  the contract \<open>rlu_engine\<close> when its peers are outside their sections.
\<close>

subsection \<open>The invariant\<close>

text \<open>
  \<open>n\<close> bounds the write sets still to come: the counters of \<open>rlu_abort\<close> are \<open>int\<close>s.
\<close>

definition ring_ok :: "nat \<Rightarrow> rlu_thread_data \<Rightarrow> bool" where
  "ring_ok n d \<longleftrightarrow> 0 \<le> ws_head_counter d \<and> ws_head_counter d \<le> ws_wb_counter d \<and>
     ws_wb_counter d \<le> ws_tail_counter d \<and> ws_tail_counter d - ws_wb_counter d \<le> max_write_sets d \<and>
     ws_wb_counter d - ws_head_counter d \<le> max_write_sets d \<and> 1 \<le> max_write_sets d \<and> max_write_sets d \<le> 100 \<and>
     ws_tail_counter d + int n < 2 ^ 31 \<and> ws_cur_id d = int (ring (ws_tail_counter d)) \<and>
     (\<forall>i < 200. wl_size (writer_locks (obj_write_set d i)) = 0) \<and>
     (\<forall>c. ws_tail_counter d < c \<and> c < ws_head_counter d + 200 \<longrightarrow> clean d c)"

definition frees_ok :: "rlu_thread_data \<Rightarrow> nat set \<Rightarrow> bool" where
  "frees_ok d F \<longleftrightarrow> (\<exists>as. map (free_nodes d) [0..<free_nodes_size d] = map ObjP as \<and> distinct as \<and> set as = F)"

definition alloc_ok :: "rlu_mach \<Rightarrow> bool" where
  "alloc_ok m \<longleftrightarrow> (\<forall>L k. r_alloc m L k \<notin> set L) \<and> (\<forall>a. objs m a \<noteq> None \<longrightarrow> a \<in> set (r_live m))"

definition view_of :: "rlu_thread_data \<Rightarrow> rlu_mach \<Rightarrow> rlu_view \<Rightarrow> bool" where
  "view_of d m V \<longleftrightarrow> vheap V = lheap m \<and> vpend V = pending d \<and> vlists V = rlists m \<and> vtable V = r_hash_list m \<and>
     (must_sync V \<longrightarrow> is_sync d \<noteq> 0) \<and> 0 \<le> is_sync d"

definition core :: "nat \<Rightarrow> nat \<Rightarrow> rlu_view \<Rightarrow> rlu_thread_data \<Rightarrow> rlu_mach \<Rightarrow> bool" where
  "core s n V d m \<longleftrightarrow> s \<noteq> 0 \<and> tds m s = Some d \<and> quiet_peers s d m \<and> ring_ok n d \<and> alloc_ok m \<and> view_of d m V \<and>
     (\<forall>c k. ws_wb_counter d \<le> c \<longrightarrow> c < ws_tail_counter d \<longrightarrow> ws_ok s d m c \<and>
       (k < num_of_objs (wset d c) \<longrightarrow> ws_run_counter (entry d c k) < run_counter d)) \<and>
     (\<forall>a x. objs m a = Some x \<longrightarrow> obj_h x = NullP \<or> a \<in> vpend V \<union> vmine V) \<and>
     frees_ok d (vfreed V) \<and> vfreed V \<subseteq> vpend V \<union> vmine V"

text \<open>Where a thread may synchronise, at rest, and in a section.\<close>

definition at_sync :: "nat \<Rightarrow> nat \<Rightarrow> rlu_view \<Rightarrow> rlu_thread_data \<Rightarrow> rlu_mach \<Rightarrow> bool" where
  "at_sync s n V d m \<longleftrightarrow> core s n V d m \<and> even (run_counter d) \<and> vmine V = {} \<and>
     (ws_tail_counter d < ws_head_counter d + 200 \<longrightarrow> clean d (ws_tail_counter d))"

definition rlu_rest :: "nat \<Rightarrow> nat \<Rightarrow> rlu_view \<Rightarrow> rlu_mach \<Rightarrow> bool" where
  "rlu_rest s n V m \<longleftrightarrow> (\<exists>d. at_sync s n V d m \<and> ws_tail_counter d - ws_wb_counter d < max_write_sets d)"

definition in_sect :: "nat \<Rightarrow> nat \<Rightarrow> rlu_view \<Rightarrow> rlu_thread_data \<Rightarrow> rlu_mach \<Rightarrow> bool" where
  "in_sect s n V d m \<longleftrightarrow> core s n V d m \<and> odd (run_counter d) \<and> ws_tail_counter d - ws_wb_counter d < max_write_sets d \<and>
     ws_ok s d m (ws_tail_counter d) \<and> vmine V = acts d (ws_tail_counter d) \<and>
     card (vmine V) = num_of_objs (wset d (ws_tail_counter d)) \<and>
     (\<forall>k < num_of_objs (wset d (ws_tail_counter d)). ws_run_counter (entry d (ws_tail_counter d) k) = run_counter d) \<and>
     (is_check_locks d = 0 \<longrightarrow> vpend V \<union> vmine V = {}) \<and>
     (is_write_detected d \<noteq> 0 \<longleftrightarrow> num_of_objs (wset d (ws_tail_counter d)) \<noteq> 0) \<and>
     (\<not> vdirty V \<longrightarrow> vfreed V \<subseteq> vpend V \<and> (\<forall>a \<in> vmine V. \<forall>x. objs m a = Some x \<longrightarrow> lnode m x = obj_node x))"

definition rlu_sect :: "nat \<Rightarrow> nat \<Rightarrow> rlu_view \<Rightarrow> rlu_mach \<Rightarrow> bool" where
  "rlu_sect s n V m \<longleftrightarrow> (\<exists>d. in_sect s n V d m)"

text \<open>The pointer of the thread to an object: the object itself, or the copy if it is locked.\<close>

definition rlu_sees :: "rlu_mach \<Rightarrow> addr \<Rightarrow> nat \<Rightarrow> bool" where
  "rlu_sees m p a \<longleftrightarrow> (\<exists>x. objs m a = Some x \<and> p = (if obj_h x = NullP then ObjP a else obj_h x))"

subsection \<open>Basic facts\<close>

lemma ringD:
  assumes "ring_ok n d"
  shows "0 \<le> ws_head_counter d" "ws_head_counter d \<le> ws_wb_counter d" "ws_wb_counter d \<le> ws_tail_counter d"
    "ws_tail_counter d - ws_wb_counter d \<le> max_write_sets d" "ws_wb_counter d - ws_head_counter d \<le> max_write_sets d"
    "1 \<le> max_write_sets d" "max_write_sets d \<le> 100" "ws_tail_counter d + int n < 2 ^ 31"
    "ws_cur_id d = int (ring (ws_tail_counter d))" "\<And>i. i < 200 \<Longrightarrow> wl_size (writer_locks (obj_write_set d i)) = 0"
    "\<And>c. ws_tail_counter d < c \<Longrightarrow> c < ws_head_counter d + 200 \<Longrightarrow> clean d c" "0 \<le> ws_tail_counter d"
  using assms unfolding ring_ok_def by (blast, blast, blast, blast, blast, blast, blast, blast, blast, blast, blast, linarith)

lemma coreD:
  assumes "core s n V d m"
  shows "tds m s = Some d" "quiet_peers s d m" "ring_ok n d" "alloc_ok m" "vheap V = lheap m" "vpend V = pending d"
    "vlists V = rlists m" "vtable V = r_hash_list m" "must_sync V \<Longrightarrow> is_sync d \<noteq> 0"
    "\<And>c. ws_wb_counter d \<le> c \<Longrightarrow> c < ws_tail_counter d \<Longrightarrow> ws_ok s d m c"
    "\<And>c k. ws_wb_counter d \<le> c \<Longrightarrow> c < ws_tail_counter d \<Longrightarrow> k < num_of_objs (wset d c) \<Longrightarrow>
      ws_run_counter (entry d c k) < run_counter d"
    "\<And>a x. objs m a = Some x \<Longrightarrow> obj_h x = NullP \<or> a \<in> vpend V \<union> vmine V"
    "frees_ok d (vfreed V)" "vfreed V \<subseteq> vpend V \<union> vmine V" "s \<noteq> 0" "0 \<le> is_sync d"
  using assms unfolding core_def view_of_def by blast+

lemmas ring_facts = ringD[OF coreD(3)]

text \<open>A locked object is locked by an entry of the log, deferred or of this section.\<close>

lemma acts_entry:
  assumes "a \<in> acts d c" "ws_ok s d m c"
  obtains k x where "k < num_of_objs (wset d c)" "p_obj_actual (entry d c k) = ObjP a" "objs m a = Some x"
    "obj_h x = CopyP s (ring c) (off k)" "entry_ok s d m c k" "k < 90"
  using assms by (fastforce simp: acts_def acts_of_def ws_ok_def entry_ok_def)

lemma pending_entry:
  assumes "a \<in> pending d" "core s n V d m"
  obtains c k x where "ws_wb_counter d \<le> c" "c < ws_tail_counter d" "k < num_of_objs (wset d c)"
    "p_obj_actual (entry d c k) = ObjP a" "objs m a = Some x" "obj_h x = CopyP s (ring c) (off k)"
    "entry_ok s d m c k" "k < 90" "ws_run_counter (entry d c k) < run_counter d"
proof -
  obtain c where c: "ws_wb_counter d \<le> c" "c < ws_tail_counter d" "a \<in> acts d c"
    using assms(1) by (auto simp: pending_def)
  have ok: "ws_ok s d m c" and rc: "\<And>k. k < num_of_objs (wset d c) \<Longrightarrow> ws_run_counter (entry d c k) < run_counter d"
    using coreD(10,11)[OF assms(2)] c(1,2) by blast+
  show ?thesis by (rule acts_entry[OF c(3) ok]) (use that c rc in blast)
qed

lemma pending_card:
  assumes "core s n V d m"
  shows "finite (pending d)" "card (pending d) \<le> 9000"
proof -
  let ?C = "{ws_wb_counter d..<ws_tail_counter d}"
  show "finite (pending d)" by (simp add: pending_def)
  have "card (pending d) \<le> (\<Sum>c \<in> ?C. card (acts d c))" unfolding pending_def by (rule card_UN_le) simp
  also have "\<dots> \<le> (\<Sum>c \<in> ?C. 90)"
  proof (rule sum_mono)
    fix c assume "c \<in> ?C"
    then have "ws_ok s d m c" using coreD(10)[OF assms] by simp
    then show "card (acts d c) \<le> 90" using acts_card[of d c] by (simp add: ws_ok_def)
  qed
  also have "\<dots> \<le> 9000" using ring_facts(4,7)[OF assms] by simp
  finally show "card (pending d) \<le> 9000" .
qed

lemma frees_bound:
  assumes "core s n V d m" "finite (vmine V)" "card (vmine V) \<le> 90"
  shows "free_nodes_size d \<le> 9090"
proof -
  obtain as where as: "length as = free_nodes_size d" "distinct as" "set as = vfreed V"
    using assms(1) unfolding core_def frees_ok_def by (metis length_map length_upt minus_nat.diff_0)
  have "vfreed V \<subseteq> pending d \<union> vmine V" using coreD(6,14)[OF assms(1)] by simp
  then have "card (vfreed V) \<le> card (pending d \<union> vmine V)"
    by (rule card_mono[rotated]) (simp add: pending_card(1)[OF assms(1)] assms(2))
  also have "\<dots> \<le> card (pending d) + card (vmine V)" by (rule card_Un_le)
  also have "\<dots> \<le> 9090" using pending_card(2)[OF assms(1)] assms(3) by simp
  finally show ?thesis using as distinct_card by metis
qed

text \<open>Fields of the record that the invariant does not mention may change.\<close>

definition same_core :: "rlu_thread_data \<Rightarrow> rlu_thread_data \<Rightarrow> bool" where
  "same_core d d' \<longleftrightarrow> uniq_id d' = uniq_id d \<and> max_write_sets d' = max_write_sets d \<and>
     ws_head_counter d' = ws_head_counter d \<and> ws_wb_counter d' = ws_wb_counter d \<and>
     ws_tail_counter d' = ws_tail_counter d \<and> ws_cur_id d' = ws_cur_id d \<and> obj_write_set d' = obj_write_set d \<and>
     free_nodes_size d' = free_nodes_size d \<and> free_nodes d' = free_nodes d \<and> run_counter d \<le> run_counter d'"

lemma lnode_set_td:
  assumes "tds m s = Some d" "\<And>i. buffer (obj_write_set d' i) = buffer (obj_write_set d i)"
  shows "lnode (set_td s d' m) = lnode m"
proof
  fix x show "lnode (set_td s d' m) x = lnode m x" using assms by (cases "obj_h x") (auto simp: lnode_def)
qed

lemma core_same:
  assumes "core s n V d m" "same_core d d'" "must_sync V' \<longrightarrow> is_sync d' \<noteq> 0" "0 \<le> is_sync d'"
    "vheap V' = vheap V" "vpend V' = vpend V" "vmine V' = vmine V" "vfreed V' = vfreed V" "vlists V' = vlists V"
    "vtable V' = vtable V"
  shows "core s n V' d' (set_td s d' m)"
proof -
  note c = assms(1)[unfolded core_def]
  have "lnode (set_td s d' m) = lnode m"
    by (rule lnode_set_td[OF coreD(1)[OF assms(1)]]) (use assms(2) in \<open>simp add: same_core_def\<close>)
  then have l: "lheap (set_td s d' m) = lheap m" by (simp add: lheap_def[abs_def])
  have p: "pending d' = pending d" using assms(2) by (simp add: pending_def acts_def acts_of_def same_core_def)
  have "quiet_peers s d' (set_td s d' m)" using c assms(2) by (fastforce simp: quiet_peers_def same_core_def)
  moreover have "ring_ok n d'" using c assms(2) by (simp add: ring_ok_def clean_def same_core_def)
  moreover have "alloc_ok (set_td s d' m)" using c by (simp add: alloc_ok_def)
  moreover have "view_of d' (set_td s d' m) V'" using c assms l p by (simp add: view_of_def)
  moreover have "ws_ok s d' (set_td s d' m) x = ws_ok s d m x" for x
    by (rule ws_ok_cong) (use assms(2) in \<open>simp_all add: same_core_def\<close>)
  moreover have "frees_ok d' F = frees_ok d F" for F using assms(2) by (simp add: frees_ok_def same_core_def)
  moreover have "ws_run_counter (entry d x k) < run_counter d'"
    if "ws_wb_counter d \<le> x" "x < ws_tail_counter d" "k < num_of_objs (wset d x)" for x k
    using coreD(11)[OF assms(1) that] assms(2) by (simp add: same_core_def)
  ultimately show ?thesis
    using c assms(2,5-10) unfolding core_def by (auto simp: same_core_def)
qed

subsection \<open>Synchronisation\<close>

lemma ring_shift: "ring (c - 200) = ring c"
  by (simp add: ring_def mod_diff_eq[symmetric])

lemma clean_resets: "clean d c \<or> ring c \<in> ring ` C \<Longrightarrow> clean (resets C d) c"
  by (auto simp: clean_def resets_def reset_ws_def)

lemma wl_resets: "wl_size (writer_locks (obj_write_set d i)) = 0 \<Longrightarrow>
    wl_size (writer_locks (obj_write_set (resets C d) i)) = 0"
  by (simp add: resets_def reset_ws_def)

lemma clean_cong: "obj_write_set d' = obj_write_set d \<Longrightarrow> clean d' c = clean d c"
  by (simp add: clean_def)

lemma synced_rest:
  assumes a: "at_sync s n V d m" and sy: "synced s (vfreed V) d m d' m'"
  shows "at_sync s n (settle V) d' m'"
proof -
  have c: "core s n V d m" and v: "vmine V = {}" and e: "even (run_counter d)"
    using a by (simp_all add: at_sync_def)
  note y = sy[unfolded synced_def]
  note r = ring_facts[OF c]
  let ?h = "ws_head_counter d" and ?w = "ws_wb_counter d" and ?tl = "ws_tail_counter d"
  have F: "vfreed V \<subseteq> pending d" using coreD(6,14)[OF c] v by simp
  have cl: "clean d' x" if "?tl \<le> x" "x < ?w + 200" for x
  proof -
    have "clean d x \<or> ring x \<in> ring ` {?h..<?w}"
    proof (cases "x < ?h + 200")
      case True
      then show ?thesis using a r(11)[of x] that by (cases "x = ?tl") (auto simp: at_sync_def)
    next
      case False
      then have "x - 200 \<in> {?h..<?w}" using that by simp
      then show ?thesis using ring_shift[of x] by (metis image_eqI)
    qed
    then have "clean (resets {?h..<?w} d) x" by (rule clean_resets)
    then show ?thesis using clean_cong[of d' "resets {?h..<?w} d" x] y by simp
  qed
  have free: "obj_h x = NullP \<and> lheap m b = Some (obj_node x)" if "objs m' b = Some x" for b x
  proof -
    have o: "objs (flush (pending d) m) b = Some x" using that y by (auto simp: restrict_map_def split: if_splits)
    show ?thesis
    proof (cases "b \<in> pending d")
      case True
      then show ?thesis using o by (auto simp: objs_flush lheap_def)
    next
      case False
      then have "objs m b = Some x" using o by (simp add: objs_flush)
      moreover have "obj_h x = NullP" using coreD(12)[OF c calculation] False coreD(6)[OF c] v by auto
      ultimately show ?thesis by (simp add: lheap_def)
    qed
  qed
  have heap: "lheap m' b = (lheap m |` (- vfreed V)) b" for b
  proof (cases "b \<in> vfreed V")
    case True
    then show ?thesis using y by (simp add: lheap_def)
  next
    case False
    then have o: "objs m' b = objs (flush (pending d) m) b" using y by (simp add: restrict_map_def)
    show ?thesis
    proof (cases "objs m' b")
      case None
      then have "objs m b = None" using o by (simp add: objs_flush split: if_splits)
      then show ?thesis using None False by (simp add: lheap_def restrict_map_def)
    next
      case (Some x)
      then show ?thesis using free[OF Some] False by (simp add: lheap_def[of m'] restrict_map_def)
    qed
  qed
  have p: "pending d' = {}" using y by (simp add: pending_def)
  have f: "max_write_sets d' = max_write_sets d" "ws_head_counter d' = ?w" "ws_wb_counter d' = ?tl"
    "ws_tail_counter d' = ?tl" "ws_cur_id d' = ws_cur_id d" "obj_write_set d' = obj_write_set (resets {?h..<?w} d)"
    using y by simp_all
  have "0 \<le> ?w" using r(1,2) by linarith
  moreover have "wl_size (writer_locks (obj_write_set d' i)) = 0" if "i < 200" for i
    unfolding f(6) using wl_resets r(10)[OF that] .
  moreover have "clean d' x" if "?tl < x" "x < ?w + 200" for x using cl that by simp
  ultimately have "ring_ok n d'"
    unfolding ring_ok_def f(1-5) using r(3-9) by simp
  moreover have "quiet_peers s d' m'" using coreD(2)[OF c] y by (fastforce simp: quiet_peers_def)
  moreover have "alloc_ok m'"
    using coreD(4)[OF c] y by (auto simp: alloc_ok_def restrict_map_def objs_flush split: if_splits)
  moreover have "lheap m' = lheap m |` (- vfreed V)" by (rule ext) (rule heap)
  then have "view_of d' m' (settle V)" using coreD(5,7,8)[OF c] y p by (simp add: view_of_def settle_def)
  moreover have "frees_ok d' {}" using y by (simp add: frees_ok_def)
  ultimately have "core s n (settle V) d' m'"
    using y v free coreD(15)[OF c] by (auto simp: core_def settle_def)
  moreover have "clean d' (ws_tail_counter d')" if "ws_tail_counter d' < ws_head_counter d' + 200"
    using cl[of ?tl] that y by simp
  ultimately show ?thesis using y e v by (simp add: at_sync_def settle_def)
qed

lemma sync_settles:
  assumes a: "at_sync s n V d m" and ne: "ws_tail_counter d \<noteq> ws_head_counter d"
  shows "runs t (rlu_sync_and_writeback (Suc g) s) m (\<lambda>_ m'. \<exists>d'. at_sync s n (settle V) d' m' \<and>
    ws_head_counter d' = ws_wb_counter d \<and> ws_wb_counter d' = ws_tail_counter d \<and>
    ws_tail_counter d' = ws_tail_counter d \<and> max_write_sets d' = max_write_sets d)"
proof -
  have c: "core s n V d m" and v: "vmine V = {}" and e: "even (run_counter d)"
    using a by (simp_all add: at_sync_def)
  note r = ring_facts[OF c]
  obtain as where as: "map (free_nodes d) [0..<free_nodes_size d] = map ObjP as" "distinct as" "set as = vfreed V"
    using coreD(13)[OF c] by (auto simp: frees_ok_def)
  have F: "vfreed V \<subseteq> pending d" using coreD(6,14)[OF c] v by simp
  have u: "\<exists>x. objs (flush (pending d) m) b = Some x \<and> obj_h x = NullP" if "b \<in> set as" for b
  proof -
    have b: "b \<in> pending d" using that F as(3) by blast
    show ?thesis by (rule pending_entry[OF b c]) (use b in \<open>auto simp: objs_flush\<close>)
  qed
  show ?thesis
  proof (rule runs_sync[OF coreD(1)[OF c] e coreD(2)[OF c] ne r(1-3) _ coreD(10)[OF c] _ as(1,2)])
    show "free_nodes_size d \<le> RLU_MAX_FREE_NODES"
      using frees_bound[OF c] v by (simp add: RLU_MAX_FREE_NODES_def)
    show "\<exists>d'. at_sync s n (settle V) d' m' \<and> ws_head_counter d' = ws_wb_counter d \<and>
        ws_wb_counter d' = ws_tail_counter d \<and> ws_tail_counter d' = ws_tail_counter d \<and>
        max_write_sets d' = max_write_sets d" if "synced s (set as) d m d' m'" for d' m'
      using synced_rest[OF a, of d' m'] that unfolding as(3) by (auto simp: synced_def)
  qed (use r u in auto)
qed

end
