(* ===== verification/RluContract.thy ===== *)
theory RluContract
  imports RluSections
begin

text \<open>
  The engine keeps the contract \<open>rlu_engine\<close>: the entry and exit of a section, its abort, and the accesses and
  locks in it.
\<close>

subsection \<open>Checkpoints\<close>

lemma at_sync_same:
  assumes "at_sync s n V d m" "same_core d d'" "must_sync V' \<longrightarrow> is_sync d' \<noteq> 0" "0 \<le> is_sync d'" "even (run_counter d')"
    "vheap V' = vheap V" "vpend V' = vpend V" "vmine V' = vmine V" "vfreed V' = vfreed V" "vlists V' = vlists V"
    "vtable V' = vtable V"
  shows "at_sync s n V' d' (set_td s d' m)"
  using assms core_same[of s n V d m d' V'] clean_cong[of d' d] by (simp add: at_sync_def same_core_def)

lemma settle_settled: "settled (settle V) V' \<Longrightarrow> settled V V'"
  by (auto simp: settled_def settle_def)

lemma checkpoint:
  assumes a: "at_sync s n V d m" and l: "ws_tail_counter d - ws_wb_counter d < max_write_sets d"
  shows "runs t (rlu_sync_checkpoint (Suc g) s) m (\<lambda>_ m'. \<exists>V'. settled V V' \<and> rlu_rest s n V' m' \<and>
    (must_sync V \<longrightarrow> vpend V' = {}))"
proof -
  have c: "core s n V d m" and v: "vmine V = {}" and e: "even (run_counter d)"
    using a by (simp_all add: at_sync_def)
  note d = coreD(1)[OF c] and y = coreD(9,16)[OF c]
  let ?V = "V\<lparr>must_sync := False, vdirty := False\<rparr>"
  show ?thesis
  proof (cases "is_sync d = 0")
    case True
    have "at_sync s n ?V d (set_td s d m)"
      by (rule at_sync_same[OF a]) (use y e in \<open>simp_all add: same_core_def\<close>)
    then have "rlu_rest s n ?V m" using l set_td_same[OF d] by (auto simp: rlu_rest_def)
    moreover have "\<not> must_sync V" using True y by blast
    ultimately show ?thesis using True d by (auto simp: rlu_sync_checkpoint_def)
  next
    case False
    let ?d = "d\<lparr>n_sync_requests := n_sync_requests d + 1\<rparr>"
    have a1: "at_sync s n W ?d (set_td s ?d m)" if "W = V \<or> W = ?V" for W
      by (rule at_sync_same[OF a]) (use that y e in \<open>auto simp: same_core_def\<close>)
    show ?thesis
    proof (cases "ws_tail_counter d = ws_head_counter d")
      case True
      then have "vpend ?V = {}" using ring_facts(2,3)[OF c] coreD(6)[OF c] by (simp add: pending_def)
      moreover have "rlu_rest s n ?V (set_td s ?d m)" using a1[of ?V] l by (auto simp: rlu_rest_def)
      ultimately show ?thesis
        using True False d e by (auto simp: rlu_sync_checkpoint_def rlu_sync_and_writeback_def)
    next
      case ne: False
      have "runs t (rlu_sync_and_writeback (Suc g) s) (set_td s ?d m) (\<lambda>_ m'. \<exists>V'. settled V V' \<and>
          rlu_rest s n V' m' \<and> (must_sync V \<longrightarrow> vpend V' = {}))"
      proof (rule runs_mono[OF sync_settles[OF a1[of V]]])
        fix r m'
        assume "\<exists>d'. at_sync s n (settle V) d' m' \<and> ws_head_counter d' = ws_wb_counter ?d \<and>
          ws_wb_counter d' = ws_tail_counter ?d \<and> ws_tail_counter d' = ws_tail_counter ?d \<and>
          max_write_sets d' = max_write_sets ?d"
        then have "rlu_rest s n (settle V) m'" using ring_facts(6)[OF c] by (auto simp: rlu_rest_def)
        moreover have "vpend (settle V) = {}" by (simp add: settle_def)
        ultimately show "\<exists>V'. settled V V' \<and> rlu_rest s n V' m' \<and> (must_sync V \<longrightarrow> vpend V' = {})" by blast
      qed (use ne in simp_all)
      then show ?thesis using False d by (simp add: rlu_sync_checkpoint_def)
    qed
  qed
qed

subsection \<open>Entering a section\<close>

lemma enter_sect:
  assumes a: "at_sync s n V d m" and l: "ws_tail_counter d - ws_wb_counter d < max_write_sets d"
    and f: "same_core d d'" "run_counter d' = run_counter d + 1" "is_write_detected d' = 0" "is_sync d' = is_sync d"
      "is_check_locks d' = 0 \<Longrightarrow> ws_tail_counter d = ws_wb_counter d" "\<not> vdirty V"
  shows "rlu_sect s n V (set_td s d' m)"
proof -
  have c: "core s n V d m" and v: "vmine V = {}" and e: "even (run_counter d)"
    using a by (simp_all add: at_sync_def)
  note r = ring_facts[OF c]
  have s: "ws_tail_counter d' = ws_tail_counter d" "ws_wb_counter d' = ws_wb_counter d"
    "obj_write_set d' = obj_write_set d" "max_write_sets d' = max_write_sets d" using f(1) by (auto simp: same_core_def)
  have "clean d (ws_tail_counter d)" using a l r by (simp add: at_sync_def)
  then have cl: "clean d' (ws_tail_counter d)" using s by (simp add: clean_def)
  have "core s n V d' (set_td s d' m)"
    by (rule core_same[OF c f(1)]) (use f(4) coreD(9,16)[OF c] in auto)
  moreover have "vpend V = {}" if "is_check_locks d' = 0"
    using f(5)[OF that] coreD(6)[OF c] by (simp add: pending_def)
  moreover have "num_of_objs (wset d' (ws_tail_counter d)) = 0" using cl by (simp add: clean_def)
  ultimately have "in_sect s n V d' (set_td s d' m)"
    using clean_ok[OF cl] e l f v s coreD(14)[OF c] by (simp add: in_sect_def)
  then show ?thesis by (auto simp: rlu_sect_def)
qed

lemma rlu_enter:
  assumes "rlu_rest s n V m"
  shows "runs t (rlu_reader_lock (Suc g) s) m (\<lambda>_ m'. \<exists>V'. settled V V' \<and> vmine V' = {} \<and> rlu_sect s n V' m')"
proof -
  obtain d where d: "at_sync s n V d m" "ws_tail_counter d - ws_wb_counter d < max_write_sets d"
    using assms by (auto simp: rlu_rest_def)
  note c = d(1)[unfolded at_sync_def, THEN conjunct1]
  let ?d = "d\<lparr>n_starts := n_starts d + 1\<rparr>"
  have a1: "at_sync s n V ?d (set_td s ?d m)"
    by (rule at_sync_same[OF d(1)]) (use d(1) coreD(9,16)[OF c] in \<open>auto simp: same_core_def at_sync_def\<close>)
  let ?rest = "\<lambda>m'. runs t (rlu_reset s) m' (\<lambda>_ m'. runs t (rlu_register_thread s) m' (\<lambda>_ m'.
    runs t (td_wr s (\<lambda>d. d\<lparr>is_steal := 1\<rparr>)) m' (\<lambda>_ m'.
    runs t (td_rd s (\<lambda>d. local_version d - local_commit_version d = 0)) m' (\<lambda>same m'.
    runs t (if same then td_wr s (\<lambda>d. d\<lparr>is_steal := 0\<rparr>) else Ret ()) m' (\<lambda>_ m'.
    runs t (td_wr s (\<lambda>d. d\<lparr>is_check_locks := 1\<rparr>)) m' (\<lambda>_ m'.
    runs t (td_rd s (\<lambda>d. local_version d - local_commit_version d = 0 \<and> ws_tail_counter d - ws_wb_counter d = 0)) m' (\<lambda>pure m'.
    runs t (if pure then bind (td_wr s (\<lambda>d. d\<lparr>is_check_locks := 0\<rparr>)) (\<lambda>_.
      td_wr s (\<lambda>d. d\<lparr>n_pure_readers := n_pure_readers d + 1\<rparr>)) else Ret ()) m'
      (\<lambda>_ m'. \<exists>V'. settled V V' \<and> vmine V' = {} \<and> rlu_sect s n V' m'))))))))"
  have "?rest m1" if st: "settled V V1" "rlu_rest s n V1 m1" for V1 m1
  proof -
    obtain d1 where d1: "at_sync s n V1 d1 m1" "ws_tail_counter d1 - ws_wb_counter d1 < max_write_sets d1"
      using st(2) by (auto simp: rlu_rest_def)
    have t1: "tds m1 s = Some d1" "even (run_counter d1)" "vmine V1 = {}"
      using d1(1) by (auto simp: at_sync_def dest: coreD(1))
    have dirty: "\<not> vdirty V1" using st(1) by (auto simp: settled_def settle_def)
    note enter = enter_sect[OF d1 _ _ _ _ _ dirty]
    have done1: "\<exists>V'. settled V V' \<and> vmine V' = {} \<and> rlu_sect s n V' (set_td s d' m1)"
      if "same_core d1 d'" "run_counter d' = run_counter d1 + 1" "is_write_detected d' = 0" "is_sync d' = is_sync d1"
        "is_check_locks d' = 0 \<longrightarrow> ws_tail_counter d1 = ws_wb_counter d1" for d'
      using enter[of d'] that \<open>settled V V1\<close> t1(3) by blast
    show ?thesis
      using t1 unfolding rlu_reset_def rlu_register_thread_def runs_bind runs_if
      by (simp del: split_paired_Ex) (intro conjI impI done1; simp add: same_core_def)
  qed
  then show ?thesis
    using coreD(1)[OF c] unfolding rlu_reader_lock_def
    by (simp only: runs_bind runs_td_wr) (rule runs_mono[OF checkpoint[OF a1]], use d(2) in auto)
qed

subsection \<open>Leaving a section\<close>

lemma runs_release:
  "tds m s = Some d \<Longrightarrow> i < 200 \<Longrightarrow> wl_size (writer_locks (obj_write_set d i)) = 0 \<Longrightarrow>
    runs t (rlu_release_writer_locks s (int i)) m Q = Q () m"
  by (simp add: rlu_release_writer_locks_def RLU_MAX_WRITE_SETS_def)

lemma runs_reset_locks:
  assumes "tds m s = Some d" "i < 200" "wl_size (writer_locks (obj_write_set d i)) = 0"
  shows "runs t (rlu_reset_writer_locks s (int i)) m Q = Q () m"
proof -
  let ?f = "\<lambda>w :: obj_list_t. w\<lparr>writer_locks := (writer_locks w)\<lparr>wl_size := 0\<rparr>\<rparr>"
  have f: "?f w = w" if "wl_size (writer_locks w) = 0" for w
    using that by (cases w; cases "writer_locks w") simp
  have "(obj_write_set d)(i := obj_write_set d i) = obj_write_set d" by simp
  then have "set_ws (int i) ?f d = d" using f[OF assms(3)] by (cases d) (simp add: set_ws_def)
  then show ?thesis
    using assms by (simp add: rlu_reset_writer_locks_def RLU_MAX_WRITE_SETS_def set_td_same)
qed

lemma sect_pending_mine:
  assumes "in_sect s n V d m"
  shows "vpend V \<inter> vmine V = {}"
proof -
  have c: "core s n V d m" and ok: "ws_ok s d m (ws_tail_counter d)" and v: "vmine V = acts d (ws_tail_counter d)"
    using assms by (simp_all add: in_sect_def)
  note r = ring_facts[OF c]
  have "False" if a: "a \<in> pending d" "a \<in> acts d (ws_tail_counter d)" for a
  proof (rule pending_entry[OF a(1) c])
    fix c k x
    assume 1: "ws_wb_counter d \<le> c" "c < ws_tail_counter d" "objs m a = Some x" "obj_h x = CopyP s (ring c) (off k)"
    show False
    proof (rule acts_entry[OF a(2) ok])
      fix j y assume "objs m a = Some y" "obj_h y = CopyP s (ring (ws_tail_counter d)) (off j)"
      then have "ring c = ring (ws_tail_counter d)" using 1 by simp
      then have "c = ws_tail_counter d" by (rule ring_inj) (use 1 r in simp)
      then show False using 1(2) by simp
    qed
  qed
  then show ?thesis using coreD(6)[OF c] v by blast
qed

lemma commit_core:
  assumes i: "in_sect s (Suc n) V d m"
    and f: "uniq_id d' = uniq_id d" "max_write_sets d' = max_write_sets d" "ws_head_counter d' = ws_head_counter d"
      "ws_wb_counter d' = ws_wb_counter d" "ws_tail_counter d' = ws_tail_counter d + 1"
      "ws_cur_id d' = int (ring (ws_tail_counter d + 1))" "obj_write_set d' = obj_write_set d"
      "free_nodes_size d' = free_nodes_size d" "free_nodes d' = free_nodes d" "run_counter d' = run_counter d + 1"
      "is_sync d' = is_sync d"
  shows "at_sync s n (V\<lparr>vpend := vpend V \<union> vmine V, vmine := {}\<rparr>) d' (set_td s d' m)"
proof -
  let ?tl = "ws_tail_counter d" and ?V = "V\<lparr>vpend := vpend V \<union> vmine V, vmine := {}\<rparr>" and ?m = "set_td s d' m"
  have c: "core s (Suc n) V d m" and ok: "ws_ok s d m ?tl" and v: "vmine V = acts d ?tl" and o: "odd (run_counter d)"
    and rc: "\<And>k. k < num_of_objs (wset d ?tl) \<Longrightarrow> ws_run_counter (entry d ?tl k) = run_counter d"
    and l: "?tl - ws_wb_counter d < max_write_sets d" using i by (simp_all add: in_sect_def)
  note r = ring_facts[OF c]
  have "{ws_wb_counter d..<?tl + 1} = insert ?tl {ws_wb_counter d..<?tl}" using r(3) by auto
  then have p: "pending d' = pending d \<union> acts d ?tl"
    by (simp add: pending_def f acts_def acts_of_def Un_commute)
  have "lnode ?m = lnode m" by (rule lnode_set_td[OF coreD(1)[OF c]]) (simp add: f)
  then have h: "lheap ?m = lheap m" by (simp add: lheap_def[abs_def])
  have cl: "clean d' x" if "?tl < x" "x < ws_head_counter d + 200" for x
    using r(11)[OF that] clean_cong[of d' d x] f(7) by simp
  have "ring_ok n d'"
    unfolding ring_ok_def f using r l cl by auto
  moreover have "quiet_peers s d' ?m" using coreD(2)[OF c] by (fastforce simp: quiet_peers_def f)
  moreover have "alloc_ok ?m" using coreD(4)[OF c] by (simp add: alloc_ok_def)
  moreover have "view_of d' ?m ?V"
    using coreD(5-9,16)[OF c] h p v by (simp add: view_of_def f)
  moreover have "ws_ok s d' ?m x \<and> (k < num_of_objs (wset d' x) \<longrightarrow> ws_run_counter (entry d' x k) < run_counter d')"
    if "ws_wb_counter d' \<le> x" "x < ws_tail_counter d'" for x k
  proof -
    have "ws_ok s d' ?m x = ws_ok s d m x" by (rule ws_ok_cong) (simp_all add: f)
    then show ?thesis
      using coreD(10,11)[OF c, of x] ok rc that by (cases "x = ?tl") (auto simp: f less_Suc_eq)
  qed
  moreover have "frees_ok d' F = frees_ok d F" for F by (simp add: frees_ok_def f)
  ultimately have "core s n ?V d' ?m"
    using coreD(12-15)[OF c] by (simp add: core_def Un_assoc)
  then show ?thesis using o cl by (simp add: at_sync_def f)
qed

lemma commit_unfold:
  assumes "tds m s = Some d"
  shows "runs t (rlu_commit_write_set g s) m Q \<longleftrightarrow>
    runs t (if WS_INDEX (ws_tail_counter d + 1) = WS_INDEX (ws_head_counter d) \<or>
        max_write_sets d \<le> ws_tail_counter d + 1 - ws_wb_counter d
      then rlu_sync_and_writeback g s else Ret ())
    (set_td s (d\<lparr>n_writers := n_writers d + 1, n_writer_writeback := n_writer_writeback d + 1,
      ws_tail_counter := ws_tail_counter d + 1, ws_cur_id := WS_INDEX (ws_tail_counter d + 1)\<rparr>) m) (\<lambda>_ m'.
    runs t (td_rd s (\<lambda>d. ws_head_counter d < ws_tail_counter d)) m' (\<lambda>b m'. b \<and>
    runs t (td_rd s (\<lambda>d. WS_INDEX (ws_tail_counter d) \<noteq> WS_INDEX (ws_head_counter d))) m' (\<lambda>b m'. b \<and> Q () m')))"
  using assms by (simp add: rlu_commit_write_set_def)

lemma runs_commit:
  assumes i: "in_sect s (Suc n) V d m" and m': "tds m' s = Some d'" "set_td s d' m = m'"
    and d': "run_counter d' = run_counter d + 1" "same_core d d'" "is_sync d' = is_sync d"
  shows "runs t (rlu_commit_write_set (Suc g) s) m' (\<lambda>_ m'. \<exists>V1 d1.
    (V1 = V\<lparr>vpend := vpend V \<union> vmine V, vmine := {}\<rparr> \<or> V1 = settle (V\<lparr>vpend := vpend V \<union> vmine V, vmine := {}\<rparr>)) \<and>
    at_sync s n V1 d1 m' \<and> ws_tail_counter d1 - ws_wb_counter d1 < max_write_sets d1 \<and> 0 < ws_tail_counter d1)"
proof -
  let ?V = "V\<lparr>vpend := vpend V \<union> vmine V, vmine := {}\<rparr>" and ?tl = "ws_tail_counter d"
  let ?d = "d'\<lparr>n_writers := n_writers d' + 1, n_writer_writeback := n_writer_writeback d' + 1,
    ws_tail_counter := ?tl + 1, ws_cur_id := int (ring (?tl + 1))\<rparr>"
  have c: "core s (Suc n) V d m" using i by (simp add: in_sect_def)
  note r = ring_facts[OF c]
  have s: "ws_tail_counter d' = ?tl" "ws_head_counter d' = ws_head_counter d" "ws_wb_counter d' = ws_wb_counter d"
    "max_write_sets d' = max_write_sets d" using d'(2) by (simp_all add: same_core_def)
  have "at_sync s n ?V ?d (set_td s ?d m)"
    by (rule commit_core[OF i]) (use d' in \<open>simp_all add: same_core_def\<close>)
  then have a: "at_sync s n ?V ?d (set_td s ?d m')" using m'(2) by (metis set_td_twice)
  have idx: "WS_INDEX (?tl + 1) = int (ring (?tl + 1))" "WS_INDEX (ws_head_counter d) = int (ring (ws_head_counter d))"
    using r(1,12) by simp_all
  let ?full = "ring (?tl + 1) = ring (ws_head_counter d) \<or> max_write_sets d \<le> ?tl + 1 - ws_wb_counter d"
  let ?P = "\<lambda>m'. \<exists>V1 d1. (V1 = ?V \<or> V1 = settle ?V) \<and> at_sync s n V1 d1 m' \<and>
    ws_tail_counter d1 - ws_wb_counter d1 < max_write_sets d1 \<and> 0 < ws_tail_counter d1"
  have "runs t (if ?full then rlu_sync_and_writeback (Suc g) s else Ret ()) (set_td s ?d m') (\<lambda>_ m'.
      \<exists>d1. tds m' s = Some d1 \<and> ws_head_counter d1 < ws_tail_counter d1 \<and>
      WS_INDEX (ws_tail_counter d1) \<noteq> WS_INDEX (ws_head_counter d1) \<and> ?P m')"
  proof (cases ?full)
    case True
    have "runs t (rlu_sync_and_writeback (Suc g) s) (set_td s ?d m') (\<lambda>_ m'.
      \<exists>d1. tds m' s = Some d1 \<and> ws_head_counter d1 < ws_tail_counter d1 \<and>
      WS_INDEX (ws_tail_counter d1) \<noteq> WS_INDEX (ws_head_counter d1) \<and> ?P m')"
    proof (rule runs_mono[OF sync_settles[OF a]])
      show "ws_tail_counter ?d \<noteq> ws_head_counter ?d" using r s by simp
      fix x m1
      assume "\<exists>d1. at_sync s n (settle ?V) d1 m1 \<and> ws_head_counter d1 = ws_wb_counter ?d \<and>
        ws_wb_counter d1 = ws_tail_counter ?d \<and> ws_tail_counter d1 = ws_tail_counter ?d \<and>
        max_write_sets d1 = max_write_sets ?d"
      then obtain d1 where d1: "at_sync s n (settle ?V) d1 m1" "ws_head_counter d1 = ws_wb_counter d"
        "ws_wb_counter d1 = ?tl + 1" "ws_tail_counter d1 = ?tl + 1" "max_write_sets d1 = max_write_sets d"
        using s by auto
      have "tds m1 s = Some d1" using d1(1) by (auto simp: at_sync_def dest: coreD(1))
      moreover have "ring (?tl + 1) \<noteq> ring (ws_wb_counter d)"
      proof
        assume "ring (?tl + 1) = ring (ws_wb_counter d)"
        then have "?tl + 1 = ws_wb_counter d"
          by (rule ring_inj) (use r i in \<open>simp add: in_sect_def\<close>)
        then show False using r(3) by simp
      qed
      moreover have "?P m1" by (intro exI[of _ "settle ?V"] exI[of _ d1]) (use d1 r in auto)
      ultimately show "\<exists>d1. tds m1 s = Some d1 \<and> ws_head_counter d1 < ws_tail_counter d1 \<and>
          WS_INDEX (ws_tail_counter d1) \<noteq> WS_INDEX (ws_head_counter d1) \<and> ?P m1"
        using d1(2-5) r(1-3) by (intro exI[of _ d1]) auto
    qed
    then show ?thesis using True by simp
  next
    case False
    have "?P (set_td s ?d m')"
      by (intro exI[of _ ?V] exI[of _ ?d]) (use a s False r in auto)
    then show ?thesis using False s r by auto
  qed
  then have "runs t (if ?full then rlu_sync_and_writeback (Suc g) s else Ret ()) (set_td s ?d m') (\<lambda>_ m'.
      runs t (td_rd s (\<lambda>d. ws_head_counter d < ws_tail_counter d)) m' (\<lambda>b m'. b \<and>
      runs t (td_rd s (\<lambda>d. WS_INDEX (ws_tail_counter d) \<noteq> WS_INDEX (ws_head_counter d))) m' (\<lambda>b m'. b \<and> ?P m')))"
  proof (rule runs_mono)
    fix x m1
    assume "\<exists>d1. tds m1 s = Some d1 \<and> ws_head_counter d1 < ws_tail_counter d1 \<and>
      WS_INDEX (ws_tail_counter d1) \<noteq> WS_INDEX (ws_head_counter d1) \<and> ?P m1"
    then obtain d1 where d1: "tds m1 s = Some d1" "ws_head_counter d1 < ws_tail_counter d1"
      "WS_INDEX (ws_tail_counter d1) \<noteq> WS_INDEX (ws_head_counter d1)" "?P m1" by blast
    show "runs t (td_rd s (\<lambda>d. ws_head_counter d < ws_tail_counter d)) m1 (\<lambda>b m'. b \<and>
      runs t (td_rd s (\<lambda>d. WS_INDEX (ws_tail_counter d) \<noteq> WS_INDEX (ws_head_counter d))) m' (\<lambda>b m'. b \<and> ?P m'))"
      unfolding runs_td_rd[OF d1(1)] by (intro conjI d1(2-4))
  qed
  then show ?thesis
    unfolding commit_unfold[OF m'(1)] s idx of_nat_eq_iff .
qed

lemma core_less: "core s (Suc n) V d m \<Longrightarrow> core s n V d m"
  by (simp add: core_def ring_ok_def)

lemma sect_mine_empty:
  "in_sect s n V d m \<Longrightarrow> num_of_objs (wset d (ws_tail_counter d)) = 0 \<Longrightarrow> vmine V = {}"
  by (simp add: in_sect_def acts_def acts_of_def)

lemma idle_core:
  assumes i: "in_sect s n V d m" and z: "num_of_objs (wset d (ws_tail_counter d)) = 0"
    and f: "same_core d d'" "run_counter d' = run_counter d + 1" "is_sync d' = is_sync d"
  shows "at_sync s n (V\<lparr>vpend := vpend V \<union> vmine V, vmine := {}\<rparr>) d' (set_td s d' m)"
proof -
  have c: "core s n V d m" and ok: "ws_ok s d m (ws_tail_counter d)" and o: "odd (run_counter d)"
    using i by (simp_all add: in_sect_def)
  have v: "vmine V = {}" by (rule sect_mine_empty[OF i z])
  have "core s n (V\<lparr>vpend := vpend V \<union> vmine V, vmine := {}\<rparr>) d' (set_td s d' m)"
    by (rule core_same[OF c f(1)]) (use v f(3) coreD(9,16)[OF c] in auto)
  moreover have "clean d (ws_tail_counter d)" using ok z by (simp add: ws_ok_def clean_def)
  ultimately show ?thesis using o f by (simp add: at_sync_def clean_def same_core_def)
qed

lemma runs_idle:
  assumes i: "in_sect s n V d m" and z: "num_of_objs (wset d (ws_tail_counter d)) = 0"
    and f: "same_core d d'" "run_counter d' = run_counter d + 1" "is_sync d' = is_sync d"
  shows "runs t (bind (td_rd s ws_cur_id) (\<lambda>i. bind (rlu_release_writer_locks s i) (\<lambda>_.
      bind (td_rd s ws_cur_id) (\<lambda>i. rlu_reset_writer_locks s i)))) (set_td s d' m) Q = Q () (set_td s d' m)"
proof -
  have c: "core s n V d m" using i by (simp add: in_sect_def)
  have cur: "ws_cur_id d' = int (ring (ws_tail_counter d))" "obj_write_set d' = obj_write_set d"
    using f(1) ring_facts(9)[OF c] by (simp_all add: same_core_def)
  have "wl_size (writer_locks (obj_write_set d' (ring (ws_tail_counter d)))) = 0"
    using ring_facts(10)[OF c] cur(2) by simp
  then show ?thesis by (simp add: cur(1) runs_release[where d = d'] runs_reset_locks[where d = d'])
qed

lemma rlu_leave:
  assumes "rlu_sect s (Suc n) V m"
  shows "runs t (rlu_reader_unlock (Suc g) s) m (\<lambda>_ m'.
    \<exists>V'. settled (V\<lparr>vpend := vpend V \<union> vmine V, vmine := {}\<rparr>) V' \<and> rlu_rest s n V' m')"
proof -
  obtain d where i: "in_sect s (Suc n) V d m" using assms by (auto simp: rlu_sect_def)
  have c: "core s (Suc n) V d m" and o: "odd (run_counter d)"
    and wd: "is_write_detected d \<noteq> 0 \<longleftrightarrow> num_of_objs (wset d (ws_tail_counter d)) \<noteq> 0"
    and l: "ws_tail_counter d - ws_wb_counter d < max_write_sets d"
    using i by (simp_all add: in_sect_def)
  note d = coreD(1)[OF c]
  let ?V = "V\<lparr>vpend := vpend V \<union> vmine V, vmine := {}\<rparr>"
  let ?Q = "\<lambda>(_ :: unit) m'. \<exists>V'. settled ?V V' \<and> rlu_rest s n V' m'"
  let ?d = "d\<lparr>n_finish := n_finish d + 1, run_counter := run_counter d + 1\<rparr>"
  have check: "runs t (rlu_sync_checkpoint (Suc g) s) m' ?Q"
    if st: "V1 = ?V \<or> V1 = settle ?V" "at_sync s n V1 d1 m'" "ws_tail_counter d1 - ws_wb_counter d1 < max_write_sets d1"
    for V1 d1 m'
  proof (rule runs_mono[OF checkpoint[OF st(2,3)]])
    fix x :: unit and m1 assume "\<exists>V'. settled V1 V' \<and> rlu_rest s n V' m1 \<and> (must_sync V1 \<longrightarrow> vpend V' = {})"
    then obtain V' where "settled V1 V'" "rlu_rest s n V' m1" by blast
    moreover have "settled ?V V'" using st(1) calculation(1) settle_settled by blast
    ultimately show "?Q x m1" by blast
  qed
  show ?thesis
  proof (cases "is_write_detected d = 0")
    case True
    then have z: "num_of_objs (wset d (ws_tail_counter d)) = 0" using wd by simp
    have s: "same_core d ?d" by (simp add: same_core_def)
    have "at_sync s n ?V ?d (set_td s ?d m)"
      using idle_core[OF i z s] core_less by (simp add: at_sync_def)
    then have "runs t (rlu_sync_checkpoint (Suc g) s) (set_td s ?d m) ?Q"
      by (rule check[rotated]) (use l in simp_all)
    then show ?thesis
      using d o True runs_idle[OF i z s] unfolding rlu_reader_unlock_def rlu_unregister_thread_def
      by (simp del: split_paired_Ex)
  next
    case False
    let ?d2 = "?d\<lparr>is_write_detected := 0\<rparr>"
    let ?m2 = "set_td s ?d2 m"
    have "runs t (rlu_commit_write_set (Suc g) s) ?m2 (\<lambda>_ m'.
        runs t (td_rd s (\<lambda>d. WS_INDEX (ws_tail_counter d - 1))) m' (\<lambda>i m'.
        runs t (rlu_release_writer_locks s i) m' (\<lambda>_ m'. runs t (rlu_sync_checkpoint (Suc g) s) m' ?Q)))"
    proof (rule runs_mono[OF runs_commit[OF i, of ?m2 ?d2]])
      fix x :: unit and m1
      assume "\<exists>V1 d1. (V1 = ?V \<or> V1 = settle ?V) \<and> at_sync s n V1 d1 m1 \<and>
        ws_tail_counter d1 - ws_wb_counter d1 < max_write_sets d1 \<and> 0 < ws_tail_counter d1"
      then obtain V1 d1 where 1: "V1 = ?V \<or> V1 = settle ?V" "at_sync s n V1 d1 m1"
        "ws_tail_counter d1 - ws_wb_counter d1 < max_write_sets d1" "0 < ws_tail_counter d1" by blast
      have c1: "core s n V1 d1 m1" using 1(2) by (simp add: at_sync_def)
      have "wl_size (writer_locks (obj_write_set d1 (ring (ws_tail_counter d1 - 1)))) = 0"
        by (rule ring_facts(10)[OF c1]) simp
      then show "runs t (td_rd s (\<lambda>d. WS_INDEX (ws_tail_counter d - 1))) m1 (\<lambda>i m'.
          runs t (rlu_release_writer_locks s i) m' (\<lambda>_ m'. runs t (rlu_sync_checkpoint (Suc g) s) m' ?Q))"
        using check[OF 1(1-3)] coreD(1)[OF c1] 1(4) by (simp add: runs_release del: split_paired_Ex)
    qed (simp_all add: same_core_def)
    then show ?thesis
      using d o False unfolding rlu_reader_unlock_def rlu_unregister_thread_def
      by (simp del: split_paired_Ex)
  qed
qed

subsection \<open>Abandoning a section\<close>

lemma abort_core:
  assumes i: "in_sect s n V d m" and nd: "\<not> vdirty V"
    and f: "uniq_id d' = uniq_id d" "max_write_sets d' = max_write_sets d" "ws_head_counter d' = ws_head_counter d"
      "ws_wb_counter d' = ws_wb_counter d" "ws_tail_counter d' = ws_tail_counter d" "ws_cur_id d' = ws_cur_id d"
      "obj_write_set d' = obj_write_set (resets {ws_tail_counter d} d)"
      "free_nodes_size d' = free_nodes_size d" "free_nodes d' = free_nodes d" "run_counter d' = run_counter d + 1"
      "is_sync d' = is_sync d"
  shows "at_sync s n (V\<lparr>vmine := {}\<rparr>) d' (set_td s d' (unlocked (acts d (ws_tail_counter d)) m))"
proof -
  let ?tl = "ws_tail_counter d"
  let ?A = "acts d ?tl" and ?m = "set_td s d' (unlocked (acts d ?tl) m)"
  have c: "core s n V d m" and v: "vmine V = ?A" and o: "odd (run_counter d)"
    and un: "\<And>a x. a \<in> ?A \<Longrightarrow> objs m a = Some x \<Longrightarrow> lnode m x = obj_node x" and fr: "vfreed V \<subseteq> vpend V"
    using i nd by (auto simp: in_sect_def)
  note r = ring_facts[OF c]
  have w: "wset d' x = wset d x" if "ws_wb_counter d \<le> x" "x < ?tl" for x
  proof -
    have "ring x \<noteq> ring ?tl" using ring_inj[of x ?tl] that r by fastforce
    then show ?thesis unfolding f(7) by (simp add: resets_def)
  qed
  have p: "pending d' = pending d" by (simp add: pending_def f(4,5) acts_def acts_of_def w cong: SUP_cong_simp)
  have "lnode ?m = lnode (unlocked ?A m)"
    by (rule lnode_set_td[of _ s d]) (simp_all add: coreD(1)[OF c] f(7))
  also have "\<dots> = lnode m" by (rule lnode_tds) simp
  finally have ln: "lnode ?m = lnode m" .
  have "lheap ?m a = lheap m a" for a
    using un[of a] by (cases "objs m a") (simp_all add: lheap_def ln objs_unlocked)
  then have h: "lheap ?m = lheap m" ..
  have disj: "a \<notin> ?A" if "a \<in> pending d" for a
    using sect_pending_mine[OF i] coreD(6)[OF c] v that by blast
  have ok: "ws_ok s d' ?m x" if x: "ws_wb_counter d \<le> x" "x < ?tl" for x
  proof -
    have "entry_ok s d m x k" if "k < num_of_objs (wset d x)" for k
      using coreD(10)[OF c x] that by (simp add: ws_ok_def)
    moreover have "a \<in> pending d" if "k < num_of_objs (wset d x)" "p_obj_actual (entry d x k) = ObjP a" for k a
      using that x by (auto simp: pending_def acts_def acts_of_def)
    ultimately have "entry_ok s d' ?m x k" if "k < num_of_objs (wset d x)" for k
      using that disj by (fastforce simp: entry_ok_def w[OF x] f(1) objs_unlocked)
    then show ?thesis using coreD(10)[OF c x] by (simp add: ws_ok_def w[OF x])
  qed
  have cl: "clean d' x" if "?tl \<le> x" "x < ws_head_counter d + 200" for x
  proof -
    have "clean d x \<or> ring x \<in> ring ` {?tl}" using r(11)[of x] that by (cases "x = ?tl") auto
    then show ?thesis using clean_resets[of d x "{?tl}"] clean_cong[OF f(7), of x] by blast
  qed
  have "wl_size (writer_locks (obj_write_set d' i)) = 0" if "i < 200" for i
    unfolding f(7) using wl_resets r(10)[OF that] .
  then have "ring_ok n d'" unfolding ring_ok_def f(1-6) using r cl by simp
  moreover have "quiet_peers s d' ?m" using coreD(2)[OF c] by (fastforce simp: quiet_peers_def f)
  moreover have "alloc_ok ?m" using coreD(4)[OF c] by (auto simp: alloc_ok_def objs_unlocked split: if_splits)
  moreover have "view_of d' ?m (V\<lparr>vmine := {}\<rparr>)"
    using coreD(5-9,16)[OF c] h p by (simp add: view_of_def f)
  moreover have "ws_run_counter (entry d' x k) < run_counter d'"
    if x: "ws_wb_counter d \<le> x" "x < ?tl" "k < num_of_objs (wset d x)" for x k
    using coreD(11)[OF c x] w[OF x(1,2)] f(10) by simp
  moreover have "obj_h y = NullP \<or> a \<in> vpend V" if "objs ?m a = Some y" for a y
    using that coreD(12)[OF c] v by (cases "a \<in> ?A") (auto simp: objs_unlocked)
  moreover have "frees_ok d' F = frees_ok d F" for F by (simp add: frees_ok_def f)
  ultimately have "core s n (V\<lparr>vmine := {}\<rparr>) d' ?m"
    using coreD(13,15)[OF c] fr ok w by (simp add: core_def f)
  then show ?thesis using o cl[of ?tl] by (simp add: at_sync_def f)
qed

lemma rlu_abandon:
  assumes "rlu_sect s n V m" and nd: "\<not> vdirty V"
  shows "runs t (rlu_abort (Suc g) s) m (\<lambda>_ m'. \<exists>V'. settled (V\<lparr>vmine := {}\<rparr>) V' \<and> rlu_rest s n V' m' \<and>
    (must_sync V \<longrightarrow> vpend V' = {}))"
proof -
  obtain d where i: "in_sect s n V d m" using assms by (auto simp: rlu_sect_def)
  have c: "core s n V d m" and o: "odd (run_counter d)" and ok: "ws_ok s d m (ws_tail_counter d)"
    and wd: "is_write_detected d \<noteq> 0 \<longleftrightarrow> num_of_objs (wset d (ws_tail_counter d)) \<noteq> 0"
    and l: "ws_tail_counter d - ws_wb_counter d < max_write_sets d"
    using i by (simp_all add: in_sect_def)
  note d = coreD(1)[OF c] and r = ring_facts[OF c]
  let ?V = "V\<lparr>vmine := {}\<rparr>" and ?tl = "ws_tail_counter d"
  let ?Q = "\<lambda>(_ :: unit) m'. \<exists>V'. settled ?V V' \<and> rlu_rest s n V' m' \<and> (must_sync V \<longrightarrow> vpend V' = {})"
  let ?d = "d\<lparr>n_aborts := n_aborts d + 1, run_counter := Suc (run_counter d)\<rparr>"
  have check: "runs t (rlu_sync_checkpoint (Suc g) s) m' ?Q"
    if st: "at_sync s n ?V d1 m'" "ws_tail_counter d1 - ws_wb_counter d1 < max_write_sets d1" for d1 m'
    using checkpoint[OF st] by simp
  show ?thesis
  proof (cases "is_write_detected d = 0")
    case True
    then have z: "num_of_objs (wset d ?tl) = 0" using wd by simp
    have v: "vmine V = {}" by (rule sect_mine_empty[OF i z])
    have s: "same_core d ?d" by (simp add: same_core_def)
    have "at_sync s n ?V ?d (set_td s ?d m)"
      using idle_core[OF i z s] v by simp
    then have "runs t (rlu_sync_checkpoint (Suc g) s) (set_td s ?d m) ?Q"
      by (rule check) (use l in simp)
    then show ?thesis
      using d o True runs_idle[OF i z s] unfolding rlu_abort_def rlu_unregister_thread_def
      by (simp del: split_paired_Ex)
  next
    case False
    let ?d2 = "?d\<lparr>is_write_detected := 0\<rparr>"
    let ?m2 = "set_td s ?d2 m" and ?d3 = "resets {?tl} ?d2"
    have i32: "to_int32 ?tl = ?tl" using r by (simp add: to_int32_id)
    have wl: "wl_size (writer_locks (obj_write_set d (ring ?tl))) = 0" by (rule r(10)) simp
    have ok2: "ws_ok s ?d2 ?m2 ?tl" using ok by (simp add: ws_ok_def entry_ok_def)
    have A: "acts ?d2 ?tl = acts d ?tl" by (simp add: acts_def acts_of_def)
    have "obj_write_set ?d3 = obj_write_set (resets {?tl} d)" by (simp add: resets_def cong: if_cong)
    then have "at_sync s n ?V ?d3 (set_td s ?d3 (unlocked (acts d ?tl) m))"
      by (intro abort_core[OF i nd]) simp_all
    then have "runs t (rlu_sync_checkpoint (Suc g) s) (set_td s ?d3 (unlocked (acts d ?tl) m)) ?Q"
      by (rule check) (use l in simp)
    moreover have "set_td s ?d3 (unlocked (acts d ?tl) ?m2) = set_td s ?d3 (unlocked (acts d ?tl) m)"
      by (simp add: set_td_def unlocked_def cong: if_cong)
    ultimately show ?thesis
      using d o False i32 r(9,12) wl runs_unlock_objs[of ?m2 s ?d2 ?tl t] ok2
      unfolding rlu_abort_def rlu_unregister_thread_def
      by (simp add: A runs_release[where d = ?d2] runs_reset_write_set[where d = ?d2] del: split_paired_Ex)
  qed
qed

end
