(* ===== verification/RluTable.thy ===== *)
theory RluTable
  imports RluClient
begin

text \<open>
  The operations of rlu-hash-list.c over the contract of the engine. A table gives each bucket its list of nodes;
  the calls of the program are proved to be those of a set, with at most one restart for the blocking ones.
\<close>

subsection \<open>Tables\<close>

definition rlu_tbl :: "hash_list_t \<Rightarrow> rlu_view \<Rightarrow> (int \<Rightarrow> (nat \<times> val_t) list) \<Rightarrow> bool" where
  "rlu_tbl T V F \<longleftrightarrow> vtable V = Some T \<and> table_ok T \<and> vfreed V \<subseteq> dom (vheap V) \<and>
     (\<forall>i. 0 \<le> i \<and> i < n_buckets T \<longrightarrow> rlist V (buckets T i) (F i) \<and> fst ` set (F i) \<inter> vfreed V = {} \<and>
       (\<forall>k \<in> rkeys (F i). 0 \<le> k \<and> c_rem k (n_buckets T) = i)) \<and>
     (\<forall>i j. 0 \<le> i \<and> i < n_buckets T \<and> 0 \<le> j \<and> j < n_buckets T \<and> i \<noteq> j \<longrightarrow>
       fst ` set (F i) \<inter> fst ` set (F j) = {})"

definition rlu_keys :: "hash_list_t \<Rightarrow> (int \<Rightarrow> (nat \<times> val_t) list) \<Rightarrow> val_t set" where
  "rlu_keys T F = (\<Union>i \<in> {0..<n_buckets T}. rkeys (F i))"

lemma tblD:
  assumes "rlu_tbl T V F" "0 \<le> i" "i < n_buckets T"
  shows "rlist V (buckets T i) (F i)" "fst ` set (F i) \<inter> vfreed V = {}"
    "\<And>k. k \<in> rkeys (F i) \<Longrightarrow> 0 \<le> k \<and> c_rem k (n_buckets T) = i"
    "\<And>j. 0 \<le> j \<Longrightarrow> j < n_buckets T \<Longrightarrow> i \<noteq> j \<Longrightarrow> fst ` set (F i) \<inter> fst ` set (F j) = {}"
  using assms unfolding rlu_tbl_def by blast+

lemma rlist_nodes: "rlist V l L \<Longrightarrow> a \<in> fst ` set L \<Longrightarrow> \<exists>x. vheap V a = Some x"
  unfolding rlist_def using rchain_node by fastforce

lemma rlist_cong:
  "(\<And>a. a \<in> fst ` set L \<Longrightarrow> vheap V' a = vheap V a) \<Longrightarrow> vlists V' = vlists V \<Longrightarrow> rlist V l L \<Longrightarrow> rlist V' l L"
  using rchain_cong[of L "vheap V'" "vheap V"] by (simp add: rlist_def)

lemma tbl_settled:
  assumes "settled V V'" "rlu_tbl T V F"
  shows "rlu_tbl T V' F"
proof -
  have env: "vlists V' = vlists V" "vtable V' = vtable V" "vfreed V' = vfreed V \<or> vfreed V' = {}"
    "\<And>a. a \<notin> vfreed V \<Longrightarrow> vheap V' a = vheap V a" "vfreed V' \<subseteq> dom (vheap V')"
    using assms unfolding rlu_tbl_def by (auto simp: settled_def settle_def)
  have "rlist V' (buckets T i) (F i) \<and> fst ` set (F i) \<inter> vfreed V' = {}" if "0 \<le> i \<and> i < n_buckets T" for i
    using tblD(1,2)[OF assms(2), of i] that env rlist_cong[of "F i" V' V] by blast
  then show ?thesis using assms(2) env(2,5) unfolding rlu_tbl_def by auto
qed

text \<open>A change of one list, which touches its own nodes and nodes of no list.\<close>

lemma tbl_upd:
  assumes "rlu_tbl T V F" "0 \<le> i" "i < n_buckets T"
    and "rlist V' (buckets T i) L" "fst ` set L \<inter> vfreed V' = {}"
    and "\<And>k. k \<in> rkeys L \<Longrightarrow> 0 \<le> k \<and> c_rem k (n_buckets T) = i"
    and "\<And>j a. 0 \<le> j \<Longrightarrow> j < n_buckets T \<Longrightarrow> j \<noteq> i \<Longrightarrow> a \<in> fst ` set (F j) \<Longrightarrow>
      vheap V' a = vheap V a \<and> a \<notin> vfreed V' \<and> a \<notin> fst ` set L"
    and "vlists V' = vlists V" "vtable V' = vtable V" "vfreed V' \<subseteq> dom (vheap V')"
  shows "rlu_tbl T V' (F(i := L))"
proof -
  have "rlist V' (buckets T j) (F j) \<and> fst ` set (F j) \<inter> vfreed V' = {} \<and> fst ` set (F j) \<inter> fst ` set L = {}"
    if "0 \<le> j" "j < n_buckets T" "j \<noteq> i" for j
    using tblD(1)[OF assms(1) that(1,2)] rlist_cong[of "F j" V' V] assms(7)[OF that] assms(8) by blast
  then show ?thesis
    using assms(1,4-6,9,10) unfolding rlu_tbl_def by (auto 4 3)
qed

lemma rlu_keys_upd:
  assumes "0 \<le> i" "i < n_buckets T"
  shows "rlu_keys T (F(i := L)) = rkeys L \<union> (\<Union>j \<in> {0..<n_buckets T} - {i}. rkeys (F j))"
proof -
  have "{0..<n_buckets T} = insert i ({0..<n_buckets T} - {i})" using assms by auto
  then have "rlu_keys T (F(i := L)) = (\<Union>j \<in> insert i ({0..<n_buckets T} - {i}). rkeys ((F(i := L)) j))"
    unfolding rlu_keys_def by simp
  also have "\<dots> = rkeys L \<union> (\<Union>j \<in> {0..<n_buckets T} - {i}. rkeys (F j))" by (auto split: if_splits)
  finally show ?thesis .
qed

lemma rlu_keys_bucket:
  assumes "rlu_tbl T V F" "valid_key k"
  shows "k \<in> rlu_keys T F \<longleftrightarrow> k \<in> rkeys (F (c_rem k (n_buckets T)))"
proof -
  have T: "table_ok T" using assms(1) by (simp add: rlu_tbl_def)
  have r: "0 \<le> c_rem k (n_buckets T)" "c_rem k (n_buckets T) < n_buckets T"
    using T assms(2) c_rem_nonneg[of k "n_buckets T"] by (simp_all add: table_ok_def valid_key_def)
  have "c_rem k (n_buckets T) = i" if "i \<in> {0..<n_buckets T}" "k \<in> rkeys (F i)" for i
    using tblD(3)[OF assms(1), of i k] that by simp
  then show ?thesis unfolding rlu_keys_def using r by fastforce
qed

subsection \<open>Walks\<close>

definition found :: "(addr \<Rightarrow> nat \<Rightarrow> bool) \<Rightarrow> (nat \<times> val_t) list \<Rightarrow> val_t \<Rightarrow> addr \<times> addr \<times> val_t \<Rightarrow> bool" where
  "found see L key r \<longleftrightarrow> (\<exists>A a v b B. place L key A a v b (snd (snd r)) B \<and> see (fst r) a \<and> see (fst (snd r)) b)"

lemma foundI:
  "L = A @ (a, v) # (b, u) # B \<Longrightarrow> v < key \<Longrightarrow> key \<le> u \<Longrightarrow> see p a \<Longrightarrow> see q b \<Longrightarrow> found see L key (p, q, u)"
  unfolding found_def place_def fst_conv snd_conv by blast

context rlu_engine begin

lemma search:
  assumes "sect n V m" "rchain (vheap V) L" "L = A @ (a, v) # (b, u) # B" "sees m p a" "sees m q b" "v < key"
    "key \<le> snd (last L)" "length B < w"
  shows "runs t (rlu_search w self key p q) m (\<lambda>r m'. m' = m \<and> found (sees m) L key r)"
  using assms(3-8)
proof (induction B arbitrary: A a v b u p q w)
  case Nil
  obtain w' where w: "w = Suc w'" using Nil.prems by (cases w) auto
  obtain y where y: "vheap V b = Some \<lparr>nval = u, nnext = y\<rparr>"
    using rchain_node[OF assms(2), of b u] Nil.prems(1) by auto
  have "key \<le> u" using Nil.prems by simp
  then have "found (sees m) L key (p, q, u)" using Nil.prems foundI by metis
  then show ?case using \<open>key \<le> u\<close> by (simp add: w runs_run[OF read_val[OF assms(1) Nil.prems(3) y]])
next
  case (Cons c B)
  obtain w' where w: "w = Suc w'" using Cons.prems by (cases w) auto
  obtain d x where c: "c = (d, x)" by (cases c)
  have L: "L = (A @ [(a, v)]) @ (b, u) # (d, x) # B" using Cons.prems(1) c by simp
  have y: "vheap V b = Some \<lparr>nval = u, nnext = ObjP d\<rparr>" using rchain_link assms(2) L by metis
  obtain z where z: "vheap V d = Some \<lparr>nval = x, nnext = z\<rparr>"
    using rchain_node[OF assms(2), of d x] L by auto
  note v = runs_run[OF read_val[OF assms(1) Cons.prems(3) y]]
  show ?case
  proof (cases "key \<le> u")
    case True
    then have "found (sees m) L key (p, q, u)" using Cons.prems foundI by metis
    then show ?thesis using True by (simp add: w v)
  next
    case False
    have e: "run t (nd_rd q nnext) m = Returned (ObjP d) m"
      using read_next[OF assms(1) Cons.prems(3) y] by simp
    have "runs t (RLU_DEREF self (nd_rd q nnext)) m (\<lambda>r m'.
        runs t (rlu_search w' self key q r) m' (\<lambda>r m'. m' = m \<and> found (sees m) L key r))"
    proof (rule runs_mono[OF deref[OF assms(1) e z]])
      fix r m' assume r: "m' = m \<and> sees m r d"
      show "runs t (rlu_search w' self key q r) m' (\<lambda>r m'. m' = m \<and> found (sees m) L key r)"
        using Cons.IH[OF L Cons.prems(3), of r w'] r False Cons.prems(5,6) w by simp
    qed
    then show ?thesis using False by (simp add: w v)
  qed
qed

lemma find:
  assumes "sect n V m" "rlist V l L" "LIST_VAL_MIN < key" "key \<le> LIST_VAL_MAX" "2 ^ 32 \<le> w"
  shows "runs t (rlu_find w self l key) m (\<lambda>r m'. m' = m \<and> found (sees m) L key r)"
proof -
  have s: "sorted_list L" and ch: "rchain (vheap V) L" and h: "vlists V l = Some (ObjP (fst (hd L)))"
    using assms(2) by (auto simp: rlist_def)
  obtain a v b u B where L: "L = [] @ (a, v) # (b, u) # B"
    using s by (cases L; cases "tl L") (auto simp: sorted_list_def)
  have v: "v = LIST_VAL_MIN" and la: "snd (last L) = LIST_VAL_MAX" using s by (auto simp: sorted_list_def L)
  have len: "length B < w" using sorted_list_length[OF s] assms(5) by (simp add: L)
  have e: "run t (rl_head l) m = Returned (ObjP a) m"
    using sect_env[OF assms(1)] h by (simp add: rl_head_def run_atomic L)
  have na: "vheap V a = Some \<lparr>nval = v, nnext = ObjP b\<rparr>" using rchain_link ch L by metis
  obtain y where nb: "vheap V b = Some \<lparr>nval = u, nnext = y\<rparr>" using rchain_node[OF ch, of b u] L by auto
  have "runs t (RLU_DEREF self (rl_head l)) m (\<lambda>p m1.
      runs t (RLU_DEREF self (nd_rd p nnext)) m1 (\<lambda>q m2.
      runs t (rlu_search w self key p q) m2 (\<lambda>r m'. m' = m \<and> found (sees m) L key r)))"
  proof (rule runs_mono[OF deref[OF assms(1) e na]])
    fix p m1 assume p: "m1 = m \<and> sees m p a"
    then have e': "run t (nd_rd p nnext) m = Returned (ObjP b) m"
      using read_next[OF assms(1) _ na] by simp
    show "runs t (RLU_DEREF self (nd_rd p nnext)) m1 (\<lambda>q m2.
        runs t (rlu_search w self key p q) m2 (\<lambda>r m'. m' = m \<and> found (sees m) L key r))"
      unfolding conjunct1[OF p]
    proof (rule runs_mono[OF deref[OF assms(1) e' nb]])
      fix q m2 assume "m2 = m \<and> sees m q b"
      then show "runs t (rlu_search w self key p q) m2 (\<lambda>r m'. m' = m \<and> found (sees m) L key r)"
        using search[OF assms(1) ch L _ _ _ _ len, of p q key] p assms(3,4) v la by simp
    qed
  qed
  then show ?thesis by (simp add: rlu_find_def)
qed

end

subsection \<open>Updates\<close>

text \<open>What the updates have in common: lock two neighbours or give up, \<open>X\<close> being what follows an abort.\<close>

definition lock_both :: "nat \<Rightarrow> nat \<Rightarrow> addr \<Rightarrow> addr \<Rightarrow> 'a rlu \<Rightarrow> (addr \<Rightarrow> addr \<Rightarrow> 'a rlu) \<Rightarrow> 'a rlu" where
  "lock_both g self p q X K =
    bind (rlu_try_lock self p sizeof_node) (\<lambda>(ok, p).
    if ok = 0 then bind (rlu_abort g self) (\<lambda>_. X) else
    bind (rlu_try_lock self q sizeof_node) (\<lambda>(ok, q).
    if ok = 0 then bind (rlu_abort g self) (\<lambda>_. X) else K p q))"

definition add_attempt :: "nat \<Rightarrow> nat \<Rightarrow> nat \<Rightarrow> ptr \<Rightarrow> val_t \<Rightarrow> int rlu \<Rightarrow> int rlu" where
  "add_attempt w g self l key X =
    bind (rlu_reader_lock g self) (\<lambda>_.
    bind (rlu_find w self l key) (\<lambda>(p, q, v).
    if v \<noteq> key then lock_both g self p q X (\<lambda>p q.
      bind (rlu_link self key p q) (\<lambda>_. bind (rlu_reader_unlock g self) (\<lambda>_. Ret 0)))
    else bind (rlu_reader_unlock g self) (\<lambda>_. Ret 0)))"

definition remove_attempt :: "nat \<Rightarrow> nat \<Rightarrow> nat \<Rightarrow> ptr \<Rightarrow> val_t \<Rightarrow> int rlu \<Rightarrow> int rlu" where
  "remove_attempt w g self l key X =
    bind (rlu_reader_lock g self) (\<lambda>_.
    bind (rlu_find w self l key) (\<lambda>(p, q, v).
    if v = key then
      bind (RLU_DEREF self (nd_rd q nnext)) (\<lambda>n. lock_both g self p q X (\<lambda>p q.
      bind (rlu_assign_pointer p n) (\<lambda>_. bind (rlu_free self q) (\<lambda>_.
      bind (rlu_reader_unlock g self) (\<lambda>_. Ret 0)))))
    else bind (rlu_reader_unlock g self) (\<lambda>_. Ret 0)))"

lemma attempts:
  "rlu_list_add w g (Suc f) self l key = add_attempt w g self l key (rlu_list_add w g f self l key)"
  "rlu_list_try_add w g self l key = add_attempt w g self l key (Ret 2)"
  "rlu_list_remove w g (Suc f) self l key = remove_attempt w g self l key (rlu_list_remove w g f self l key)"
  "rlu_list_try_remove w g self l key = remove_attempt w g self l key (Ret 2)"
  unfolding add_attempt_def remove_attempt_def lock_both_def rlu_list_try_add_def rlu_list_try_remove_def
    rlu_list_add.simps rlu_list_remove.simps by (rule refl)+

lemma tbl_frame [simp]:
  "rlu_tbl T (V\<lparr>vpend := P\<rparr>) F = rlu_tbl T V F" "rlu_tbl T (V\<lparr>vmine := P\<rparr>) F = rlu_tbl T V F"
  "rlu_tbl T (V\<lparr>must_sync := b\<rparr>) F = rlu_tbl T V F" "rlu_tbl T (V\<lparr>vdirty := b\<rparr>) F = rlu_tbl T V F"
  by (simp_all add: rlu_tbl_def rlist_def)

context rlu_engine begin

lemma begin_section:
  assumes "rest n V m" "rlu_tbl T V F"
    and "\<And>V' m'. sect n V' m' \<Longrightarrow> rlu_tbl T V' F \<Longrightarrow> vmine V' = {} \<Longrightarrow> \<not> vdirty V' \<Longrightarrow> vpend V' \<subseteq> vpend V \<Longrightarrow> Q () m'"
  shows "runs t (rlu_reader_lock g self) m Q"
proof (rule runs_mono[OF enter[OF assms(1)]])
  fix a m' assume "\<exists>V'. settled V V' \<and> vmine V' = {} \<and> sect n V' m'"
  then obtain V' where V': "settled V V'" "vmine V' = {}" "sect n V' m'" by blast
  have "\<not> vdirty V'" "vpend V' \<subseteq> vpend V" using V'(1) by (auto simp: settled_def settle_def)
  then show "Q a m'" using assms(3)[OF V'(3) tbl_settled[OF V'(1) assms(2)] V'(2)] by simp
qed

lemma end_section:
  assumes "sect (Suc n) V m" "rlu_tbl T V F" "\<And>V' m'. rest n V' m' \<Longrightarrow> rlu_tbl T V' F \<Longrightarrow> Q () m'"
  shows "runs t (rlu_reader_unlock g self) m Q"
proof (rule runs_mono[OF leave[OF assms(1)]])
  fix a m'
  assume "\<exists>V'. settled (V\<lparr>vpend := vpend V \<union> vmine V, vmine := {}\<rparr>) V' \<and> rest n V' m'"
  then obtain V' where V': "settled (V\<lparr>vpend := vpend V \<union> vmine V, vmine := {}\<rparr>) V'" "rest n V' m'" by blast
  show "Q a m'" using assms(3)[OF V'(2) tbl_settled[OF V'(1)]] assms(2) by simp
qed

lemma give_up:
  assumes "sect n V m" "rlu_tbl T V F" "\<not> vdirty V" "must_sync V"
    and "\<And>V' m'. rest n V' m' \<Longrightarrow> rlu_tbl T V' F \<Longrightarrow> vpend V' = {} \<Longrightarrow> Q () m'"
  shows "runs t (rlu_abort g self) m Q"
proof (rule runs_mono[OF abandon[OF assms(1,3)]])
  fix a m'
  assume "\<exists>V'. settled (V\<lparr>vmine := {}\<rparr>) V' \<and> rest n V' m' \<and> (must_sync V \<longrightarrow> vpend V' = {})"
  then obtain V' where V': "settled (V\<lparr>vmine := {}\<rparr>) V'" "rest n V' m'" "vpend V' = {}" using assms(4) by blast
  show "Q a m'" using assms(5)[OF V'(2) tbl_settled[OF V'(1)] V'(3)] assms(2) by simp
qed

lemma lock_both:
  assumes "sect n V m" "rlu_tbl T V F" "\<not> vdirty V" "vmine V = {}"
    and "sees m p a" "vheap V a = Some x" "sees m q b" "vheap V b = Some y" "a \<noteq> b"
    and fail: "\<And>V' m'. vpend V \<noteq> {} \<Longrightarrow> rest n V' m' \<Longrightarrow> rlu_tbl T V' F \<Longrightarrow> vpend V' = {} \<Longrightarrow> runs t X m' Q"
    and ok: "\<And>p q m'. sect n (V\<lparr>vmine := {b, a}\<rparr>) m' \<Longrightarrow> sees m' p a \<Longrightarrow> sees m' q b \<Longrightarrow>
      (\<And>c r. c \<noteq> a \<Longrightarrow> c \<noteq> b \<Longrightarrow> sees m r c \<Longrightarrow> sees m' r c) \<Longrightarrow> runs t (K p q) m' Q"
  shows "runs t (lock_both g self p q X K) m Q"
proof (cases "a \<in> vpend V")
  case True
  have "runs t (rlu_abort g self) m' (\<lambda>_ m'. runs t X m' Q)" if "sect n (V\<lparr>must_sync := True\<rparr>) m'" for m'
    by (rule give_up[OF that]) (use assms(2,3) fail True in auto)
  then show ?thesis
    unfolding lock_both_def runs_bind by (intro runs_mono[OF lock_pending[OF assms(1,5) True]]) auto
next
  case False
  then have A: "a \<notin> vpend V \<union> vmine V" "card (vmine V) < 90" using assms(4) by simp_all
  let ?V = "V\<lparr>vmine := {a}\<rparr>"
  have second: "runs t (rlu_try_lock self q sizeof_node) m1 (\<lambda>(ok, q) m'.
      runs t (if ok = 0 then bind (rlu_abort g self) (\<lambda>_. X) else K p' q) m' Q)"
    if m1: "sect n ?V m1" "sees m1 p' a" "\<And>c r. c \<noteq> a \<Longrightarrow> sees m r c \<Longrightarrow> sees m1 r c" for p' m1
  proof (cases "b \<in> vpend V")
    case True
    have q: "sees m1 q b" by (rule m1(3)) (use assms(7,9) in auto)
    have "runs t (rlu_abort g self) m' (\<lambda>_ m'. runs t X m' Q)" if "sect n (?V\<lparr>must_sync := True\<rparr>) m'" for m'
      by (rule give_up[OF that]) (use assms(2,3) fail True in auto)
    then show ?thesis
      using lock_pending[OF m1(1) q] True by (auto elim!: runs_mono)
  next
    case False
    have q: "sees m1 q b" by (rule m1(3)) (use assms(7,9) in auto)
    have B: "b \<notin> vpend ?V \<union> vmine ?V" "card (vmine ?V) < 90" using False assms(9) by simp_all
    have y: "vheap ?V b = Some y" using assms(8) by simp
    show ?thesis
    proof (rule runs_mono[OF lock_free[OF m1(1) q y B]], clarify)
      fix q' m'
      assume s: "sect n (?V\<lparr>vmine := insert b (vmine ?V)\<rparr>) m'" "sees m' q' b"
        "\<forall>c r. c \<noteq> b \<longrightarrow> sees m1 r c \<longrightarrow> sees m' r c"
      have "runs t (K p' q') m' Q"
        by (rule ok) (use s m1(2,3) assms(9) in simp_all)
      then show "runs t (if (1::int) = 0 then bind (rlu_abort g self) (\<lambda>_. X) else K p' q') m' Q" by simp
    qed
  qed
  show ?thesis
    unfolding lock_both_def runs_bind
  proof (rule runs_mono[OF lock_free[OF assms(1,5,6) A]], clarify)
    fix p' m1
    assume s: "sect n (V\<lparr>vmine := insert a (vmine V)\<rparr>) m1" "sees m1 p' a"
      "\<forall>c r. c \<noteq> a \<longrightarrow> sees m r c \<longrightarrow> sees m1 r c"
    have "runs t (bind (rlu_try_lock self q sizeof_node)
        (\<lambda>(ok, q). if ok = 0 then bind (rlu_abort g self) (\<lambda>_. X) else K p' q)) m1 Q"
      unfolding runs_bind by (rule runs_mono[OF second[of m1 p']]) (use s assms(4) in auto)
    then show "runs t (if (1::int) = 0 then bind (rlu_abort g self) (\<lambda>_. X)
        else bind (rlu_try_lock self q sizeof_node) (\<lambda>(ok, q). if ok = 0 then bind (rlu_abort g self) (\<lambda>_. X) else K p' q)) m1 Q"
      by (simp only: one_neq_zero if_False)
  qed
qed

lemma assign:
  assumes "sect n V m" "sees m p a" "vheap V a = Some x" "sees m q b" "vheap V b = Some y"
  shows "runs t (rlu_assign_pointer p q) m (\<lambda>_ m'.
    sect n (V\<lparr>vheap := (vheap V)(a \<mapsto> x\<lparr>nnext := ObjP b\<rparr>), vdirty := True\<rparr>) m' \<and>
    (\<forall>c r. sees m r c \<longrightarrow> sees m' r c))"
  using write_node[OF assms(1-3)] by (simp add: rlu_assign_pointer_def runs_run[OF actual[OF assms(1,4,5)]])

lemma link:
  assumes "sect n V m" "sees m p a" "vheap V a = Some \<lparr>nval = v, nnext = ObjP b\<rparr>" "sees m q b" "vheap V b = Some y"
  shows "runs t (rlu_link self key p q) m (\<lambda>_ m'. \<exists>c. vheap V c = None \<and>
    sect n (V\<lparr>vheap := (vheap V)(c \<mapsto> \<lparr>nval = key, nnext = ObjP b\<rparr>, a \<mapsto> \<lparr>nval = v, nnext = ObjP c\<rparr>), vdirty := True\<rparr>) m')"
  unfolding rlu_link_def runs_bind
proof (rule runs_mono[OF new_node[OF assms(1)]], clarify)
  fix r m1 c x
  assume c: "vheap V c = None" "sect n (V\<lparr>vheap := (vheap V)(c \<mapsto> x)\<rparr>) m1" "sees m1 r c"
    "\<forall>b r. sees m r b \<longrightarrow> sees m1 r b"
  have ne: "c \<noteq> a" "c \<noteq> b" using c(1) assms(3,5) by auto
  let ?V2 = "V\<lparr>vheap := (vheap V)(c \<mapsto> x\<lparr>nval := key\<rparr>), vdirty := True\<rparr>"
  let ?V3 = "V\<lparr>vheap := (vheap V)(c \<mapsto> \<lparr>nval = key, nnext = ObjP b\<rparr>), vdirty := True\<rparr>"
  have last: "runs t (rlu_assign_pointer p r) m3 (\<lambda>_ m'. sect n (V\<lparr>vheap := (vheap V)(c \<mapsto> \<lparr>nval = key, nnext = ObjP b\<rparr>,
      a \<mapsto> \<lparr>nval = v, nnext = ObjP c\<rparr>), vdirty := True\<rparr>) m')"
    if "sect n ?V3 m3" "sees m3 p a" "sees m3 r c" for m3
    using assign[OF that(1,2) _ that(3), of "\<lparr>nval = v, nnext = ObjP b\<rparr>"] assms(3) ne by (auto elim!: runs_mono)
  have mid: "runs t (rlu_assign_pointer r q) m2 (\<lambda>_ m'. sect n ?V3 m' \<and> (\<forall>c r. sees m2 r c \<longrightarrow> sees m' r c))"
    if "sect n ?V2 m2" "sees m2 r c" "sees m2 q b" for m2
    using assign[OF that(1,2) _ that(3), of "x\<lparr>nval := key\<rparr>"] assms(5) ne by (cases x) (auto elim!: runs_mono)
  have first: "runs t (nd_wr r (\<lambda>n. n\<lparr>nval := key\<rparr>)) m1 (\<lambda>_ m'. sect n ?V2 m' \<and> (\<forall>c r. sees m1 r c \<longrightarrow> sees m' r c))"
    using write_node[OF c(2,3), of x "\<lambda>n. n\<lparr>nval := key\<rparr>"] by simp
  show "runs t (nd_wr r (\<lambda>n. n\<lparr>nval := key\<rparr>)) m1 (\<lambda>_ m'. runs t (rlu_assign_pointer r q) m' (\<lambda>_ m'.
      runs t (rlu_assign_pointer p r) m' (\<lambda>_ m'. \<exists>c. vheap V c = None \<and> sect n (V\<lparr>vheap := (vheap V)
        (c \<mapsto> \<lparr>nval = key, nnext = ObjP b\<rparr>, a \<mapsto> \<lparr>nval = v, nnext = ObjP c\<rparr>), vdirty := True\<rparr>) m')))"
  proof (rule runs_mono[OF first], clarify)
    fix m2 assume m2: "sect n ?V2 m2" "\<forall>c r. sees m1 r c \<longrightarrow> sees m2 r c"
    then have s: "sees m2 r c" "sees m2 q b" "sees m2 p a" using c(3,4) assms(2,4) by blast+
    show "runs t (rlu_assign_pointer r q) m2 (\<lambda>_ m'.
      runs t (rlu_assign_pointer p r) m' (\<lambda>_ m'. \<exists>c. vheap V c = None \<and> sect n (V\<lparr>vheap := (vheap V)
        (c \<mapsto> \<lparr>nval = key, nnext = ObjP b\<rparr>, a \<mapsto> \<lparr>nval = v, nnext = ObjP c\<rparr>), vdirty := True\<rparr>) m'))"
    proof (rule runs_mono[OF mid[OF m2(1) s(1,2)]], clarify)
      fix m3 assume "sect n ?V3 m3" "\<forall>c r. sees m2 r c \<longrightarrow> sees m3 r c"
      then show "runs t (rlu_assign_pointer p r) m3 (\<lambda>_ m'. \<exists>c. vheap V c = None \<and> sect n (V\<lparr>vheap := (vheap V)
        (c \<mapsto> \<lparr>nval = key, nnext = ObjP b\<rparr>, a \<mapsto> \<lparr>nval = v, nnext = ObjP c\<rparr>), vdirty := True\<rparr>) m')"
        using s c(1) by (blast intro: runs_mono[OF last])
    qed
  qed
qed

end

text \<open>Where a walk has ended in a list of a table, and what its update makes of the table.\<close>

lemma found_place:
  assumes "found see L key (p, q, u)" "sorted_list L" "rchain H L"
  obtains A a v b B y where "place L key A a v b u B" "see p a" "see q b" "a \<noteq> b"
    "H a = Some \<lparr>nval = v, nnext = ObjP b\<rparr>" "H b = Some \<lparr>nval = u, nnext = y\<rparr>" "key \<in> snd ` set L \<longleftrightarrow> u = key"
proof -
  obtain A a v b B where p: "place L key A a v b u B" "see p a" "see q b"
    using assms(1) by (auto simp: found_def)
  have L: "L = A @ (a, v) # (b, u) # B" using p(1) by (simp add: place_def)
  obtain y where "H b = Some \<lparr>nval = u, nnext = y\<rparr>" using rchain_node[OF assms(3), of b u] L by auto
  moreover have "H a = Some \<lparr>nval = v, nnext = ObjP b\<rparr>" using rchain_link assms(3) L by metis
  moreover have "a \<noteq> b" using assms(2) by (simp add: sorted_list_def L)
  ultimately show ?thesis using that[OF p _ _ _ place_mem[OF assms(2) p(1)]] by blast
qed

lemma key_in_rkeys: "key_ok k \<Longrightarrow> k \<in> rkeys L \<longleftrightarrow> k \<in> snd ` set L"
  by (auto simp: rkeys_def)

lemma tbl_insert:
  assumes "rlu_tbl T V F" "0 \<le> i" "i < n_buckets T" "place (F i) key A a v b u B" "u \<noteq> key"
    "vheap V c = None" "valid_key key" "c_rem key (n_buckets T) = i"
  shows "rlu_tbl T (V\<lparr>vheap := (vheap V)(c \<mapsto> \<lparr>nval = key, nnext = ObjP b\<rparr>, a \<mapsto> \<lparr>nval = v, nnext = ObjP c\<rparr>)\<rparr>)
    (F(i := A @ (a, v) # (c, key) # (b, u) # B))"
proof (rule tbl_upd[OF assms(1-3)])
  let ?V = "V\<lparr>vheap := (vheap V)(c \<mapsto> \<lparr>nval = key, nnext = ObjP b\<rparr>, a \<mapsto> \<lparr>nval = v, nnext = ObjP c\<rparr>)\<rparr>"
  let ?L = "A @ (a, v) # (c, key) # (b, u) # B"
  note t = tblD[OF assms(1-3)]
  have L: "F i = A @ (a, v) # (b, u) # B" using assms(4) by (simp add: place_def)
  have c: "c \<notin> fst ` set (F i)" using rlist_nodes[OF t(1)] assms(6) by fastforce
  have fr: "c \<notin> vfreed V" using assms(1,6) by (auto simp: rlu_tbl_def)
  have s: "sorted_list (F i)" "rchain (vheap V) (F i)" "vlists V (buckets T i) = Some (ObjP (fst (hd (F i))))"
    using t(1) by (auto simp: rlist_def)
  have d: "distinct (map fst (F i))" using s(1) by (simp add: sorted_list_def)
  have k: "key_ok key" using assms(7) by (rule valid_key_ok)
  note ins = place_insert[OF s(1) assms(4,5) c k]
  have "rchain (vheap ?V) ?L" using rchain_insert[of "vheap V" A a v b u B c key] s(2) d c by (simp add: L)
  moreover have "fst (hd ?L) = fst (hd (F i))" by (cases A) (simp_all add: L)
  ultimately show "rlist ?V (buckets T i) ?L" using ins(1) s(3) by (simp add: rlist_def)
  show "fst ` set ?L \<inter> vfreed ?V = {}" using t(2) fr by (auto simp: L)
  show "0 \<le> k \<and> c_rem k (n_buckets T) = i" if "k \<in> rkeys ?L" for k
    using that t(3) assms(7,8) unfolding ins(2) by (auto simp: valid_key_def)
  show "vheap ?V x = vheap V x \<and> x \<notin> vfreed ?V \<and> x \<notin> fst ` set ?L"
    if j: "0 \<le> j" "j < n_buckets T" "j \<noteq> i" "x \<in> fst ` set (F j)" for j x
  proof -
    have "fst ` set (F i) \<inter> fst ` set (F j) = {}" by (rule t(4)) (use j in auto)
    then have "x \<notin> fst ` set (F i)" using j(4) by blast
    moreover have "x \<notin> vfreed V" using tblD(2)[OF assms(1) j(1,2)] j(4) by blast
    moreover have "x \<noteq> c" using rlist_nodes[OF tblD(1)[OF assms(1) j(1,2)] j(4)] assms(6) by auto
    ultimately show ?thesis by (simp add: L)
  qed
qed (use assms(1) in \<open>auto simp: rlu_tbl_def\<close>)

lemma tbl_delete:
  assumes "rlu_tbl T V F" "0 \<le> i" "i < n_buckets T" "F i = A @ (a, v) # (b, key) # (c, u) # B"
    "sorted_list (A @ (a, v) # (c, u) # B)" "rkeys (A @ (a, v) # (c, u) # B) = rkeys (F i) - {key}"
  shows "rlu_tbl T (V\<lparr>vheap := (vheap V)(a \<mapsto> \<lparr>nval = v, nnext = ObjP c\<rparr>), vfreed := insert b (vfreed V)\<rparr>)
    (F(i := A @ (a, v) # (c, u) # B))"
proof (rule tbl_upd[OF assms(1-3)])
  let ?V = "V\<lparr>vheap := (vheap V)(a \<mapsto> \<lparr>nval = v, nnext = ObjP c\<rparr>), vfreed := insert b (vfreed V)\<rparr>"
  let ?L = "A @ (a, v) # (c, u) # B"
  note t = tblD[OF assms(1-3)]
  have s: "sorted_list (F i)" "rchain (vheap V) (F i)" "vlists V (buckets T i) = Some (ObjP (fst (hd (F i))))"
    using t(1) by (auto simp: rlist_def)
  have d: "distinct (map fst (F i))" using s(1) by (simp add: sorted_list_def)
  have "rchain (vheap ?V) ?L" using rchain_delete[of "vheap V" A a v b key c u B] s(2) d by (simp add: assms(4))
  moreover have "fst (hd ?L) = fst (hd (F i))" by (cases A) (simp_all add: assms(4))
  ultimately show "rlist ?V (buckets T i) ?L" using assms(5) s(3) by (simp add: rlist_def)
  show "fst ` set ?L \<inter> vfreed ?V = {}" using t(2) d by (auto simp: assms(4))
  show "0 \<le> k \<and> c_rem k (n_buckets T) = i" if "k \<in> rkeys ?L" for k
    using that t(3) unfolding assms(6) by auto
  show "vheap ?V x = vheap V x \<and> x \<notin> vfreed ?V \<and> x \<notin> fst ` set ?L"
    if j: "0 \<le> j" "j < n_buckets T" "j \<noteq> i" "x \<in> fst ` set (F j)" for j x
  proof -
    have "fst ` set (F i) \<inter> fst ` set (F j) = {}" by (rule t(4)) (use j in auto)
    then have "x \<notin> fst ` set (F i)" using j(4) by blast
    moreover have "x \<notin> vfreed V" using tblD(2)[OF assms(1) j(1,2)] j(4) by blast
    ultimately show ?thesis by (simp add: assms(4))
  qed
  have "b \<in> dom (vheap V)" using rchain_node[OF s(2), of b key] by (auto simp: assms(4))
  then show "vfreed ?V \<subseteq> dom (vheap ?V)" using assms(1) by (auto simp: rlu_tbl_def)
qed (use assms(1) in \<open>simp_all add: rlu_tbl_def\<close>)

end
