(* ===== verification/RluCalls.thy ===== *)
theory RluCalls
  imports RluTable RcuTable
begin

text \<open>
  The calls on a table as operations of a set: one attempt of an update, the blocking calls with at most
  two attempts, and sequences of calls.
\<close>

subsection \<open>One attempt\<close>

context rlu_engine begin

lemma contains:
  assumes "rest (Suc n) V m" "rlu_tbl T V F" "0 \<le> i" "i < n_buckets T" "key_ok key" "2 ^ 32 \<le> w"
    and Q: "\<And>V' m'. rest n V' m' \<Longrightarrow> rlu_tbl T V' F \<Longrightarrow> Q (key \<in> rkeys (F i)) m'"
  shows "runs t (rlu_list_contains w g self (buckets T i) key) m Q"
  unfolding rlu_list_contains_def runs_bind
proof (rule begin_section[OF assms(1,2)])
  fix V1 m1
  assume s: "sect (Suc n) V1 m1" "rlu_tbl T V1 F"
  have l: "rlist V1 (buckets T i) (F i)" by (rule tblD(1)[OF s(2) assms(3,4)])
  have sl: "sorted_list (F i)" "rchain (vheap V1) (F i)" using l by (auto simp: rlist_def)
  show "runs t (rlu_find w self (buckets T i) key) m1 (\<lambda>r m'. runs t (case r of (p, q, v) \<Rightarrow>
      bind (rlu_reader_unlock g self) (\<lambda>_. Ret (v = key))) m' Q)"
  proof (rule runs_mono[OF find[OF s(1) l _ _ assms(6)]])
    fix r m2 assume "m2 = m1 \<and> found (sees m1) (F i) key r"
    then have r: "m2 = m1" "found (sees m1) (F i) key (fst r, fst (snd r), snd (snd r))" by simp_all
    have "snd (snd r) = key \<longleftrightarrow> key \<in> rkeys (F i)"
      using found_place[OF r(2) sl] key_in_rkeys[OF assms(5)] by metis
    then have "runs t (bind (rlu_reader_unlock g self) (\<lambda>_. Ret (snd (snd r) = key))) m1 Q"
      unfolding runs_bind by (intro end_section[OF s]) (simp add: Q)
    then show "runs t (case r of (p, q, v) \<Rightarrow> bind (rlu_reader_unlock g self) (\<lambda>_. Ret (v = key))) m2 Q"
      by (simp add: r(1) split_beta)
  qed (use assms(5) in \<open>auto simp: key_ok_def\<close>)
qed

lemma add_attempt:
  assumes "rest (Suc n) V m" "rlu_tbl T V F" "0 \<le> i" "i < n_buckets T" "valid_key key"
    "c_rem key (n_buckets T) = i" "2 ^ 32 \<le> w"
    and X: "\<And>V' m'. key \<notin> rkeys (F i) \<Longrightarrow> vpend V \<noteq> {} \<Longrightarrow> rest (Suc n) V' m' \<Longrightarrow> rlu_tbl T V' F \<Longrightarrow>
      vpend V' = {} \<Longrightarrow> runs t X m' Q"
    and Q: "\<And>V' m' L. rest n V' m' \<Longrightarrow> rlu_tbl T V' (F(i := L)) \<Longrightarrow> rkeys L = insert key (rkeys (F i)) \<Longrightarrow> Q 0 m'"
  shows "runs t (add_attempt w g self (buckets T i) key X) m Q"
  unfolding add_attempt_def runs_bind
proof (rule begin_section[OF assms(1,2)])
  fix V1 m1
  assume s: "sect (Suc n) V1 m1" "rlu_tbl T V1 F" and v1: "vmine V1 = {}" "\<not> vdirty V1" "vpend V1 \<subseteq> vpend V"
  have l: "rlist V1 (buckets T i) (F i)" by (rule tblD(1)[OF s(2) assms(3,4)])
  have sl: "sorted_list (F i)" "rchain (vheap V1) (F i)" using l by (auto simp: rlist_def)
  have ko: "key_ok key" by (rule valid_key_ok[OF assms(5)])
  let ?K = "\<lambda>p q. bind (rlu_link self key p q) (\<lambda>_. bind (rlu_reader_unlock g self) (\<lambda>_. Ret 0))"
  have body: "runs t (if u \<noteq> key then lock_both g self p q X ?K
      else bind (rlu_reader_unlock g self) (\<lambda>_. Ret 0)) m1 Q" if f: "found (sees m1) (F i) key (p, q, u)" for p q u
  proof -
    obtain A a v b B y where pl: "place (F i) key A a v b u B" "sees m1 p a" "sees m1 q b" "a \<noteq> b"
      "vheap V1 a = Some \<lparr>nval = v, nnext = ObjP b\<rparr>" "vheap V1 b = Some \<lparr>nval = u, nnext = y\<rparr>"
      "key \<in> snd ` set (F i) \<longleftrightarrow> u = key" by (rule found_place[OF f sl])
    show ?thesis
    proof (cases "u = key")
      case True
      then have "key \<in> rkeys (F i)" using pl(7) key_in_rkeys[OF ko] by blast
      then have "Q 0 m'" if "rest n V' m'" "rlu_tbl T V' F" for V' m'
        using Q[of V' m' "F i"] that by (simp add: insert_absorb)
      then have "runs t (bind (rlu_reader_unlock g self) (\<lambda>_. Ret 0)) m1 Q"
        unfolding runs_bind by (intro end_section[OF s]) simp
      then show ?thesis using True by (simp only: simp_thms if_False)
    next
      case False
      then have nk: "key \<notin> rkeys (F i)" using pl(7) key_in_rkeys[OF ko] by blast
      have "runs t (lock_both g self p q X ?K) m1 Q"
      proof (rule lock_both[OF s v1(2,1) pl(2,5,3,6,4)])
        show "runs t X m' Q" if "vpend V1 \<noteq> {}" "rest (Suc n) V' m'" "rlu_tbl T V' F" "vpend V' = {}" for V' m'
          using X[OF nk _ that(2-4)] that(1) v1(3) by blast
        fix p q m2
        assume m2: "sect (Suc n) (V1\<lparr>vmine := {b, a}\<rparr>) m2" "sees m2 p a" "sees m2 q b"
        show "runs t (?K p q) m2 Q"
          unfolding runs_bind
        proof (rule runs_mono[OF link[OF m2(1,2) _ m2(3)]])
          show "vheap (V1\<lparr>vmine := {b, a}\<rparr>) a = Some \<lparr>nval = v, nnext = ObjP b\<rparr>" using pl(5) by simp
          show "vheap (V1\<lparr>vmine := {b, a}\<rparr>) b = Some \<lparr>nval = u, nnext = y\<rparr>" using pl(6) by simp
          fix r m3
          let ?V = "\<lambda>c. V1\<lparr>vmine := {b, a}, vheap := (vheap V1)(c \<mapsto> \<lparr>nval = key, nnext = ObjP b\<rparr>,
            a \<mapsto> \<lparr>nval = v, nnext = ObjP c\<rparr>), vdirty := True\<rparr>"
          assume "\<exists>c. vheap (V1\<lparr>vmine := {b, a}\<rparr>) c = None \<and> sect (Suc n) (V1\<lparr>vmine := {b, a},
            vheap := (vheap (V1\<lparr>vmine := {b, a}\<rparr>))(c \<mapsto> \<lparr>nval = key, nnext = ObjP b\<rparr>,
            a \<mapsto> \<lparr>nval = v, nnext = ObjP c\<rparr>), vdirty := True\<rparr>) m3"
          then obtain c where c: "vheap V1 c = None" "sect (Suc n) (?V c) m3" by auto
          let ?L = "A @ (a, v) # (c, key) # (b, u) # B"
          have "rlu_tbl T (V1\<lparr>vmine := {b, a}, vheap := (vheap V1)(c \<mapsto> \<lparr>nval = key, nnext = ObjP b\<rparr>,
            a \<mapsto> \<lparr>nval = v, nnext = ObjP c\<rparr>)\<rparr>) (F(i := ?L))"
            using tbl_insert[of T "V1\<lparr>vmine := {b, a}\<rparr>" F i key A a v b u B c] s(2) assms(3-6) pl(1) False c(1) by simp
          then have tb: "rlu_tbl T (?V c) (F(i := ?L))" by (simp only: tbl_frame)
          have "c \<notin> fst ` set (F i)" using rlist_nodes[OF l] c(1) by fastforce
          then have "rkeys ?L = insert key (rkeys (F i))" using place_insert(2)[OF sl(1) pl(1) False _ ko] by simp
          then show "runs t (rlu_reader_unlock g self) m3 (\<lambda>a m'. runs t (Ret 0) m' Q)"
            by (intro end_section[OF c(2) tb]) (simp add: Q)
        qed
      qed
      then show ?thesis using False by (simp only: simp_thms if_True)
    qed
  qed
  show "runs t (rlu_find w self (buckets T i) key) m1 (\<lambda>r m'. runs t (case r of (p, q, v) \<Rightarrow>
      if v \<noteq> key then lock_both g self p q X ?K else bind (rlu_reader_unlock g self) (\<lambda>_. Ret 0)) m' Q)"
  proof (rule runs_mono[OF find[OF s(1) l _ _ assms(7)]])
    fix r m2 assume "m2 = m1 \<and> found (sees m1) (F i) key r"
    then show "runs t (case r of (p, q, v) \<Rightarrow> if v \<noteq> key then lock_both g self p q X ?K
        else bind (rlu_reader_unlock g self) (\<lambda>_. Ret 0)) m2 Q"
      using body[of "fst r" "fst (snd r)" "snd (snd r)"] by (simp only: prod.collapse split_beta)
  qed (use ko in \<open>auto simp: key_ok_def\<close>)
qed

lemma unlink:
  assumes s: "sect (Suc n) V1 m1" "rlu_tbl T V1 F" and v1: "vmine V1 = {}" "\<not> vdirty V1"
    and i: "0 \<le> i" "i < n_buckets T" "key_ok key"
    and pl: "place (F i) key A a v b key B" "sees m1 p a" "sees m1 q b" "a \<noteq> b"
      "vheap V1 a = Some \<lparr>nval = v, nnext = ObjP b\<rparr>" "vheap V1 b = Some \<lparr>nval = key, nnext = y\<rparr>"
    and X: "\<And>V' m'. vpend V1 \<noteq> {} \<Longrightarrow> rest (Suc n) V' m' \<Longrightarrow> rlu_tbl T V' F \<Longrightarrow> vpend V' = {} \<Longrightarrow> runs t X m' Q"
    and Q: "\<And>V' m' L. rest n V' m' \<Longrightarrow> rlu_tbl T V' (F(i := L)) \<Longrightarrow> rkeys L = rkeys (F i) - {key} \<Longrightarrow> Q 0 m'"
  shows "runs t (bind (RLU_DEREF self (nd_rd q nnext)) (\<lambda>n. lock_both g self p q X (\<lambda>p q.
      bind (rlu_assign_pointer p n) (\<lambda>_. bind (rlu_free self q) (\<lambda>_.
      bind (rlu_reader_unlock g self) (\<lambda>_. Ret (0::int))))))) m1 Q"
proof -
  have l: "rlist V1 (buckets T i) (F i)" by (rule tblD(1)[OF s(2) i(1,2)])
  have sl: "sorted_list (F i)" "rchain (vheap V1) (F i)" using l by (auto simp: rlist_def)
  obtain c x C where B: "B = (c, x) # C" "sorted_list (A @ (a, v) # B)" "rkeys (A @ (a, v) # B) = rkeys (F i) - {key}"
    by (rule place_delete[OF sl(1) pl(1) i(3)])
  have L: "F i = A @ (a, v) # (b, key) # (c, x) # C" using pl(1) B(1) by (simp add: place_def)
  have ne: "c \<noteq> a" "c \<noteq> b" using sl(1) by (auto simp: sorted_list_def L)
  obtain z where z: "vheap V1 c = Some \<lparr>nval = x, nnext = z\<rparr>" using rchain_node[OF sl(2), of c x] L by auto
  have "vheap V1 b = Some \<lparr>nval = key, nnext = ObjP c\<rparr>"
    using rchain_link[of "vheap V1" "A @ [(a, v)]" b key c x C] sl(2) by (simp add: L)
  then have e: "run t (nd_rd q nnext) m1 = Returned (ObjP c) m1" using read_next[OF s(1) pl(3)] by simp
  show ?thesis
    unfolding runs_bind
  proof (rule runs_mono[OF deref[OF s(1) e z]], elim conjE, hypsubst)
    fix nx
    assume nx: "sees m1 nx c"
    show "runs t (lock_both g self p q X (\<lambda>p q. bind (rlu_assign_pointer p nx) (\<lambda>_.
        bind (rlu_free self q) (\<lambda>_. bind (rlu_reader_unlock g self) (\<lambda>_. Ret 0))))) m1 Q"
    proof (rule lock_both[OF s v1(2,1) pl(2,5,3,6,4) X])
      fix p q m2
      assume m2: "sect (Suc n) (V1\<lparr>vmine := {b, a}\<rparr>) m2" "sees m2 p a" "sees m2 q b"
        "\<And>d r. d \<noteq> a \<Longrightarrow> d \<noteq> b \<Longrightarrow> sees m1 r d \<Longrightarrow> sees m2 r d"
      let ?V = "V1\<lparr>vmine := {b, a}\<rparr>"
      let ?W = "?V\<lparr>vheap := (vheap V1)(a \<mapsto> \<lparr>nval = v, nnext = ObjP c\<rparr>), vdirty := True\<rparr>"
      have a: "runs t (rlu_assign_pointer p nx) m2 (\<lambda>_ m'. sect (Suc n) ?W m' \<and> (\<forall>c r. sees m2 r c \<longrightarrow> sees m' r c))"
        using assign[OF m2(1,2) _ m2(4)[OF ne nx], of "\<lparr>nval = v, nnext = ObjP b\<rparr>"] pl(5) z by simp
      have leave: "runs t (rlu_reader_unlock g self) m4 (\<lambda>_ m'. Q 0 m')"
        if "sect (Suc n) (?W\<lparr>vfreed := insert b (vfreed V1)\<rparr>) m4" for m4
      proof (rule end_section[OF that])
        have "rlu_tbl T (?V\<lparr>vheap := (vheap V1)(a \<mapsto> \<lparr>nval = v, nnext = ObjP c\<rparr>), vfreed := insert b (vfreed V1)\<rparr>)
            (F(i := A @ (a, v) # (c, x) # C))"
          using tbl_delete[of T ?V F i A a v b key c x C] s(2) i(1,2) L B by simp
        then show "rlu_tbl T (?W\<lparr>vfreed := insert b (vfreed V1)\<rparr>) (F(i := A @ (a, v) # (c, x) # C))"
          unfolding rlu_tbl_def rlist_def by simp
        fix V' m' assume "rest n V' m'" "rlu_tbl T V' (F(i := A @ (a, v) # (c, x) # C))"
        then show "Q 0 m'" by (rule Q) (use B in simp)
      qed
      have nf: "b \<notin> vfreed V1" using tblD(2)[OF s(2) i(1,2)] by (auto simp: L)
      show "runs t (bind (rlu_assign_pointer p nx) (\<lambda>_. bind (rlu_free self q) (\<lambda>_.
          bind (rlu_reader_unlock g self) (\<lambda>_. Ret 0)))) m2 Q"
        unfolding runs_bind
      proof (rule runs_mono[OF a], elim conjE)
        fix m3 assume m3: "sect (Suc n) ?W m3" "\<forall>c r. sees m2 r c \<longrightarrow> sees m3 r c"
        have "runs t (rlu_free self q) m3 (\<lambda>_ m'. sect (Suc n) (?W\<lparr>vfreed := insert b (vfreed V1)\<rparr>) m')"
          using free_node[OF m3(1), of q b] m3(2) m2(3) nf by simp
        then show "runs t (rlu_free self q) m3 (\<lambda>_ m'. runs t (rlu_reader_unlock g self) m' (\<lambda>_ m'. runs t (Ret 0) m' Q))"
          by (rule runs_mono) (simp add: leave)
      qed
    qed
  qed
qed

lemma remove_attempt:
  assumes "rest (Suc n) V m" "rlu_tbl T V F" "0 \<le> i" "i < n_buckets T" "key_ok key" "2 ^ 32 \<le> w"
    and X: "\<And>V' m'. key \<in> rkeys (F i) \<Longrightarrow> vpend V \<noteq> {} \<Longrightarrow> rest (Suc n) V' m' \<Longrightarrow> rlu_tbl T V' F \<Longrightarrow>
      vpend V' = {} \<Longrightarrow> runs t X m' Q"
    and Q: "\<And>V' m' L. rest n V' m' \<Longrightarrow> rlu_tbl T V' (F(i := L)) \<Longrightarrow> rkeys L = rkeys (F i) - {key} \<Longrightarrow> Q 0 m'"
  shows "runs t (remove_attempt w g self (buckets T i) key X) m Q"
  unfolding remove_attempt_def runs_bind
proof (rule begin_section[OF assms(1,2)])
  fix V1 m1
  assume s: "sect (Suc n) V1 m1" "rlu_tbl T V1 F" and v1: "vmine V1 = {}" "\<not> vdirty V1" "vpend V1 \<subseteq> vpend V"
  have l: "rlist V1 (buckets T i) (F i)" by (rule tblD(1)[OF s(2) assms(3,4)])
  have sl: "sorted_list (F i)" "rchain (vheap V1) (F i)" using l by (auto simp: rlist_def)
  let ?U = "\<lambda>p q. bind (RLU_DEREF self (nd_rd q nnext)) (\<lambda>n. lock_both g self p q X (\<lambda>p q.
      bind (rlu_assign_pointer p n) (\<lambda>_. bind (rlu_free self q) (\<lambda>_. bind (rlu_reader_unlock g self) (\<lambda>_. Ret 0)))))"
  have body: "runs t (if u = key then ?U p q else bind (rlu_reader_unlock g self) (\<lambda>_. Ret 0)) m1 Q"
    if f: "found (sees m1) (F i) key (p, q, u)" for p q u
  proof -
    obtain A a v b B y where pl: "place (F i) key A a v b u B" "sees m1 p a" "sees m1 q b" "a \<noteq> b"
      "vheap V1 a = Some \<lparr>nval = v, nnext = ObjP b\<rparr>" "vheap V1 b = Some \<lparr>nval = u, nnext = y\<rparr>"
      "key \<in> snd ` set (F i) \<longleftrightarrow> u = key" by (rule found_place[OF f sl])
    show ?thesis
    proof (cases "u = key")
      case True
      then have k: "key \<in> rkeys (F i)" using pl(7) key_in_rkeys[OF assms(5)] by blast
      have X1: "runs t X m' Q" if "vpend V1 \<noteq> {}" "rest (Suc n) V' m'" "rlu_tbl T V' F" "vpend V' = {}" for V' m'
        using X[OF k _ that(2-4)] that(1) v1(3) by blast
      have "runs t (?U p q) m1 Q"
        by (rule unlink[OF s v1(1,2) assms(3-5) pl(1)[unfolded True] pl(2-5) pl(6)[unfolded True] X1 Q])
      then show ?thesis using True by (simp only: simp_thms if_True)
    next
      case False
      then have "key \<notin> rkeys (F i)" using pl(7) key_in_rkeys[OF assms(5)] by blast
      then have "Q 0 m'" if "rest n V' m'" "rlu_tbl T V' F" for V' m'
        using Q[of V' m' "F i"] that by simp
      then have "runs t (bind (rlu_reader_unlock g self) (\<lambda>_. Ret 0)) m1 Q"
        unfolding runs_bind by (intro end_section[OF s]) simp
      then show ?thesis using False by (simp only: simp_thms if_False)
    qed
  qed
  show "runs t (rlu_find w self (buckets T i) key) m1 (\<lambda>r m'. runs t (case r of (p, q, v) \<Rightarrow>
      if v = key then ?U p q else bind (rlu_reader_unlock g self) (\<lambda>_. Ret 0)) m' Q)"
  proof (rule runs_mono[OF find[OF s(1) l _ _ assms(6)]])
    fix r m2 assume "m2 = m1 \<and> found (sees m1) (F i) key r"
    then show "runs t (case r of (p, q, v) \<Rightarrow> if v = key then ?U p q
        else bind (rlu_reader_unlock g self) (\<lambda>_. Ret 0)) m2 Q"
      using body[of "fst r" "fst (snd r)" "snd (snd r)"] by (simp only: prod.collapse split_beta)
  qed (use assms(5) in \<open>auto simp: key_ok_def\<close>)
qed

end

subsection \<open>Calls on the table\<close>

datatype rlu_op = RluContains | RluAdd | RluTryAdd | RluRemove | RluTryRemove

type_synonym rlu_call = "rlu_op \<times> val_t"

fun rlu_hash_call :: "nat \<Rightarrow> nat \<Rightarrow> nat \<Rightarrow> rlu_call \<Rightarrow> int rlu" where
  "rlu_hash_call g f self (RluContains, key) = rlu_hash_list_contains WALK g self key"
| "rlu_hash_call g f self (RluAdd, key) = rlu_hash_list_add WALK g f self key"
| "rlu_hash_call g f self (RluTryAdd, key) = rlu_hash_list_try_add WALK g self key"
| "rlu_hash_call g f self (RluRemove, key) = rlu_hash_list_remove WALK g f self key"
| "rlu_hash_call g f self (RluTryRemove, key) = rlu_hash_list_try_remove WALK g self key"

text \<open>A set whose try versions may give up with 2 when they would have to change it.\<close>

fun rlu_set_step :: "rlu_call \<Rightarrow> val_t set \<Rightarrow> int \<Rightarrow> val_t set option" where
  "rlu_set_step (RluContains, k) S r = (if r = (if k \<in> S then 0 else - ENOENT) then Some S else None)"
| "rlu_set_step (RluAdd, k) S r = (if r = 0 then Some (insert k S) else None)"
| "rlu_set_step (RluTryAdd, k) S r =
    (if r = 0 then Some (insert k S) else if r = 2 \<and> k \<notin> S then Some S else None)"
| "rlu_set_step (RluRemove, k) S r = (if r = 0 then Some (S - {k}) else None)"
| "rlu_set_step (RluTryRemove, k) S r =
    (if r = 0 then Some (S - {k}) else if r = 2 \<and> k \<in> S then Some S else None)"

fun rlu_set_steps :: "rlu_call list \<Rightarrow> val_t set \<Rightarrow> int list \<Rightarrow> val_t set option" where
  "rlu_set_steps [] S [] = Some S"
| "rlu_set_steps (c # cs) S (r # rs) =
    (case rlu_set_step c S r of None \<Rightarrow> None | Some S' \<Rightarrow> rlu_set_steps cs S' rs)"
| "rlu_set_steps _ _ _ = None"

lemma runs_bucket:
  assumes "r_hash_list m = Some T" "table_ok T" "valid_key key"
  shows "runs t (with_rlu_bucket opr key) m Q = runs t (opr (buckets T (c_rem key (n_buckets T))) key) m Q"
proof -
  have "0 \<le> c_rem key (n_buckets T)" "c_rem key (n_buckets T) < n_buckets T"
    using assms(2,3) c_rem_nonneg[of key "n_buckets T"] by (simp_all add: table_ok_def valid_key_def)
  then show ?thesis
    using assms by (simp add: with_rlu_bucket_def RLU_HASH_VALUE_def rl_bucket_def rl_table_def runs_atomic table_ok_def)
qed

lemma rlu_keys_other:
  assumes "rlu_tbl T V F" "valid_key key" "c_rem key (n_buckets T) = i"
  shows "rkeys L = insert key (rkeys (F i)) \<Longrightarrow> rlu_keys T (F(i := L)) = insert key (rlu_keys T F)"
    and "rkeys L = rkeys (F i) - {key} \<Longrightarrow> rlu_keys T (F(i := L)) = rlu_keys T F - {key}"
proof -
  have T: "table_ok T" using assms(1) by (simp add: rlu_tbl_def)
  have i: "0 \<le> i" "i < n_buckets T"
    using T assms(2,3) c_rem_nonneg[of key "n_buckets T"] by (simp_all add: table_ok_def valid_key_def)
  have F: "rlu_keys T F = rkeys (F i) \<union> (\<Union>j \<in> {0..<n_buckets T} - {i}. rkeys (F j))"
    using rlu_keys_upd[OF i, of F "F i"] by simp
  have k: "key \<notin> (\<Union>j \<in> {0..<n_buckets T} - {i}. rkeys (F j))"
    using tblD(3)[OF assms(1), of _ key] assms(3) by fastforce
  show "rkeys L = insert key (rkeys (F i)) \<Longrightarrow> rlu_keys T (F(i := L)) = insert key (rlu_keys T F)"
    unfolding rlu_keys_upd[OF i] F by blast
  show "rkeys L = rkeys (F i) - {key} \<Longrightarrow> rlu_keys T (F(i := L)) = rlu_keys T F - {key}"
    unfolding rlu_keys_upd[OF i] F using k by blast
qed

context rlu_engine begin

definition call_ok :: "hash_list_t \<Rightarrow> nat \<Rightarrow> rlu_view \<Rightarrow> val_t set \<Rightarrow> rlu_call \<Rightarrow> int \<Rightarrow> rlu_mach \<Rightarrow> bool" where
  "call_ok T n V S c r m' \<longleftrightarrow> (\<exists>V' F'. rest n V' m' \<and> rlu_tbl T V' F' \<and>
     rlu_set_step c S r = Some (rlu_keys T F') \<and> (r = 2 \<longrightarrow> vpend V \<noteq> {} \<and> vpend V' = {}))"

lemma call:
  assumes "rest (Suc n) V m" "rlu_tbl T V F" "valid_key key" "2 \<le> f"
  shows "runs t (rlu_hash_call g f self (oper, key)) m (call_ok T n V (rlu_keys T F) (oper, key))"
proof -
  let ?i = "c_rem key (n_buckets T)" and ?S = "rlu_keys T F"
  have T: "table_ok T" "r_hash_list m = Some T"
    using assms(2) rest_env[OF assms(1)] by (simp_all add: rlu_tbl_def)
  have i: "0 \<le> ?i" "?i < n_buckets T"
    using T(1) assms(3) c_rem_nonneg[of key "n_buckets T"] by (simp_all add: table_ok_def valid_key_def)
  have ko: "key_ok key" by (rule valid_key_ok[OF assms(3)])
  have W: "2 ^ 32 \<le> WALK" by (simp add: WALK_def)
  obtain f' where f: "f = Suc (Suc f')" using assms(4) that[of "f - 2"] by simp
  note b = runs_bucket[OF T(2,1) assms(3)]
  have k: "key \<in> ?S \<longleftrightarrow> key \<in> rkeys (F ?i)" by (rule rlu_keys_bucket[OF assms(2,3)])
  note keys = rlu_keys_other[OF assms(2,3) refl]
  have add1: "runs t (add_attempt WALK g self (buckets T ?i) key X) m' (call_ok T n V ?S (oper, key))"
    if "oper \<in> {RluAdd, RluTryAdd}" "rest (Suc n) W' m'" "rlu_tbl T W' F"
      and X: "\<And>V' m'. key \<notin> ?S \<Longrightarrow> vpend W' \<noteq> {} \<Longrightarrow> rest (Suc n) V' m' \<Longrightarrow> rlu_tbl T V' F \<Longrightarrow> vpend V' = {} \<Longrightarrow>
        runs t X m' (call_ok T n V ?S (oper, key))" for X W' m'
  proof (rule add_attempt[OF that(2,3) i assms(3) refl W])
    show "runs t X m' (call_ok T n V ?S (oper, key))"
      if "key \<notin> rkeys (F ?i)" "vpend W' \<noteq> {}" "rest (Suc n) V' m'" "rlu_tbl T V' F" "vpend V' = {}" for V' m'
      using X that k by blast
    show "call_ok T n V ?S (oper, key) 0 m'"
      if "rest n V' m'" "rlu_tbl T V' (F(?i := L))" "rkeys L = insert key (rkeys (F ?i))" for V' m' L
    proof -
      have "rlu_set_step (oper, key) ?S 0 = Some (insert key ?S)" using \<open>oper \<in> {RluAdd, RluTryAdd}\<close> by auto
      then have "rlu_set_step (oper, key) ?S 0 = Some (rlu_keys T (F(?i := L)))" unfolding keys(1)[OF that(3)] .
      with that(1,2) show ?thesis unfolding call_ok_def by (metis zero_neq_numeral)
    qed
  qed
  have rem1: "runs t (remove_attempt WALK g self (buckets T ?i) key X) m' (call_ok T n V ?S (oper, key))"
    if "oper \<in> {RluRemove, RluTryRemove}" "rest (Suc n) W' m'" "rlu_tbl T W' F"
      and X: "\<And>V' m'. key \<in> ?S \<Longrightarrow> vpend W' \<noteq> {} \<Longrightarrow> rest (Suc n) V' m' \<Longrightarrow> rlu_tbl T V' F \<Longrightarrow> vpend V' = {} \<Longrightarrow>
        runs t X m' (call_ok T n V ?S (oper, key))" for X W' m'
  proof (rule remove_attempt[OF that(2,3) i ko W])
    show "runs t X m' (call_ok T n V ?S (oper, key))"
      if "key \<in> rkeys (F ?i)" "vpend W' \<noteq> {}" "rest (Suc n) V' m'" "rlu_tbl T V' F" "vpend V' = {}" for V' m'
      using X that k by blast
    show "call_ok T n V ?S (oper, key) 0 m'"
      if "rest n V' m'" "rlu_tbl T V' (F(?i := L))" "rkeys L = rkeys (F ?i) - {key}" for V' m' L
    proof -
      have "rlu_set_step (oper, key) ?S 0 = Some (?S - {key})" using \<open>oper \<in> {RluRemove, RluTryRemove}\<close> by auto
      then have "rlu_set_step (oper, key) ?S 0 = Some (rlu_keys T (F(?i := L)))" unfolding keys(2)[OF that(3)] .
      with that(1,2) show ?thesis unfolding call_ok_def by (metis zero_neq_numeral)
    qed
  qed
  have gave_up: "call_ok T n V ?S (oper, key) 2 m'"
    if "oper = RluTryAdd \<and> key \<notin> ?S \<or> oper = RluTryRemove \<and> key \<in> ?S" "vpend V \<noteq> {}" "rest (Suc n) V' m'"
      "rlu_tbl T V' F" "vpend V' = {}" for V' m'
    unfolding call_ok_def using that rest_less[OF that(3)] by (intro exI[of _ V'] exI[of _ F]) auto
  show ?thesis
  proof (cases oper)
    case RluContains
    have "call_ok T n V ?S (oper, key) (if key \<in> rkeys (F ?i) then 0 else - ENOENT) m'"
      if "rest n V' m'" "rlu_tbl T V' F" for V' m'
      unfolding call_ok_def by (intro exI[of _ V'] exI[of _ F]) (use that k in \<open>auto simp: RluContains ENOENT_def\<close>)
    then have "runs t (rlu_list_contains WALK g self (buckets T ?i) key) m
        (\<lambda>r m'. call_ok T n V ?S (oper, key) (if r then 0 else - ENOENT) m')"
      by (intro contains[OF assms(1,2) i ko W])
    then show ?thesis by (simp add: RluContains rlu_hash_list_contains_def b)
  next
    case RluAdd
    have "runs t (rlu_list_add WALK g (Suc f') self (buckets T ?i) key) m' (call_ok T n V ?S (oper, key))"
      if "rest (Suc n) V' m'" "rlu_tbl T V' F" "vpend V' = {}" for V' m'
      unfolding attempts by (rule add1) (use that RluAdd in auto)
    then have "runs t (rlu_list_add WALK g f self (buckets T ?i) key) m (call_ok T n V ?S (oper, key))"
      unfolding f attempts(1)[of _ _ "Suc f'"] by (intro add1) (use RluAdd assms(1,2) in auto)
    then show ?thesis by (simp only: RluAdd rlu_hash_call.simps rlu_hash_list_add_def b)
  next
    case RluTryAdd
    have "runs t (rlu_list_try_add WALK g self (buckets T ?i) key) m (call_ok T n V ?S (oper, key))"
      unfolding attempts by (rule add1) (use RluTryAdd assms(1,2) gave_up in auto)
    then show ?thesis by (simp only: RluTryAdd rlu_hash_call.simps rlu_hash_list_try_add_def b)
  next
    case RluRemove
    have "runs t (rlu_list_remove WALK g (Suc f') self (buckets T ?i) key) m' (call_ok T n V ?S (oper, key))"
      if "rest (Suc n) V' m'" "rlu_tbl T V' F" "vpend V' = {}" for V' m'
      unfolding attempts by (rule rem1) (use that RluRemove in auto)
    then have "runs t (rlu_list_remove WALK g f self (buckets T ?i) key) m (call_ok T n V ?S (oper, key))"
      unfolding f attempts(3)[of _ _ "Suc f'"] by (intro rem1) (use RluRemove assms(1,2) in auto)
    then show ?thesis by (simp only: RluRemove rlu_hash_call.simps rlu_hash_list_remove_def b)
  next
    case RluTryRemove
    have "runs t (rlu_list_try_remove WALK g self (buckets T ?i) key) m (call_ok T n V ?S (oper, key))"
      unfolding attempts by (rule rem1) (use RluTryRemove assms(1,2) gave_up in auto)
    then show ?thesis by (simp only: RluTryRemove rlu_hash_call.simps rlu_hash_list_try_remove_def b)
  qed
qed

lemma rest_less_add: "rest (k + n) V m \<Longrightarrow> rest n V m"
  by (induction k) (auto dest: rest_less)

lemma calls:
  assumes "rest (length cs + n) V m" "rlu_tbl T V F" "\<forall>c \<in> set cs. valid_key (snd c)" "2 \<le> f"
  shows "runs t (calls (rlu_hash_call g f self) cs) m (\<lambda>rs m'. \<exists>V' F'. rest n V' m' \<and> rlu_tbl T V' F' \<and>
    rlu_set_steps cs (rlu_keys T F) rs = Some (rlu_keys T F'))"
  using assms(1-3)
proof (induction cs arbitrary: V m F)
  case (Cons c cs)
  obtain oper key where c: "c = (oper, key)" by (cases c)
  have r: "rest (Suc (length cs + n)) V m" using Cons.prems(1) by simp
  show ?case
    unfolding calls.simps runs_bind
  proof (rule runs_mono)
    show "runs t (rlu_hash_call g f self c) m (call_ok T (length cs + n) V (rlu_keys T F) c)"
      unfolding c by (rule call[OF r Cons.prems(2) _ assms(4)]) (use Cons.prems(3) c in simp)
    fix r m1
    assume "call_ok T (length cs + n) V (rlu_keys T F) c r m1"
    then obtain V1 F1 where 1: "rest (length cs + n) V1 m1" "rlu_tbl T V1 F1"
      "rlu_set_step c (rlu_keys T F) r = Some (rlu_keys T F1)" by (auto simp: call_ok_def)
    show "runs t (calls (rlu_hash_call g f self) cs) m1 (\<lambda>rs m'. runs t (Ret (r # rs)) m' (\<lambda>rs m'. \<exists>V' F'.
        rest n V' m' \<and> rlu_tbl T V' F' \<and> rlu_set_steps (c # cs) (rlu_keys T F) rs = Some (rlu_keys T F')))"
      by (rule runs_mono[OF Cons.IH[OF 1(1,2)]]) (use Cons.prems(3) 1(3) in auto)
  qed
qed auto

end

end
