(* ===== verification/RluLaws.thy ===== *)
theory RluLaws
  imports RluContract RluCalls
begin

text \<open>
  The engine keeps the rest of the contract \<open>rlu_engine\<close>: the reads, writes, locks and frees in a section. The
  interpretation at the end gives the lemmas of the lists for the model of rlu.c.
\<close>

subsection \<open>What a pointer of the thread is\<close>

lemma sectD:
  assumes "in_sect s n V d m"
  shows "core s n V d m" "odd (run_counter d)" "ws_tail_counter d - ws_wb_counter d < max_write_sets d"
    "ws_ok s d m (ws_tail_counter d)" "vmine V = acts d (ws_tail_counter d)"
    "card (vmine V) = num_of_objs (wset d (ws_tail_counter d))"
    "\<And>k. k < num_of_objs (wset d (ws_tail_counter d)) \<Longrightarrow> ws_run_counter (entry d (ws_tail_counter d) k) = run_counter d"
    "is_check_locks d = 0 \<Longrightarrow> vpend V \<union> vmine V = {}"
    "is_write_detected d \<noteq> 0 \<longleftrightarrow> num_of_objs (wset d (ws_tail_counter d)) \<noteq> 0"
  using assms unfolding in_sect_def by blast+

text \<open>A locked object has exactly one entry in the log.\<close>

lemma locked_entry:
  assumes i: "in_sect s n V d m" and o: "objs m a = Some x" "obj_h x \<noteq> NullP"
  obtains c k where "obj_h x = CopyP s (ring c) (off k)" "ws_wb_counter d \<le> c" "c \<le> ws_tail_counter d"
    "k < num_of_objs (wset d c)" "entry_ok s d m c k" "k < 90" "p_obj_actual (entry d c k) = ObjP a"
    "a \<in> vpend V \<longleftrightarrow> c < ws_tail_counter d" "a \<in> vmine V \<longleftrightarrow> c = ws_tail_counter d"
    "ws_run_counter (entry d c k) = run_counter d \<longleftrightarrow> c = ws_tail_counter d"
proof -
  note c = sectD(1)[OF i]
  have disj: "vpend V \<inter> vmine V = {}" by (rule sect_pending_mine[OF i])
  have "a \<in> vpend V \<union> vmine V" using coreD(12)[OF c o(1)] o(2) by blast
  then show ?thesis
  proof
    assume a: "a \<in> vpend V"
    then have "a \<in> pending d" using coreD(6)[OF c] by simp
    then show ?thesis
    proof (rule pending_entry[OF _ c])
      fix c k y
      assume e: "ws_wb_counter d \<le> c" "c < ws_tail_counter d" "k < num_of_objs (wset d c)"
        "p_obj_actual (entry d c k) = ObjP a" "objs m a = Some y" "obj_h y = CopyP s (ring c) (off k)"
        "entry_ok s d m c k" "k < 90" "ws_run_counter (entry d c k) < run_counter d"
      show ?thesis by (rule that[of c k]) (use e a o disj in auto)
    qed
  next
    assume a: "a \<in> vmine V"
    then have "a \<in> acts d (ws_tail_counter d)" using sectD(5)[OF i] by simp
    then show ?thesis
    proof (rule acts_entry[OF _ sectD(4)[OF i]])
      fix k y
      assume e: "k < num_of_objs (wset d (ws_tail_counter d))"
        "p_obj_actual (entry d (ws_tail_counter d) k) = ObjP a" "objs m a = Some y"
        "obj_h y = CopyP s (ring (ws_tail_counter d)) (off k)" "entry_ok s d m (ws_tail_counter d) k" "k < 90"
      have l: "ws_wb_counter d \<le> ws_tail_counter d" using ring_facts(3)[OF c] .
      show ?thesis by (rule that[of "ws_tail_counter d" k]) (use e a o disj l sectD(7)[OF i e(1)] in auto)
    qed
  qed
qed

lemma unlocked_free:
  assumes i: "in_sect s n V d m" and o: "objs m a = Some x"
  shows "obj_h x = NullP \<longleftrightarrow> a \<notin> vpend V \<union> vmine V"
proof (cases "obj_h x = NullP")
  case True
  note c = sectD(1)[OF i]
  have "a \<notin> vpend V"
  proof
    assume "a \<in> vpend V"
    then have "a \<in> pending d" using coreD(6)[OF c] by simp
    then show False by (rule pending_entry[OF _ c]) (use o True in auto)
  qed
  moreover have "a \<notin> vmine V"
  proof
    assume "a \<in> vmine V"
    then have "a \<in> acts d (ws_tail_counter d)" using sectD(5)[OF i] by simp
    then show False by (rule acts_entry[OF _ sectD(4)[OF i]]) (use o True in auto)
  qed
  ultimately show ?thesis using True by simp
next
  case False
  then show ?thesis using coreD(12)[OF sectD(1)[OF i] o] by blast
qed

lemma ring_window:
  assumes i: "in_sect s n V d m"
    and "ws_wb_counter d \<le> c" "c \<le> ws_tail_counter d" "ws_wb_counter d \<le> c'" "c' \<le> ws_tail_counter d" "ring c = ring c'"
  shows "c = c'"
  using ring_inj[of c c'] ring_facts(4,7)[OF sectD(1)[OF i]] assms(2-) by linarith

text \<open>So two locked objects have different copies.\<close>

lemma copies_distinct:
  assumes i: "in_sect s n V d m" and o: "objs m a = Some x" "objs m b = Some y" "obj_h x = obj_h y" "obj_h x \<noteq> NullP"
  shows "a = b"
proof (rule locked_entry[OF i o(1,4)], rule locked_entry[OF i o(2)])
  show "obj_h y \<noteq> NullP" using o by simp
  fix c k c' k'
  assume x: "obj_h x = CopyP s (ring c) (off k)" "ws_wb_counter d \<le> c" "c \<le> ws_tail_counter d"
    "p_obj_actual (entry d c k) = ObjP a"
    and y: "obj_h y = CopyP s (ring c') (off k')" "ws_wb_counter d \<le> c'" "c' \<le> ws_tail_counter d"
    "p_obj_actual (entry d c' k') = ObjP b"
  have "ring c = ring c'" "off k = off k'" using x(1) y(1) o(3) by simp_all
  moreover have "c = c'" by (rule ring_window[OF i x(2,3) y(2,3) calculation(1)])
  ultimately show "a = b" using x(4) y(4) by simp
qed

lemma seen_object:
  assumes i: "in_sect s n V d m" and p: "rlu_sees m p a"
  obtains (free) x where "objs m a = Some x" "obj_h x = NullP" "p = ObjP a" "a \<notin> vpend V \<union> vmine V"
  | (locked) x c k where "objs m a = Some x" "obj_h x = p" "p = CopyP s (ring c) (off k)" "ws_wb_counter d \<le> c"
    "c \<le> ws_tail_counter d" "k < num_of_objs (wset d c)" "entry_ok s d m c k" "k < 90"
    "p_obj_actual (entry d c k) = ObjP a" "a \<in> vpend V \<longleftrightarrow> c < ws_tail_counter d"
    "a \<in> vmine V \<longleftrightarrow> c = ws_tail_counter d" "ws_run_counter (entry d c k) = run_counter d \<longleftrightarrow> c = ws_tail_counter d"
proof -
  obtain x where x: "objs m a = Some x" "p = (if obj_h x = NullP then ObjP a else obj_h x)"
    using p by (auto simp: rlu_sees_def)
  show ?thesis
  proof (cases "obj_h x = NullP")
    case True
    then show ?thesis using free[of x] x unlocked_free[OF i x(1)] by simp
  next
    case False
    then have "obj_h x = p" using x(2) by simp
    with locked_entry[OF i x(1) False] locked[of x] x(1) show ?thesis by metis
  qed
qed

subsection \<open>Reading\<close>

lemma off_ok: "k < 90 \<Longrightarrow> off k \<le> RLU_MAX_WRITE_SET_BUFFER_SIZE"
  by (rule off_fits) simp

lemma runs_returns: "runs t e m (\<lambda>y m'. y = x \<and> m' = m) \<longleftrightarrow> run t e m = Returned x m"
  by (auto simp: runs_def)

lemma lnode_entry:
  assumes "tds m s = Some d" "obj_h x = CopyP s (ring c) (off k)"
  shows "lnode m x = copy_node (entry d c k)"
  using assms by (simp add: lnode_def)

lemma rlu_read:
  assumes "rlu_sect s n V m" "rlu_sees m p a" "vheap V a = Some x"
  shows "run t (nd_rd p f) m = Returned (f x) m"
proof -
  obtain d where i: "in_sect s n V d m" using assms by (auto simp: rlu_sect_def)
  note c = sectD(1)[OF i]
  have h: "lheap m a = Some x" using coreD(5)[OF c] assms(3) by simp
  show ?thesis
    unfolding runs_returns[symmetric]
    by (rule seen_object[OF i assms(2)])
      (use h coreD(1)[OF c] in \<open>auto simp: lheap_def off_ok RLU_MAX_WRITE_SETS_def lnode_entry\<close>)
qed

lemma rlu_actual:
  assumes "rlu_sect s n V m" "rlu_sees m p a" "vheap V a = Some x"
  shows "run t (actual_of p) m = Returned (ObjP a) m"
proof -
  obtain d where i: "in_sect s n V d m" using assms by (auto simp: rlu_sect_def)
  note c = sectD(1)[OF i]
  show ?thesis
    unfolding runs_returns[symmetric]
    by (rule seen_object[OF i assms(2)])
      (use coreD(1)[OF c] in \<open>auto simp: actual_of_def FORCE_ACTUAL_def off_ok RLU_MAX_WRITE_SETS_def entry_ok_def\<close>)
qed

lemma rlu_deref:
  assumes "rlu_sect s n V m" "run t e m = Returned (ObjP a) m" "vheap V a = Some x"
  shows "runs t (RLU_DEREF s e) m (\<lambda>p m'. m' = m \<and> rlu_sees m p a)"
proof -
  obtain d where i: "in_sect s n V d m" using assms by (auto simp: rlu_sect_def)
  note c = sectD(1)[OF i] and e = runs_run[OF assms(2)]
  obtain y where y: "objs m a = Some y" using coreD(5)[OF c] assms(3) by (auto simp: lheap_def)
  show ?thesis
  proof (cases "obj_h y = NullP")
    case True
    then show ?thesis
      using y coreD(1)[OF c] by (simp add: RLU_DEREF_def e rlu_sees_def)
  next
    case False
    then have k: "is_check_locks d \<noteq> 0" using unlocked_free[OF i y] sectD(8)[OF i] by blast
    show ?thesis
      by (rule locked_entry[OF i y False])
        (use False k y coreD(1)[OF c] in \<open>auto simp: RLU_DEREF_def e rlu_sees_def rlu_deref_slow_path_def
          off_ok RLU_MAX_WRITE_SETS_def entry_ok_def\<close>)
  qed
qed

lemma rlu_lock_pending:
  assumes "rlu_sect s n V m" "rlu_sees m p a" "a \<in> vpend V"
  shows "runs t (rlu_try_lock s p sz) m (\<lambda>(r, q) m'. r = 0 \<and> rlu_sect s n (V\<lparr>must_sync := True\<rparr>) m')"
proof -
  obtain d where i: "in_sect s n V d m" using assms by (auto simp: rlu_sect_def)
  note c = sectD(1)[OF i]
  let ?d = "d\<lparr>is_sync := is_sync d + 1\<rparr>"
  have s: "same_core d ?d" by (simp add: same_core_def)
  have ok: "ws_ok s ?d (set_td s ?d m) x = ws_ok s d m x" for x by (rule ws_ok_cong) simp_all
  have "core s n (V\<lparr>must_sync := True\<rparr>) ?d (set_td s ?d m)"
    by (rule core_same[OF c s]) (use coreD(16)[OF c] in simp_all)
  moreover have "acts ?d x = acts d x" for x by (simp add: acts_def acts_of_def)
  moreover have "lnode (set_td s ?d m) = lnode m" by (rule lnode_set_td[OF coreD(1)[OF c]]) simp
  ultimately have "in_sect s n (V\<lparr>must_sync := True\<rparr>) ?d (set_td s ?d m)"
    using i ok by (auto simp: in_sect_def)
  then have g: "rlu_sect s n (V\<lparr>must_sync := True\<rparr>) (set_td s ?d m)" by (auto simp: rlu_sect_def)
  show ?thesis
    by (rule seen_object[OF i assms(2)])
      (use assms(3) g coreD(1)[OF c] in \<open>auto simp: rlu_try_lock_def off_ok RLU_MAX_WRITE_SETS_def entry_ok_def\<close>)
qed

subsection \<open>Writing\<close>

text \<open>
  The nodes and the copies may change, and new unlocked objects appear, as long as the log and the locks stay
  the same.
\<close>

lemma sect_update:
  assumes i: "in_sect s n V d m"
    and t: "tds m' s = Some d'" "\<And>p. p \<noteq> s \<Longrightarrow> tds m' p = tds m p"
    and g: "g_rlu_cur_threads m' = g_rlu_cur_threads m" "g_rlu_threads m' = g_rlu_threads m" "rlists m' = rlists m"
      "r_hash_list m' = r_hash_list m" "alloc_ok m'"
    and o: "\<And>a x. objs m a = Some x \<Longrightarrow> \<exists>y. objs m' a = Some y \<and> obj_h y = obj_h x"
      "\<And>a y. objs m' a = Some y \<Longrightarrow> objs m a = None \<Longrightarrow> obj_h y = NullP"
    and d': "d' = d\<lparr>obj_write_set := W\<rparr>" "\<And>i. num_of_objs (W i) = num_of_objs (obj_write_set d i)"
      "\<And>i. p_cur (W i) = p_cur (obj_write_set d i)" "\<And>i. writer_locks (W i) = writer_locks (obj_write_set d i)"
      "\<And>i o'. \<exists>y. buffer (W i) o' = (buffer (obj_write_set d i) o')\<lparr>copy_node := y\<rparr>"
    and V': "vheap V' = lheap m'" "vpend V' = vpend V" "vmine V' = vmine V" "vfreed V' = vfreed V" "vlists V' = vlists V"
      "vtable V' = vtable V" "must_sync V' = must_sync V"
      "\<not> vdirty V' \<Longrightarrow> \<not> vdirty V \<and> (\<forall>a \<in> vmine V. \<forall>y. objs m' a = Some y \<longrightarrow> lnode m' y = obj_node y)"
  shows "in_sect s n V' d' m'"
proof -
  note c = sectD(1)[OF i]
  have e: "p_obj_actual (buffer (W i) o') = p_obj_actual (buffer (obj_write_set d i) o')"
    "obj_size (buffer (W i) o') = obj_size (buffer (obj_write_set d i) o')"
    "ws_run_counter (buffer (W i) o') = ws_run_counter (buffer (obj_write_set d i) o')"
    "ws_thread_id (buffer (W i) o') = ws_thread_id (buffer (obj_write_set d i) o')"
    "copy_h (buffer (W i) o') = copy_h (buffer (obj_write_set d i) o')" for i o'
    using d'(5)[of i o'] by auto
  have A: "acts d' = acts d" by (simp add: fun_eq_iff acts_def acts_of_def d'(1,2) e)
  have ok: "ws_ok s d' m' x" if "ws_ok s d m x" for x
  proof -
    have "entry_ok s d' m' x k" if "entry_ok s d m x k" for k
      using that o(1) unfolding entry_ok_def d'(1) by (simp add: e) metis
    then show ?thesis using that by (simp add: ws_ok_def d')
  qed
  have "quiet_peers s d' m'" using coreD(2)[OF c] t(2) by (fastforce simp: quiet_peers_def g d'(1))
  moreover have "ring_ok n d'" using coreD(3)[OF c] by (simp add: ring_ok_def clean_def d')
  moreover have p: "pending d' = pending d" unfolding pending_def A by (simp add: d'(1))
  then have "view_of d' m' V'" using coreD(5-9,16)[OF c] V' by (simp add: view_of_def g d'(1))
  moreover have "frees_ok d' F = frees_ok d F" for F by (simp add: frees_ok_def d'(1))
  moreover have "obj_h y = NullP \<or> a \<in> vpend V \<union> vmine V" if y: "objs m' a = Some y" for a y
  proof (cases "objs m a")
    case None
    then show ?thesis using o(2) y by blast
  next
    case (Some x)
    then show ?thesis using o(1)[OF Some] coreD(12)[OF c Some] y by auto
  qed
  ultimately have "core s n V' d' m'"
    using c t(1) g(5) ok coreD(10,11,13,14,15)[OF c] V' unfolding core_def by (simp add: d'(1,2) e)
  then show ?thesis
    using i ok A V' unfolding in_sect_def by (auto simp: d'(1,2) e)
qed

lemma lheap_obj:
  assumes "objs m' = (objs m)(a \<mapsto> y)" "tds m' = tds m"
  shows "lheap m' = (lheap m)(a \<mapsto> lnode m y)"
proof -
  have "lnode m' = lnode m" by (rule lnode_tds) (rule assms(2))
  then show ?thesis by (intro ext) (simp add: lheap_def assms(1))
qed

lemma sees_cong:
  assumes "rlu_sees m p b" "\<And>a x. objs m a = Some x \<Longrightarrow> \<exists>y. objs m' a = Some y \<and> obj_h y = obj_h x"
  shows "rlu_sees m' p b"
  using assms by (fastforce simp: rlu_sees_def)

lemma rlu_write:
  assumes "rlu_sect s n V m" "rlu_sees m p a" "vheap V a = Some x"
  shows "runs t (nd_wr p f) m (\<lambda>_ m'. rlu_sect s n (V\<lparr>vheap := (vheap V)(a \<mapsto> f x), vdirty := True\<rparr>) m' \<and>
    (\<forall>b p'. rlu_sees m p' b \<longrightarrow> rlu_sees m' p' b))"
proof -
  obtain d where i: "in_sect s n V d m" using assms by (auto simp: rlu_sect_def)
  note c = sectD(1)[OF i] and tds = coreD(1)[OF c]
  let ?V = "V\<lparr>vheap := (vheap V)(a \<mapsto> f x), vdirty := True\<rparr>"
  have h: "lheap m a = Some x" using coreD(5)[OF c] assms(3) by simp
  have done1: "rlu_sect s n ?V m' \<and> (\<forall>b p'. rlu_sees m p' b \<longrightarrow> rlu_sees m' p' b)"
    if st: "in_sect s n ?V d' m'" "\<And>a x. objs m a = Some x \<Longrightarrow> \<exists>y. objs m' a = Some y \<and> obj_h y = obj_h x"
    for d' m'
    using st sees_cong by (auto simp: rlu_sect_def)
  show ?thesis
  proof (rule seen_object[OF i assms(2)])
    fix y
    assume y: "objs m a = Some y" "obj_h y = NullP" "p = ObjP a"
    let ?m = "set_obj a (y\<lparr>obj_node := f (obj_node y)\<rparr>) m"
    have l: "lnode ?m = lnode m" by (rule lnode_tds) simp
    have "in_sect s n ?V d ?m"
    proof (rule sect_update[OF i, where W = "obj_write_set d"])
      show "vheap ?V = lheap ?m"
        using coreD(5)[OF c] h y lheap_obj[of ?m m a] by (auto simp: lheap_def)
      show "alloc_ok ?m" using coreD(4)[OF c] y(1) by (auto simp: alloc_ok_def)
      show "\<exists>z. buffer (obj_write_set d i) o' = (buffer (obj_write_set d i) o')\<lparr>copy_node := z\<rparr>" for i o'
        by (rule exI[of _ "copy_node (buffer (obj_write_set d i) o')"]) simp
    qed (use y tds in \<open>auto split: if_splits\<close>)
    moreover have "\<exists>w. objs ?m b = Some w \<and> obj_h w = obj_h z" if "objs m b = Some z" for b z using that y by auto
    ultimately show ?thesis using y done1[of d ?m] by simp
  next
    fix y ct k
    assume y: "objs m a = Some y" "obj_h y = p" "p = CopyP s (ring ct) (off k)" "k < 90"
      and ct: "ws_wb_counter d \<le> ct" "ct \<le> ws_tail_counter d"
    let ?w = "set_ent (off k) (\<lambda>e. e\<lparr>copy_node := f (copy_node e)\<rparr>)"
    let ?d = "set_ws (int (ring ct)) ?w d"
    let ?m = "set_td s ?d m"
    have "lheap ?m b = (if b = a then Some (f x) else lheap m b)" for b
    proof (cases "objs m b")
      case None
      then show ?thesis using y(1) by (auto simp: lheap_def)
    next
      case (Some z)
      show ?thesis
      proof (cases "obj_h z = NullP")
        case True
        then show ?thesis using Some y by (auto simp: lheap_def)
      next
        case False
        show ?thesis
        proof (rule locked_entry[OF i Some False])
          fix c' k'
          assume z: "obj_h z = CopyP s (ring c') (off k')"
          have "b = a" if "ring c' = ring ct" "k' = k"
            by (rule copies_distinct[OF i Some y(1) _ False]) (use that z y in simp)
          then show ?thesis using Some z y h tds by (auto simp: lheap_def lnode_entry[of _ s])
        qed
      qed
    qed
    then have l: "lheap ?m = (lheap m)(a \<mapsto> f x)" by (simp add: fun_eq_iff)
    have "in_sect s n ?V ?d ?m"
    proof (rule sect_update[OF i, where W = "obj_write_set ?d"])
      show "vheap ?V = lheap ?m" using coreD(5)[OF c] l by simp
      show "alloc_ok ?m" using coreD(4)[OF c] by (simp add: alloc_ok_def)
      show "\<exists>z. buffer (obj_write_set ?d i) o' = (buffer (obj_write_set d i) o')\<lparr>copy_node := z\<rparr>" for i o'
        by (cases "i = ring ct \<and> o' = off k")
          (auto intro: exI[of _ "copy_node (buffer (obj_write_set d i) o')"])
      show "?d = d\<lparr>obj_write_set := obj_write_set ?d\<rparr>" by (simp add: set_ws_def)
    qed simp_all
    then show ?thesis using y tds done1[of ?d ?m] by (simp add: off_ok RLU_MAX_WRITE_SETS_def)
  qed
qed

text \<open>A new node.\<close>

lemma runs_obj_malloc:
  assumes "objs m (r_alloc m (r_live m) (r_cnt m)) = None"
  shows "runs t obj_malloc m Q = Q (ObjP (r_alloc m (r_live m) (r_cnt m)))
    (m\<lparr>objs := (objs m)(r_alloc m (r_live m) (r_cnt m) \<mapsto>
        \<lparr>obj_h = r_hjunk m (r_cnt m), obj_node = r_junk m (r_cnt m)\<rparr>),
      r_live := r_alloc m (r_live m) (r_cnt m) # r_live m, r_cnt := r_cnt m + 1\<rparr>)"
  using assms by (simp add: obj_malloc_def runs_atomic Let_def)

lemma rlu_new:
  assumes "rlu_sect s n V m"
  shows "runs t rlu_new_node m (\<lambda>p m'. \<exists>a x. vheap V a = None \<and>
    rlu_sect s n (V\<lparr>vheap := (vheap V)(a \<mapsto> x)\<rparr>) m' \<and> rlu_sees m' p a \<and> (\<forall>b p'. rlu_sees m p' b \<longrightarrow> rlu_sees m' p' b))"
proof -
  obtain d where i: "in_sect s n V d m" using assms by (auto simp: rlu_sect_def)
  note c = sectD(1)[OF i] and tds = coreD(1)[OF c]
  let ?a = "r_alloc m (r_live m) (r_cnt m)" and ?x = "r_junk m (r_cnt m)"
  let ?y = "\<lparr>obj_h = r_hjunk m (r_cnt m), obj_node = ?x\<rparr>"
  let ?m1 = "m\<lparr>objs := (objs m)(?a \<mapsto> ?y), r_live := ?a # r_live m, r_cnt := r_cnt m + 1\<rparr>"
  let ?m = "set_obj ?a (?y\<lparr>obj_h := NullP\<rparr>) ?m1" and ?V = "V\<lparr>vheap := (vheap V)(?a \<mapsto> ?x)\<rparr>"
  have al: "r_alloc m L k \<notin> set L" "objs m b \<noteq> None \<Longrightarrow> b \<in> set (r_live m)" for L k b
    using coreD(4)[OF c] by (auto simp: alloc_ok_def)
  then have none: "objs m ?a = None" by blast
  have l: "lnode ?m = lnode m" by (rule lnode_tds) simp
  have mine: "objs m b \<noteq> None" if "b \<in> vmine V" for b
  proof -
    have "b \<in> acts d (ws_tail_counter d)" using that sectD(5)[OF i] by simp
    then show ?thesis by (rule acts_entry[OF _ sectD(4)[OF i]]) simp
  qed
  have "in_sect s n ?V d ?m"
  proof (rule sect_update[OF i, where W = "obj_write_set d"])
    show "vheap ?V = lheap ?m"
      using coreD(5)[OF c] lheap_obj[of ?m m ?a "?y\<lparr>obj_h := NullP\<rparr>"] by simp
    show "alloc_ok ?m" using al by (auto simp: alloc_ok_def set_obj_def split: if_splits)
    show "\<exists>z. buffer (obj_write_set d i) o' = (buffer (obj_write_set d i) o')\<lparr>copy_node := z\<rparr>" for i o'
      by (rule exI[of _ "copy_node (buffer (obj_write_set d i) o')"]) simp
    show "\<not> vdirty V \<and> (\<forall>a \<in> vmine V. \<forall>y. objs ?m a = Some y \<longrightarrow> lnode ?m y = obj_node y)" if "\<not> vdirty ?V"
      unfolding l using that i mine none by (auto simp: in_sect_def split: if_splits)
  qed (use none tds in \<open>auto split: if_splits\<close>)
  moreover have "rlu_sees ?m (ObjP ?a) ?a" by (simp add: rlu_sees_def)
  moreover have "rlu_sees ?m p b" if "rlu_sees m p b" for p b
    by (rule sees_cong[OF that]) (use none in auto)
  moreover have "vheap V ?a = None" using none coreD(5)[OF c] by (simp add: lheap_def)
  ultimately have "\<exists>a x. vheap V a = None \<and> rlu_sect s n (V\<lparr>vheap := (vheap V)(a \<mapsto> x)\<rparr>) ?m \<and>
      rlu_sees ?m (ObjP ?a) a \<and> (\<forall>b p'. rlu_sees m p' b \<longrightarrow> rlu_sees ?m p' b)"
    by (auto simp: rlu_sect_def)
  then show ?thesis by (simp add: rlu_new_node_def rlu_alloc_def runs_obj_malloc[OF none])
qed

subsection \<open>Locking\<close>

text \<open>A lock adds an entry to the write set of the section.\<close>

definition lock_entry :: "nat \<Rightarrow> rlu_obj \<Rightarrow> rlu_thread_data \<Rightarrow> ws_entry" where
  "lock_entry a x d = \<lparr>p_obj_actual = ObjP a, obj_size = sizeof_node, ws_run_counter = run_counter d,
     ws_thread_id = uniq_id d, copy_h = PTR_ID_OBJ_COPY, copy_node = obj_node x\<rparr>"

definition locks_in :: "nat \<Rightarrow> rlu_obj \<Rightarrow> rlu_thread_data \<Rightarrow> rlu_thread_data" where
  "locks_in a x d = d\<lparr>is_write_detected := if is_write_detected d = 0 then 1 else is_write_detected d,
     is_check_locks := if is_write_detected d = 0 then 1 else is_check_locks d,
     obj_write_set := (obj_write_set d)(ring (ws_tail_counter d) := (wset d (ws_tail_counter d))
       \<lparr>num_of_objs := num_of_objs (wset d (ws_tail_counter d)) + 1,
        p_cur := ent_at (num_of_objs (wset d (ws_tail_counter d)) + 1),
        buffer := (buffer (wset d (ws_tail_counter d)))
          (off (num_of_objs (wset d (ws_tail_counter d))) := lock_entry a x d)\<rparr>)\<rparr>"

lemma sect_lock:
  assumes i: "in_sect s n V d m" and x: "objs m a = Some x" "obj_h x = NullP"
    and k: "num_of_objs (wset d (ws_tail_counter d)) < 90"
  shows "in_sect s n (V\<lparr>vmine := insert a (vmine V)\<rparr>) (locks_in a x d)
    (set_td s (locks_in a x d) (set_obj a (x\<lparr>obj_h := CopyP s (ring (ws_tail_counter d))
      (off (num_of_objs (wset d (ws_tail_counter d))))\<rparr>) m))"
    (is "in_sect s n ?V ?d ?m")
proof -
  note c = sectD(1)[OF i]
  note r = ring_facts[OF c] and tds = coreD(1)[OF c]
  let ?tl = "ws_tail_counter d" and ?k = "num_of_objs (wset d (ws_tail_counter d))"
  have f: "uniq_id ?d = uniq_id d" "max_write_sets ?d = max_write_sets d" "ws_head_counter ?d = ws_head_counter d"
    "ws_wb_counter ?d = ws_wb_counter d" "ws_tail_counter ?d = ?tl" "ws_cur_id ?d = ws_cur_id d"
    "free_nodes_size ?d = free_nodes_size d" "free_nodes ?d = free_nodes d" "run_counter ?d = run_counter d"
    "is_sync ?d = is_sync d"
    by (simp_all add: locks_in_def)
  have w: "wset ?d y = wset d y" if "ws_wb_counter d \<le> y" "y < ?tl" for y
  proof -
    have "ring y \<noteq> ring ?tl" using ring_window[OF i, of y ?tl] that by auto
    then show ?thesis by (simp add: locks_in_def)
  qed
  have nt: "num_of_objs (wset ?d ?tl) = ?k + 1" "p_cur (wset ?d ?tl) = ent_at (?k + 1)"
    "entry ?d ?tl ?k = lock_entry a x d" "\<And>j. j < ?k \<Longrightarrow> entry ?d ?tl j = entry d ?tl j"
    by (auto simp: locks_in_def)
  have p: "pending ?d = pending d" by (simp add: pending_def f acts_def acts_of_def w cong: SUP_cong_simp)
  have A: "acts ?d ?tl = insert a (acts d ?tl)"
    by (auto simp: acts_def acts_of_def nt lock_entry_def lessThan_Suc cong: bex_cong_simp)
  have free: "a \<notin> vpend V \<union> vmine V" using unlocked_free[OF i x(1)] x(2) by simp
  have new: "b \<noteq> a" if "obj_h y = CopyP s (ring c') (off k')" "objs m b = Some y" for b y c' k'
    using that x by auto
  have ln: "lnode ?m y = lnode m y" if y: "objs m b = Some y" "b \<noteq> a" for b y
  proof (cases "obj_h y = NullP")
    case False
    show ?thesis
    proof (rule locked_entry[OF i y(1) False])
      fix c' k'
      assume e: "obj_h y = CopyP s (ring c') (off k')" "ws_wb_counter d \<le> c'" "c' \<le> ?tl" "k' < num_of_objs (wset d c')"
      have "entry ?d c' k' = entry d c' k'" using w[of c'] nt(4)[of k'] e(2-4) by (cases "c' = ?tl") auto
      then show ?thesis using tds e(1) by (simp add: lnode_entry[of _ s])
    qed
  qed simp
  have "lheap ?m b = lheap m b" for b
  proof (cases "b = a")
    case True
    then show ?thesis using x nt(3) by (simp add: lheap_def lnode_entry[of _ s] lock_entry_def)
  next
    case False
    then show ?thesis using ln[of b] by (cases "objs m b") (simp_all add: lheap_def)
  qed
  then have h: "lheap ?m = lheap m" ..
  have ek: "entry_ok s ?d ?m y j" if "entry_ok s d m y j" "entry ?d y j = entry d y j" for y j
    using that new by (fastforce simp: entry_ok_def f)
  have ok: "ws_ok s ?d ?m y" if y: "ws_wb_counter d \<le> y" "y < ?tl" for y
    using coreD(10)[OF c y] ek[of y] by (simp add: ws_ok_def w[OF y])
  have "entry_ok s ?d ?m ?tl ?k" unfolding entry_ok_def nt(3) by (simp add: lock_entry_def f)
  then have okt: "ws_ok s ?d ?m ?tl"
    using sectD(4)[OF i] ek[of ?tl] nt k by (auto simp: ws_ok_def less_Suc_eq)
  have cl: "clean ?d y" if "?tl < y" "y < ws_head_counter d + 200" for y
  proof -
    have "ring y \<noteq> ring ?tl" using ring_inj[of y ?tl] r(2,3) that by fastforce
    then have "wset ?d y = wset d y" by (simp add: locks_in_def)
    then show ?thesis using r(11)[OF that] by (simp add: clean_def)
  qed
  have "wl_size (writer_locks (obj_write_set ?d j)) = 0" if "j < 200" for j
    using r(10)[OF that] r(10)[of "ring ?tl"] by (simp add: locks_in_def)
  then have "ring_ok n ?d" unfolding ring_ok_def f using r cl by simp
  moreover have "quiet_peers s ?d ?m" using coreD(2)[OF c] by (fastforce simp: quiet_peers_def f)
  moreover have "alloc_ok ?m" using coreD(4)[OF c] x(1) by (auto simp: alloc_ok_def)
  moreover have "view_of ?d ?m ?V" using coreD(5-9,16)[OF c] h p by (simp add: view_of_def f)
  moreover have "ws_run_counter (entry ?d y j) < run_counter ?d"
    if y: "ws_wb_counter d \<le> y" "y < ?tl" "j < num_of_objs (wset ?d y)" for y j
    using coreD(11)[OF c y(1,2), of j] y w[OF y(1,2)] f(9) by simp
  moreover have "obj_h y = NullP \<or> b \<in> vpend ?V \<union> vmine ?V" if "objs ?m b = Some y" for b y
    using that coreD(12)[OF c, of b] by (auto split: if_splits)
  moreover have "frees_ok ?d F = frees_ok d F" for F by (simp add: frees_ok_def f)
  moreover have "vfreed ?V \<subseteq> vpend ?V \<union> vmine ?V" using coreD(14)[OF c] by auto
  ultimately have "core s n ?V ?d ?m"
    using coreD(13,15)[OF c] ok by (simp add: core_def f)
  moreover have "card (vmine ?V) = ?k + 1" using sectD(5,6)[OF i] free by simp
  moreover have "ws_run_counter (entry ?d ?tl j) = run_counter d" if "j < ?k + 1" for j
    using that sectD(7)[OF i, of j] nt by (auto simp: less_Suc_eq lock_entry_def)
  moreover have "is_check_locks ?d \<noteq> 0"
  proof -
    have "vmine V \<noteq> {}" if "is_write_detected d \<noteq> 0" using that sectD(6,9)[OF i] by auto
    then show ?thesis using sectD(8)[OF i] by (auto simp: locks_in_def)
  qed
  moreover have "is_write_detected ?d \<noteq> 0" by (simp add: locks_in_def)
  moreover have "vfreed V \<subseteq> vpend V \<and> (\<forall>b \<in> vmine ?V. \<forall>y. objs ?m b = Some y \<longrightarrow> lnode ?m y = obj_node y)"
    if "\<not> vdirty V"
  proof -
    have "lnode ?m (x\<lparr>obj_h := CopyP s (ring ?tl) (off ?k)\<rparr>) = obj_node x"
      using nt(3) by (simp add: lnode_entry[of _ s] lock_entry_def)
    then show ?thesis using i that ln by (auto simp: in_sect_def split: if_splits)
  qed
  ultimately show ?thesis
    using sectD(2,3,5)[OF i] okt A nt(1) unfolding in_sect_def by (simp add: f)
qed

lemma set_td_obj [simp]: "set_td s d' (set_obj a x (set_td s d m)) = set_td s d' (set_obj a x m)"
  by (simp add: set_td_def set_obj_def)

lemma lock_write_set:
  "((\<lambda>w. w\<lparr>num_of_objs := Suc (num_of_objs w)\<rparr>) \<circ> (p_cur_update (\<lambda>_. q) \<circ>
     (set_ent o' (copy_node_update (\<lambda>_. y)) \<circ> (p_cur_update (\<lambda>_. q') \<circ>
      set_ent o' (copy_h_update (\<lambda>_. h) \<circ> (ws_thread_id_update (\<lambda>_. u) \<circ> (ws_run_counter_update (\<lambda>_. rc) \<circ>
        (obj_size_update (\<lambda>_. sz) \<circ> p_obj_actual_update (\<lambda>_. p))))))))) w =
   w\<lparr>num_of_objs := num_of_objs w + 1, p_cur := q, buffer := (buffer w)(o' :=
     \<lparr>p_obj_actual = p, obj_size = sz, ws_run_counter = rc, ws_thread_id = u, copy_h = h, copy_node = y\<rparr>)\<rparr>"
  by (cases w; cases "buffer w o'") (simp add: set_ent_def)

lemma flags_same: "d\<lparr>is_write_detected := is_write_detected d\<rparr> = d" "d\<lparr>is_check_locks := is_check_locks d\<rparr> = d"
  for d :: rlu_thread_data
  by (cases d; simp)+

lemma runs_lock:
  assumes i: "in_sect s n V d m" and x: "objs m a = Some x" "obj_h x = NullP"
    and k: "num_of_objs (wset d (ws_tail_counter d)) < 90"
    and Q: "Q (1, CopyP s (ring (ws_tail_counter d)) (off (num_of_objs (wset d (ws_tail_counter d)))))
      (set_td s (locks_in a x d) (set_obj a (x\<lparr>obj_h := CopyP s (ring (ws_tail_counter d))
        (off (num_of_objs (wset d (ws_tail_counter d))))\<rparr>) m))"
  shows "runs t (rlu_try_lock s (ObjP a) sizeof_node) m Q"
proof -
  note c = sectD(1)[OF i]
  note r = ring_facts[OF c] and tds = coreD(1)[OF c]
  have p: "p_cur (wset d (ws_tail_counter d)) = ent_at (num_of_objs (wset d (ws_tail_counter d)))"
    using sectD(4)[OF i] by (simp add: ws_ok_def)
  show ?thesis
    using tds x k Q r(9) p off_ok[OF k]
    by (simp add: rlu_try_lock_def rlu_add_ws_obj_header_to_write_set_def rlu_add_obj_copy_to_write_set_def
        RLU_MAX_WRITE_SETS_def Let_def copy_ptr_def runs_memcpy_in off_fits)
      (cases "is_write_detected d = 0"; simp add: set_ws_def lock_write_set locks_in_def lock_entry_def flags_same del: comp_apply)
qed

text \<open>Freeing.\<close>

lemma rlu_free_mine:
  assumes "rlu_sect s n V m" "rlu_sees m p a" "a \<in> vmine V" "a \<notin> vfreed V" "vdirty V"
  shows "runs t (rlu_free s p) m (\<lambda>_ m'. rlu_sect s n (V\<lparr>vfreed := insert a (vfreed V)\<rparr>) m')"
proof -
  obtain d where i: "in_sect s n V d m" using assms by (auto simp: rlu_sect_def)
  note c = sectD(1)[OF i]
  note r = ring_facts[OF c] and tds = coreD(1)[OF c]
  let ?d = "d\<lparr>free_nodes := (free_nodes d)(free_nodes_size d := ObjP a), free_nodes_size := free_nodes_size d + 1\<rparr>"
  let ?m = "set_td s ?d m" and ?V = "V\<lparr>vfreed := insert a (vfreed V)\<rparr>"
  have "card (vmine V) \<le> 90" "finite (vmine V)" using sectD(4-6)[OF i] by (simp_all add: ws_ok_def)
  then have size: "free_nodes_size d \<le> 9090" using frees_bound[OF c] by blast
  obtain as where as: "map (free_nodes d) [0..<free_nodes_size d] = map ObjP as" "distinct as" "set as = vfreed V"
    using coreD(13)[OF c] by (auto simp: frees_ok_def)
  have "map (free_nodes ?d) [0..<free_nodes_size d] = map (free_nodes d) [0..<free_nodes_size d]" by simp
  then have "map (free_nodes ?d) [0..<free_nodes_size ?d] = map ObjP (as @ [a])" using as(1) by simp
  then have fr: "frees_ok ?d (insert a (vfreed V))"
    unfolding frees_ok_def using as(2,3) assms(4) by (intro exI[of _ "as @ [a]"]) auto
  have l: "lnode ?m = lnode m" by (rule lnode_set_td[OF tds]) simp
  have h: "lheap ?m = lheap m" unfolding lheap_def[abs_def] l by simp
  have A: "acts ?d = acts d" by (simp add: fun_eq_iff acts_def acts_of_def)
  have p: "pending ?d = pending d" unfolding pending_def A by simp
  have ok: "ws_ok s ?d ?m x = ws_ok s d m x" for x by (rule ws_ok_cong) simp_all
  have "quiet_peers s ?d ?m" using coreD(2)[OF c] by (fastforce simp: quiet_peers_def)
  moreover have "ring_ok n ?d" using coreD(3)[OF c] by (simp add: ring_ok_def clean_def)
  moreover have "alloc_ok ?m" using coreD(4)[OF c] by (simp add: alloc_ok_def)
  moreover have "view_of ?d ?m ?V" using coreD(5-9,16)[OF c] h p by (simp add: view_of_def)
  ultimately have "core s n ?V ?d ?m"
    using c fr ok assms(3) unfolding core_def by auto
  then have "in_sect s n ?V ?d ?m"
    using i assms(5) ok A by (auto simp: in_sect_def)
  then have g: "rlu_sect s n ?V ?m" by (auto simp: rlu_sect_def)
  show ?thesis
  proof (rule seen_object[OF i assms(2)])
    fix y ct k
    assume p: "p = CopyP s (ring ct) (off k)" "k < 90" "p_obj_actual (entry d ct k) = ObjP a" "entry_ok s d m ct k"
    have "copy_h (entry d ct k) = PTR_ID_OBJ_COPY" using p(4) by (simp add: entry_ok_def)
    then have "runs t (FORCE_ACTUAL p) m Q = Q (ObjP a) m" for Q
      using p(2,3) tds by (simp add: p(1) FORCE_ACTUAL_def off_ok RLU_MAX_WRITE_SETS_def)
    then show ?thesis
      using g tds sectD(2)[OF i] coreD(15)[OF c] size p(1)
      by (simp add: rlu_free_def rlu_assert_in_section_def RLU_MAX_FREE_NODES_def)
  qed (use assms(3) in blast)
qed

lemma rlu_lock_free:
  assumes "rlu_sect s n V m" "rlu_sees m p a" "a \<notin> vpend V \<union> vmine V" "card (vmine V) < 90"
  shows "runs t (rlu_try_lock s p sizeof_node) m (\<lambda>(r, q) m'. r = 1 \<and>
    rlu_sect s n (V\<lparr>vmine := insert a (vmine V)\<rparr>) m' \<and> rlu_sees m' q a \<and>
    (\<forall>b p'. b \<noteq> a \<longrightarrow> rlu_sees m p' b \<longrightarrow> rlu_sees m' p' b))"
proof -
  obtain d where i: "in_sect s n V d m" using assms by (auto simp: rlu_sect_def)
  obtain x where x: "objs m a = Some x" "obj_h x = NullP" "p = ObjP a"
    by (rule seen_object[OF i assms(2)]) (use assms(3) that coreD(6)[OF sectD(1)[OF i]] in auto)
  have k: "num_of_objs (wset d (ws_tail_counter d)) < 90" using sectD(6)[OF i] assms(4) by simp
  show ?thesis
    unfolding x(3)
    by (rule runs_lock[OF i x(1,2) k])
      (use sect_lock[OF i x(1,2) k] x(1,2) in \<open>auto simp: rlu_sect_def rlu_sees_def\<close>)
qed

subsection \<open>The interpretation\<close>

lemma rlu_rest_less: "rlu_rest s (Suc n) V m \<Longrightarrow> rlu_rest s n V m"
  unfolding rlu_rest_def at_sync_def by (blast intro: core_less)

lemma rlu_rest_env: "rlu_rest s n V m \<Longrightarrow> rlists m = vlists V \<and> r_hash_list m = vtable V"
  by (auto simp: rlu_rest_def at_sync_def coreD(7,8))

lemma rlu_sect_env: "rlu_sect s n V m \<Longrightarrow> rlists m = vlists V \<and> r_hash_list m = vtable V"
  by (auto simp: rlu_sect_def in_sect_def coreD(7,8))

interpretation rlu: rlu_engine "Suc g" s t "rlu_rest s" "rlu_sect s" rlu_sees for g s t
  by unfold_locales (rule rlu_rest_less rlu_rest_env rlu_sect_env rlu_enter rlu_read rlu_deref rlu_actual
    rlu_lock_pending rlu_lock_free rlu_new rlu_write rlu_free_mine rlu_leave rlu_abandon; assumption)+

end
