(* ===== verification/RluInit.thy ===== *)
theory RluInit
  imports RluLaws
begin

text \<open>
  From a machine without lists to one on which a thread can make calls: \<open>rlu_init\<close>, \<open>rlu_hash_list_init\<close> and
  \<open>rlu_thread_init\<close>, as sync\_test.c runs them.
\<close>

subsection \<open>Ready machines\<close>

text \<open>The thread \<open>s\<close> may make calls on the table \<open>T\<close>, whose keys are \<open>S\<close>; \<open>n\<close> more write sets fit in an \<open>int\<close>.\<close>

definition rlu_ready :: "nat \<Rightarrow> nat \<Rightarrow> hash_list_t \<Rightarrow> val_t set \<Rightarrow> rlu_mach \<Rightarrow> bool" where
  "rlu_ready s n T S m \<longleftrightarrow> (\<exists>V F. rlu_rest s n V m \<and> rlu_tbl T V F \<and> rlu_keys T F = S)"

text \<open>A machine on which only records for the threads have been allocated.\<close>

definition rlu_blank :: "nat set \<Rightarrow> rlu_mach \<Rightarrow> bool" where
  "rlu_blank ss m \<longleftrightarrow> (\<forall>a. objs m a = None) \<and> (\<forall>l. rlists m l = None) \<and> g_rlu_cur_threads m = 0 \<and>
     (\<forall>s \<in> ss. s \<noteq> 0 \<and> tds m s \<noteq> None) \<and> (\<forall>L k. r_alloc m L k \<notin> set L \<and> r_alloc m L k \<noteq> NULL)"

subsection \<open>New lists\<close>

definition rlu_bare :: "rlu_mach \<Rightarrow> bool" where
  "rlu_bare m \<longleftrightarrow> alloc_ok m \<and> (\<forall>L k. r_alloc m L k \<noteq> NULL) \<and> (\<forall>l. rlists m l \<noteq> None \<longrightarrow> l \<in> set (r_llive m)) \<and>
     (\<forall>a x. objs m a = Some x \<longrightarrow> obj_h x = NullP)"

definition plain_obj :: "val_t \<Rightarrow> addr \<Rightarrow> rlu_obj" where
  "plain_obj v q = \<lparr>obj_h = NullP, obj_node = \<lparr>nval = v, nnext = q\<rparr>\<rparr>"

definition two_objs :: "rlu_mach \<Rightarrow> ptr \<Rightarrow> nat \<Rightarrow> nat \<Rightarrow> bool" where
  "two_objs m l a b \<longleftrightarrow> rlists m l = Some (ObjP b) \<and> a \<noteq> b \<and> objs m b = Some (plain_obj LIST_VAL_MIN (ObjP a)) \<and>
     objs m a = Some (plain_obj LIST_VAL_MAX NullP)"

definition same_threads :: "rlu_mach \<Rightarrow> rlu_mach \<Rightarrow> bool" where
  "same_threads m m' \<longleftrightarrow> tds m' = tds m \<and> g_rlu_cur_threads m' = g_rlu_cur_threads m \<and>
     g_rlu_threads m' = g_rlu_threads m \<and> g_rlu_type m' = g_rlu_type m \<and> g_rlu_max_write_sets m' = g_rlu_max_write_sets m"

text \<open>A node that is allocated and filled in.\<close>

definition with_obj :: "nat \<Rightarrow> rlu_obj \<Rightarrow> rlu_mach \<Rightarrow> rlu_mach" where
  "with_obj a x m = m\<lparr>objs := (objs m)(a \<mapsto> x), r_live := a # r_live m, r_cnt := r_cnt m + 1\<rparr>"

lemma with_obj_proj [simp]:
  "objs (with_obj a x m) = (objs m)(a \<mapsto> x)" "rlists (with_obj a x m) = rlists m" "tds (with_obj a x m) = tds m"
  by (simp_all add: with_obj_def)

lemma set_with_obj: "set_obj a y (with_obj a x m) = with_obj a y m"
  by (simp add: set_obj_def with_obj_def)

lemma bare_with_obj:
  assumes "rlu_bare m" "objs m a = None" "obj_h x = NullP"
  shows "rlu_bare (with_obj a x m)"
  using assms by (auto simp: rlu_bare_def with_obj_def alloc_ok_def split: if_splits)

lemma bare_head:
  assumes "rlu_bare m" "rlists m l \<noteq> None"
  shows "rlu_bare (m\<lparr>rlists := (rlists m)(l \<mapsto> p)\<rparr>)"
proof -
  have "k \<in> set (r_llive m)" if "((rlists m)(l \<mapsto> p)) k \<noteq> None" for k
    using assms that unfolding rlu_bare_def by (cases "k = l") auto
  then show ?thesis using assms(1) by (simp add: rlu_bare_def alloc_ok_def)
qed

lemma runs_rlu_new_node:
  assumes "rlu_bare m"
    and Q: "\<And>a x. objs m a = None \<Longrightarrow> obj_h x = NullP \<Longrightarrow> Q (ObjP a) (with_obj a x m)"
  shows "runs t rlu_new_node m Q"
proof -
  let ?a = "r_alloc m (r_live m) (r_cnt m)"
  have n: "objs m ?a = None" using assms(1) unfolding rlu_bare_def alloc_ok_def by blast
  have "Q (ObjP ?a) (with_obj ?a \<lparr>obj_h = NullP, obj_node = r_junk m (r_cnt m)\<rparr> m)" by (rule Q) (simp_all add: n)
  moreover have "runs t obj_malloc m Q' = Q' (ObjP ?a)
      (with_obj ?a \<lparr>obj_h = r_hjunk m (r_cnt m), obj_node = r_junk m (r_cnt m)\<rparr> m)" for Q'
    by (simp add: runs_obj_malloc[OF n] with_obj_def)
  ultimately show ?thesis
    by (simp add: rlu_new_node_def rlu_alloc_def set_with_obj)
qed

lemma runs_wr_new:
  "runs t (nd_wr (ObjP a) f) (with_obj a x m) Q = Q () (with_obj a (x\<lparr>obj_node := f (obj_node x)\<rparr>) m)"
  by (simp add: runs_nd_wr_obj[where x = x] set_with_obj)

lemma runs_new_list:
  assumes b: "rlu_bare m"
    and Q: "\<And>l a b m'. rlu_bare m' \<Longrightarrow> same_threads m m' \<Longrightarrow> r_hash_list m' = r_hash_list m \<Longrightarrow> two_objs m' l a b \<Longrightarrow>
      objs m a = None \<Longrightarrow> objs m b = None \<Longrightarrow> rlists m l = None \<Longrightarrow>
      (\<And>c. objs m c \<noteq> None \<Longrightarrow> objs m' c = objs m c) \<Longrightarrow> (\<And>k. k \<noteq> l \<Longrightarrow> rlists m' k = rlists m k) \<Longrightarrow> Q l m'"
  shows "runs t rlu_new_list m Q"
proof -
  let ?l = "r_alloc m (r_llive m) (r_cnt m)"
  let ?m = "m\<lparr>rlists := (rlists m)(?l \<mapsto> r_hjunk m (r_cnt m)), r_llive := ?l # r_llive m, r_cnt := r_cnt m + 1\<rparr>"
  have l: "?l \<noteq> NULL" "rlists m ?l = None" using b unfolding rlu_bare_def alloc_ok_def by blast+
  have b1: "rlu_bare ?m" using b by (auto simp: rlu_bare_def alloc_ok_def)
  have "runs t rlu_new_node ?m (\<lambda>p m'. runs t (bind (nd_wr p (\<lambda>n. n\<lparr>nval := LIST_VAL_MAX\<rparr>)) (\<lambda>_.
      bind (nd_wr p (\<lambda>n. n\<lparr>nnext := NullP\<rparr>)) (\<lambda>_. bind rlu_new_node (\<lambda>p_min.
      bind (nd_wr p_min (\<lambda>n. n\<lparr>nval := LIST_VAL_MIN\<rparr>)) (\<lambda>_. bind (nd_wr p_min (\<lambda>n. n\<lparr>nnext := p\<rparr>)) (\<lambda>_.
      bind (rl_set_head ?l p_min) (\<lambda>_. Ret ?l))))))) m' Q)"
  proof (rule runs_rlu_new_node[OF b1])
    fix a and x :: rlu_obj assume a: "objs ?m a = None" "obj_h x = NullP"
    let ?x = "plain_obj LIST_VAL_MAX NullP"
    let ?m1 = "with_obj a ?x ?m"
    have b2: "rlu_bare ?m1" by (rule bare_with_obj[OF b1 a(1)]) (simp add: plain_obj_def)
    have x: "x\<lparr>obj_node := (obj_node x)\<lparr>nval := LIST_VAL_MAX, nnext := NullP\<rparr>\<rparr> = ?x"
      using a(2) by (cases x; cases "obj_node x") (simp add: plain_obj_def)
    have "runs t rlu_new_node ?m1 (\<lambda>p_min m'. runs t (bind (nd_wr p_min (\<lambda>n. n\<lparr>nval := LIST_VAL_MIN\<rparr>)) (\<lambda>_.
        bind (nd_wr p_min (\<lambda>n. n\<lparr>nnext := ObjP a\<rparr>)) (\<lambda>_. bind (rl_set_head ?l p_min) (\<lambda>_. Ret ?l)))) m' Q)"
    proof (rule runs_rlu_new_node[OF b2])
      fix c and y :: rlu_obj assume c: "objs ?m1 c = None" "obj_h y = NullP"
      let ?y = "plain_obj LIST_VAL_MIN (ObjP a)"
      have y: "y\<lparr>obj_node := (obj_node y)\<lparr>nval := LIST_VAL_MIN, nnext := ObjP a\<rparr>\<rparr> = ?y"
        using c(2) by (cases y; cases "obj_node y") (simp add: plain_obj_def)
      let ?m2 = "with_obj c ?y ?m1"
      let ?m3 = "?m2\<lparr>rlists := (rlists ?m2)(?l \<mapsto> ObjP c)\<rparr>"
      have b3: "rlu_bare ?m2" by (rule bare_with_obj[OF b2 c(1)]) (simp add: plain_obj_def)
      have ne: "a \<noteq> c" using c(1) by (auto simp: with_obj_def)
      have "Q ?l ?m3"
      proof (rule Q[where a = a and b = c])
        show "rlu_bare ?m3" by (rule bare_head[OF b3]) simp
        show "two_objs ?m3 ?l a c" using ne by (simp add: two_objs_def with_obj_def)
      qed (use a c ne l in \<open>auto simp: with_obj_def same_threads_def split: if_splits\<close>)
      moreover have "rlists ?m2 ?l \<noteq> None" by (simp add: with_obj_def)
      ultimately show "runs t (bind (nd_wr (ObjP c) (\<lambda>n. n\<lparr>nval := LIST_VAL_MIN\<rparr>)) (\<lambda>_.
          bind (nd_wr (ObjP c) (\<lambda>n. n\<lparr>nnext := ObjP a\<rparr>)) (\<lambda>_. bind (rl_set_head ?l (ObjP c)) (\<lambda>_. Ret ?l)))) (with_obj c y ?m1) Q"
        by (simp add: runs_wr_new y rl_set_head_def runs_atomic)
    qed
    then show "runs t (bind (nd_wr (ObjP a) (\<lambda>n. n\<lparr>nval := LIST_VAL_MAX\<rparr>)) (\<lambda>_.
        bind (nd_wr (ObjP a) (\<lambda>n. n\<lparr>nnext := NullP\<rparr>)) (\<lambda>_. bind rlu_new_node (\<lambda>p_min.
        bind (nd_wr p_min (\<lambda>n. n\<lparr>nval := LIST_VAL_MIN\<rparr>)) (\<lambda>_. bind (nd_wr p_min (\<lambda>n. n\<lparr>nnext := ObjP a\<rparr>)) (\<lambda>_.
        bind (rl_set_head ?l p_min) (\<lambda>_. Ret ?l))))))) (with_obj a x ?m) Q"
      by (simp add: runs_wr_new x)
  qed
  then show ?thesis
    using l by (simp add: rlu_new_list_def list_malloc_def runs_atomic Let_def)
qed

subsection \<open>The table\<close>

definition filled :: "hash_list_t \<Rightarrow> (int \<Rightarrow> nat) \<Rightarrow> (int \<Rightarrow> nat) \<Rightarrow> int \<Rightarrow> rlu_mach \<Rightarrow> bool" where
  "filled T A B n m \<longleftrightarrow> r_hash_list m = Some T \<and>
     (\<forall>i. 0 \<le> i \<and> i < n \<longrightarrow> two_objs m (buckets T i) (A i) (B i)) \<and>
     (\<forall>i j. 0 \<le> i \<and> i < n \<and> 0 \<le> j \<and> j < n \<and> i \<noteq> j \<longrightarrow> {A i, B i} \<inter> {A j, B j} = {})"

lemma two_objs_cong:
  assumes "two_objs m l a b" "\<And>c. objs m c \<noteq> None \<Longrightarrow> objs m' c = objs m c" "rlists m' l = rlists m l"
  shows "two_objs m' l a b"
  using assms(1) assms(2)[of a] assms(2)[of b] assms(3) by (simp add: two_objs_def)

lemma filled_next:
  assumes f: "filled T A B i m" and h: "r_hash_list m' = r_hash_list m" and l: "two_objs m' l a b"
    and new: "objs m a = None" "objs m b = None" "rlists m l = None"
    and same: "\<And>c. objs m c \<noteq> None \<Longrightarrow> objs m' c = objs m c" "\<And>k. k \<noteq> l \<Longrightarrow> rlists m' k = rlists m k"
  shows "filled (T\<lparr>buckets := (buckets T)(i := l)\<rparr>) (A(i := a)) (B(i := b)) (i + 1)
    (m'\<lparr>r_hash_list := Some (T\<lparr>buckets := (buckets T)(i := l)\<rparr>)\<rparr>)"
proof -
  let ?m = "m'\<lparr>r_hash_list := Some (T\<lparr>buckets := (buckets T)(i := l)\<rparr>)\<rparr>"
  have old: "two_objs m (buckets T j) (A j) (B j)" if "0 \<le> j" "j < i" for j
    using f that by (simp add: filled_def)
  have ne: "A j \<noteq> a \<and> A j \<noteq> b \<and> B j \<noteq> a \<and> B j \<noteq> b \<and> buckets T j \<noteq> l" if "0 \<le> j" "j < i" for j
    using old[OF that] new by (auto simp: two_objs_def)
  have two: "two_objs ?m (buckets T j) (A j) (B j)" if "0 \<le> j" "j < i" for j
    using two_objs_cong[OF old[OF that] same(1)] same(2)[of "buckets T j"] ne[OF that] by (simp add: two_objs_def)
  have last: "two_objs ?m l a b" using l by (simp add: two_objs_def)
  have disj: "{A j, B j} \<inter> {A k, B k} = {}" if "0 \<le> j" "j < i" "0 \<le> k" "k < i" "j \<noteq> k" for j k
    using f that by (simp add: filled_def)
  have "two_objs ?m (((buckets T)(i := l)) j) ((A(i := a)) j) ((B(i := b)) j)" if "0 \<le> j" "j < i + 1" for j
    using two[of j] last that by (cases "j = i") auto
  moreover have "{(A(i := a)) j, (B(i := b)) j} \<inter> {(A(i := a)) k, (B(i := b)) k} = {}"
    if "0 \<le> j" "j < i + 1" "0 \<le> k" "k < i + 1" "j \<noteq> k" for j k
    using disj[of j k] ne[of j] ne[of k] that by (cases "j = i"; cases "k = i") auto
  ultimately show ?thesis by (simp add: filled_def)
qed

lemma runs_rlu_fill:
  assumes "rlu_bare m" "filled T A B i m" "0 \<le> i" "nat (n - i) \<le> k" "n \<le> int MAX_BUCKETS" "i \<le> n"
    and Q: "\<And>T' A' B' m'. rlu_bare m' \<Longrightarrow> same_threads m m' \<Longrightarrow> n_buckets T' = n_buckets T \<Longrightarrow> filled T' A' B' n m' \<Longrightarrow> Q () m'"
  shows "runs t (rlu_fill_buckets k i n) m Q"
  using assms
proof (induction k arbitrary: i m T A B)
  case 0
  then have "filled T A B n m" by simp
  then show ?case using 0 by (auto simp: same_threads_def)
next
  case (Suc k)
  show ?case
  proof (cases "i < n")
    case False
    then have "filled T A B n m" using Suc.prems by simp
    then show ?thesis using False Suc.prems by (auto simp: same_threads_def)
  next
    case True
    have "runs t rlu_new_list m (\<lambda>l m'. runs t (bind (rl_set_bucket i l) (\<lambda>_. rlu_fill_buckets k (i + 1) n)) m' Q)"
    proof (rule runs_new_list[OF Suc.prems(1)])
      fix l a b m1
      assume m1: "rlu_bare m1" "same_threads m m1" "r_hash_list m1 = r_hash_list m" "two_objs m1 l a b"
        "objs m a = None" "objs m b = None" "rlists m l = None" "\<And>c. objs m c \<noteq> None \<Longrightarrow> objs m1 c = objs m c"
        "\<And>k. k \<noteq> l \<Longrightarrow> rlists m1 k = rlists m k"
      let ?T = "T\<lparr>buckets := (buckets T)(i := l)\<rparr>"
      let ?m = "m1\<lparr>r_hash_list := Some ?T\<rparr>"
      have b: "rlu_bare ?m" using m1(1) by (simp add: rlu_bare_def alloc_ok_def)
      have "filled ?T (A(i := a)) (B(i := b)) (i + 1) ?m"
        by (rule filled_next[OF Suc.prems(2) m1(3-7)]) (use m1(8,9) in auto)
      then have "runs t (rlu_fill_buckets k (i + 1) n) ?m Q"
        by (rule Suc.IH[OF b]) (use Suc.prems(3-7) m1(2) True in \<open>auto simp: same_threads_def\<close>)
      moreover have "r_hash_list m1 = Some T" using m1(3) Suc.prems(2) by (simp add: filled_def)
      ultimately show "runs t (bind (rl_set_bucket i l) (\<lambda>_. rlu_fill_buckets k (i + 1) n)) m1 Q"
        using Suc.prems(3,5) True by (simp add: rl_set_bucket_def runs_atomic)
    qed
    then show ?thesis using True by simp
  qed
qed

subsection \<open>The records of the threads\<close>

definition fresh_td :: "int \<Rightarrow> rlu_thread_data \<Rightarrow> bool" where
  "fresh_td w d \<longleftrightarrow> max_write_sets d = w \<and> run_counter d = 0 \<and> is_sync d = 0 \<and> ws_head_counter d = 0 \<and>
     ws_wb_counter d = 0 \<and> ws_tail_counter d = 0 \<and> ws_cur_id d = 0 \<and> obj_write_set d = (\<lambda>_. zero_ws) \<and>
     free_nodes_size d = 0"

lemma runs_thread_init:
  assumes "tds m s \<noteq> None" "g_rlu_cur_threads m < RLU_MAX_THREADS"
    and Q: "\<And>d. fresh_td (g_rlu_max_write_sets m) d \<Longrightarrow> Q () (m\<lparr>g_rlu_cur_threads := g_rlu_cur_threads m + 1,
      tds := (tds m)(s \<mapsto> d),
      g_rlu_threads := (g_rlu_threads m)(g_rlu_cur_threads m := s)\<rparr>)"
  shows "runs t (rlu_thread_init s) m Q"
proof -
  obtain e where e: "tds m s = Some e" using assms(1) by blast
  let ?m = "m\<lparr>g_rlu_cur_threads := g_rlu_cur_threads m + 1\<rparr>"
  let ?d = "zero_td\<lparr>rlu_type := g_rlu_type m, max_write_sets := g_rlu_max_write_sets m, uniq_id := int (g_rlu_cur_threads m),
    local_version := 0, writer_version := MAX_VERSION\<rparr>"
  have z: "reset_ws zero_ws = zero_ws" by (simp add: reset_ws_def zero_ws_def)
  have r: "resets C ?d = ?d" for C by (simp add: resets_def zero_td_def z cong: if_cong)
  have cur: "set_td s d (set_td s d' m\<lparr>g_rlu_cur_threads := k\<rparr>) = set_td s d (m\<lparr>g_rlu_cur_threads := k\<rparr>)" for d d' k
    by (simp add: set_td_def)
  have glob: "g_rlu_type (set_td s d m) = g_rlu_type m" "g_rlu_max_write_sets (set_td s d m) = g_rlu_max_write_sets m" for d
    by (simp_all add: set_td_def)
  have "runs t (for_each [0..RLU_MAX_WRITE_SETS - 1] (rlu_reset_write_set s)) (set_td s ?d ?m) Q' =
      Q' () (set_td s ?d ?m)" for Q'
    by (subst runs_reset_write_sets[where d = ?d]) (simp_all add: r)
  moreover have "fresh_td (g_rlu_max_write_sets m) ?d" by (simp add: fresh_td_def zero_td_def)
  then have "Q () (m\<lparr>g_rlu_cur_threads := g_rlu_cur_threads m + 1, tds := (tds m)(s \<mapsto> ?d),
      g_rlu_threads := (g_rlu_threads m)(g_rlu_cur_threads m := s)\<rparr>)" by (rule Q)
  ultimately show ?thesis
    using e assms(2) by (simp add: rlu_thread_init_def runs_atomic cur glob) (simp add: set_td_def)
qed

text \<open>The records of any threads, one after the other.\<close>

definition registered :: "int \<Rightarrow> rlu_mach \<Rightarrow> nat list \<Rightarrow> rlu_mach \<Rightarrow> bool" where
  "registered w m0 ss m \<longleftrightarrow> g_rlu_cur_threads m = length ss \<and> g_rlu_max_write_sets m = w \<and>
     (\<forall>i < length ss. g_rlu_threads m i = ss ! i) \<and> (\<forall>s \<in> set ss. \<exists>d. tds m s = Some d \<and> fresh_td w d) \<and>
     (\<forall>s. tds m0 s \<noteq> None \<longrightarrow> tds m s \<noteq> None) \<and> objs m = objs m0 \<and> rlists m = rlists m0 \<and>
     r_hash_list m = r_hash_list m0 \<and> r_alloc m = r_alloc m0 \<and> r_live m = r_live m0"

lemma runs_thread_inits:
  assumes "g_rlu_cur_threads m = 0" "length ss \<le> RLU_MAX_THREADS" "\<forall>s \<in> set ss. tds m s \<noteq> None"
  shows "runs t (for_each ss rlu_thread_init) m (\<lambda>_ m'. registered (g_rlu_max_write_sets m) m ss m')"
proof (rule runs_for_each)
  show "registered (g_rlu_max_write_sets m) m [] m" using assms(1) by (simp add: registered_def)
  fix xs x ys m1
  assume s: "ss = xs @ x # ys" and r: "registered (g_rlu_max_write_sets m) m xs m1"
  have "tds m1 x \<noteq> None" using r assms(3) s by (auto simp: registered_def)
  then show "runs t (rlu_thread_init x) m1 (\<lambda>_ m'. registered (g_rlu_max_write_sets m) m (xs @ [x]) m')"
    by (rule runs_thread_init)
      (use r assms(2) s in \<open>auto simp: registered_def nth_append less_Suc_eq\<close>)
qed

lemma fresh_ready:
  assumes b: "rlu_bare m0" and f: "filled T A B (n_buckets T) m0" "table_ok T"
    and r: "registered w m0 ss m" "length ss \<le> RLU_MAX_THREADS" "s \<in> set ss" "s \<noteq> 0"
    and w: "1 \<le> w" "w \<le> 100" "n < 2 ^ 31"
  shows "rlu_ready s n T {} m"
proof -
  obtain d where d: "tds m s = Some d" "fresh_td w d" using r(1,3) by (auto simp: registered_def)
  note fd = d(2)[unfolded fresh_td_def]
  have m: "objs m = objs m0" "rlists m = rlists m0" "r_hash_list m = Some T" "r_alloc m = r_alloc m0" "r_live m = r_live m0"
    using r(1) f(1) by (auto simp: registered_def filled_def)
  have free: "obj_h x = NullP" if "objs m a = Some x" for a x using b that by (simp add: rlu_bare_def m)
  let ?V = "\<lparr>vheap = lheap m, vpend = {}, vmine = {}, vfreed = {}, vlists = rlists m, vtable = Some T, must_sync = False,
    vdirty = False\<rparr>"
  have z: "num_of_objs zero_ws = 0" "p_cur zero_ws = 0" "wl_size (writer_locks zero_ws) = 0" by (simp_all add: zero_ws_def)
  have peers: "quiet_peers s d m"
    using r(1,2) by (auto simp: quiet_peers_def registered_def fresh_td_def) (metis even_zero nth_mem)
  have "ring_ok n d" using fd w by (simp add: ring_ok_def clean_def z ring_def)
  moreover have "alloc_ok m" using b by (simp add: rlu_bare_def alloc_ok_def m)
  moreover have "view_of d m ?V" using fd by (simp add: view_of_def pending_def m)
  moreover have "frees_ok d {}" using fd by (simp add: frees_ok_def)
  ultimately have "core s n ?V d m"
    using d(1) r(4) peers fd free by (simp add: core_def z)
  then have rest: "rlu_rest s n ?V m"
    using fd w by (auto simp: rlu_rest_def at_sync_def clean_def z)
  let ?F = "\<lambda>i. [(B i, LIST_VAL_MIN), (A i, LIST_VAL_MAX)]"
  have two: "two_objs m0 (buckets T i) (A i) (B i)" if "0 \<le> i" "i < n_buckets T" for i
    using f(1) that by (simp add: filled_def)
  have "rlist ?V (buckets T i) (?F i)" if "0 \<le> i" "i < n_buckets T" for i
    using two[OF that] by (simp add: rlist_def sorted_list_def two_objs_def plain_obj_def lheap_def m
      LIST_VAL_MIN_def LIST_VAL_MAX_def)
  moreover have k: "rkeys (?F i) = {}" for i by (auto simp: rkeys_def key_ok_def)
  moreover have "fst ` set (?F i) \<inter> fst ` set (?F j) = {}"
    if "0 \<le> i \<and> i < n_buckets T \<and> 0 \<le> j \<and> j < n_buckets T \<and> i \<noteq> j" for i j
  proof -
    have "{A i, B i} \<inter> {A j, B j} = {}" using f(1) that unfolding filled_def by blast
    then show ?thesis by auto
  qed
  ultimately have "rlu_tbl T ?V ?F" using f(2) by (simp add: rlu_tbl_def)
  moreover have "rlu_keys T ?F = {}" by (simp add: rlu_keys_def k)
  ultimately show ?thesis using rest unfolding rlu_ready_def by blast
qed

text \<open>The set-up of the benchmark.\<close>

lemma runs_boot:
  assumes b: "rlu_blank (set ss) m" and nb: "1 \<le> nb" "nb \<le> int MAX_BUCKETS" and ss: "length ss \<le> RLU_MAX_THREADS"
    and ty: "ty \<in> {RLU_TYPE_COARSE_GRAINED, RLU_TYPE_FINE_GRAINED}" "1 \<le> ws" "ws * 2 \<le> RLU_MAX_WRITE_SETS"
    and n: "n < 2 ^ 31"
  shows "runs t (bind (rlu_init ty ws) (\<lambda>_. bind (rlu_hash_list_init nb) (\<lambda>_. for_each ss rlu_thread_init))) m
    (\<lambda>_ m'. \<exists>T. n_buckets T = nb \<and> table_ok T \<and> (\<forall>s \<in> set ss. rlu_ready s n T {} m'))"
proof -
  let ?Q = "\<lambda>(_ :: unit) m'. \<exists>T. n_buckets T = nb \<and> table_ok T \<and> (\<forall>s \<in> set ss. rlu_ready s n T {} m')"
  let ?w = "if ty = RLU_TYPE_COARSE_GRAINED then 1 else ws" and ?T = "\<lparr>n_buckets = nb, buckets = (\<lambda>_. NULL)\<rparr>"
  let ?m1 = "m\<lparr>g_rlu_writer_version := 0, g_rlu_commit_version := 0, g_rlu_type := ty, g_rlu_max_write_sets := ?w\<rparr>"
  let ?m2 = "?m1\<lparr>r_hash_list := Some ?T\<rparr>"
  have init: "runs t (rlu_init ty ws) m Q' = Q' () ?m1" for Q'
    using ty by (auto simp: rlu_init_def RLU_TYPE_COARSE_GRAINED_def RLU_TYPE_FINE_GRAINED_def RLU_MAX_WRITE_SETS_def)
  have nn: "r_alloc m L k \<noteq> NULL" for L k using b by (simp add: rlu_blank_def)
  have w: "1 \<le> ?w" "?w \<le> 100" using ty(2,3) by (simp_all add: RLU_MAX_WRITE_SETS_def)
  have "rlu_bare ?m2" using b by (simp add: rlu_blank_def rlu_bare_def alloc_ok_def)
  moreover have "filled ?T (\<lambda>_. 0) (\<lambda>_. 0) 0 ?m2" by (auto simp: filled_def)
  ultimately have "runs t (rlu_fill_buckets (nat nb) 0 nb) ?m2 (\<lambda>_ m'. runs t (for_each ss rlu_thread_init) m' ?Q)"
  proof (rule runs_rlu_fill)
    fix T A B m3
    assume 3: "rlu_bare m3" "same_threads ?m2 m3" "n_buckets T = n_buckets ?T" "filled T A B nb m3"
    have T: "n_buckets T = nb" "table_ok T" using 3(3) nb by (simp_all add: table_ok_def)
    have "runs t (for_each ss rlu_thread_init) m3 (\<lambda>_ m'. registered (g_rlu_max_write_sets m3) m3 ss m')"
      by (rule runs_thread_inits) (use b ss 3(2) in \<open>auto simp: rlu_blank_def same_threads_def\<close>)
    then show "runs t (for_each ss rlu_thread_init) m3 ?Q"
    proof (rule runs_mono)
      fix u :: unit and m4 assume "registered (g_rlu_max_write_sets m3) m3 ss m4"
      then have "registered ?w m3 ss m4" using 3(2) by (simp add: same_threads_def)
      then have "rlu_ready s n T {} m4" if "s \<in> set ss" for s
        using fresh_ready[OF 3(1) _ T(2) _ ss that _ w n] 3(4) T(1) b that by (simp add: rlu_blank_def)
      then show "?Q u m4" using T by blast
    qed
  qed (use nb in simp_all)
  then show ?thesis
    using nn by (simp add: init rlu_hash_list_init_def rlu_new_hash_list_def del: split_paired_Ex)
qed

end
