(* ===== verification/RluSpec.thy ===== *)
theory RluSpec
  imports RluInit RcxSystems
begin

text \<open>
  What the RLU engine and the RLU lists guarantee to a thread whose peers are outside their sections, and where
  they fail. The predicates are those of \<open>RluInit\<close>; the concrete machine at the beginning satisfies them.
\<close>

section \<open>A concrete machine\<close>

text \<open>Two records for threads, at the addresses 1 and 2, and the allocator of \<open>Examples\<close>.\<close>

definition rlu_ex_boot :: rlu_mach where
  "rlu_ex_boot = \<lparr>objs = (\<lambda>_. None), rlists = (\<lambda>_. None), r_hash_list = None, tds = [1 \<mapsto> zero_td, 2 \<mapsto> zero_td],
     g_rlu_type = 0, g_rlu_max_write_sets = 0, g_rlu_cur_threads = 0, g_rlu_threads = (\<lambda>_. 0),
     g_rlu_writer_locks = (\<lambda>_. 0), g_rlu_writer_version = 0, g_rlu_commit_version = 0,
     g_rlu_data = \<lparr>t_starts = 0, t_finish = 0, t_writers = 0, t_writer_writeback = 0, t_writeback_q_iters = 0,
       t_pure_readers = 0, t_steals = 0, t_aborts = 0, t_sync_requests = 0, t_sync_and_writeback = 0\<rparr>,
     r_live = [], r_llive = [], r_alloc = (\<lambda>L k. Suc (fold max L 0)), r_junk = (\<lambda>_. \<lparr>nval = 7, nnext = NullP\<rparr>),
     r_hjunk = (\<lambda>_. NullP), r_cnt = 0\<rparr>"

lemma rlu_ex_boot: "rlu_blank (set [1, 2]) rlu_ex_boot"
proof -
  have "Suc (fold max L 0) \<notin> set L" for L :: "nat list"
    using fold_max_ge[of _ L 0] by force
  then show ?thesis by (simp add: rlu_blank_def rlu_ex_boot_def NULL_def)
qed

definition rlu_ex_init :: "unit rlu" where
  "rlu_ex_init = bind (rlu_init RLU_TYPE_FINE_GRAINED 10) (\<lambda>_. bind (rlu_hash_list_init 2) (\<lambda>_.
     for_each [1, 2] rlu_thread_init))"

definition rlu_ex_mach :: rlu_mach where
  "rlu_ex_mach = (case run 0 rlu_ex_init rlu_ex_boot of Returned _ m \<Rightarrow> m | _ \<Rightarrow> rlu_ex_boot)"

lemma rlu_ex_ready: "\<exists>T. n_buckets T = 2 \<and> rlu_ready 1 1000 T {} rlu_ex_mach \<and> rlu_ready 2 1000 T {} rlu_ex_mach"
proof -
  have "runs 0 rlu_ex_init rlu_ex_boot (\<lambda>_ m'. \<exists>T. n_buckets T = 2 \<and> table_ok T \<and> (\<forall>s \<in> set [1, 2]. rlu_ready s 1000 T {} m'))"
    unfolding rlu_ex_init_def
    by (rule runs_boot[OF rlu_ex_boot]) (simp_all add: MAX_BUCKETS_def RLU_MAX_THREADS_def RLU_MAX_WRITE_SETS_def)
  then show ?thesis by (auto simp: runs_def rlu_ex_mach_def)
qed

section \<open>Lemmas\<close>

subsection \<open>Calls\<close>

lemma rlu_calls_run:
  assumes "rlu_ready s (length cs + n) T S m" "\<forall>c \<in> set cs. valid_key (snd c)" "2 \<le> f"
  obtains rs S' m' where "run t (calls (rlu_hash_call (Suc g) f s) cs) m = Returned rs m'"
    "rlu_set_steps cs S rs = Some S'" "rlu_ready s n T S' m'"
proof -
  obtain V F where v: "rlu_rest s (length cs + n) V m" "rlu_tbl T V F" "rlu_keys T F = S"
    using assms(1) by (auto simp: rlu_ready_def)
  from rlu.calls[OF v(1,2) assms(2,3), of t g, unfolded v(3)]
  obtain rs m' V' F' where "run t (calls (rlu_hash_call (Suc g) f s) cs) m = Returned rs m'"
    "rlu_rest s n V' m'" "rlu_tbl T V' F'" "rlu_set_steps cs S rs = Some (rlu_keys T F')"
    by (auto simp: runs_def)
  then show ?thesis using that by (auto simp: rlu_ready_def)
qed

lemma rlu_steps_length: "rlu_set_steps cs S rs = Some S' \<Longrightarrow> length rs = length cs"
  by (induction cs S rs rule: rlu_set_steps.induct) (auto split: option.splits)

subsection \<open>The RLU calls and the RCU calls\<close>

fun rlu_version :: "rcu_op \<Rightarrow> rlu_op" where
  "rlu_version Contains = RluContains"
| "rlu_version Add = RluAdd"
| "rlu_version Remove = RluRemove"
| "rlu_version TryAdd = RluTryAdd"
| "rlu_version TryRemove = RluTryRemove"

lemma rlu_spec_step:
  assumes "basic_call c"
  shows "rlu_set_step (map_prod rlu_version id c) S r = Some S' \<longleftrightarrow> (r, S') = set_spec c S"
proof -
  obtain oper k where c: "c = (oper, k)" by (cases c)
  show ?thesis
    using assms unfolding c by (cases oper) (auto simp: basic_call_def)
qed

lemma rlu_spec_steps:
  assumes "\<forall>c \<in> set cs. basic_call c" "rlu_set_steps (map (map_prod rlu_version id) cs) S rs = Some S'"
  shows "set_specs cs S = (rs, S')"
  using assms
proof (induction cs arbitrary: S rs)
  case Nil
  then show ?case by (cases rs) simp_all
next
  case (Cons c cs)
  obtain r rs' S1 where r: "rs = r # rs'" "rlu_set_step (map_prod rlu_version id c) S r = Some S1"
    "rlu_set_steps (map (map_prod rlu_version id) cs) S1 rs' = Some S'"
    using Cons.prems(2) by (cases rs) (fastforce simp: id_def split: option.splits)+
  have "set_spec c S = (r, S1)" using rlu_spec_step[of c S r S1] r(2) Cons.prems(1) by simp
  moreover have "set_specs cs S1 = (rs', S')" using Cons.IH[OF _ r(3)] Cons.prems(1) by simp
  ultimately show ?case by (simp add: r(1))
qed

subsection \<open>The log of a thread at rest\<close>

definition log_ok :: "nat \<Rightarrow> rlu_mach \<Rightarrow> bool" where
  "log_ok s m \<longleftrightarrow> (\<exists>d. tds m s = Some d \<and> even (run_counter d) \<and> 0 \<le> ws_head_counter d \<and>
     ws_head_counter d \<le> ws_wb_counter d \<and> ws_wb_counter d \<le> ws_tail_counter d \<and>
     ws_tail_counter d - ws_head_counter d < RLU_MAX_WRITE_SETS \<and>
     (\<forall>c. ws_wb_counter d \<le> c \<and> c < ws_tail_counter d \<longrightarrow> p_cur (wset d c) < RLU_MAX_WRITE_SET_BUFFER_SIZE \<and>
       (\<forall>k < num_of_objs (wset d c). entry_ok s d m c k)) \<and>
     (\<forall>a x. objs m a = Some x \<longrightarrow> obj_h x = NullP \<or> (\<exists>c k. ws_wb_counter d \<le> c \<and> c < ws_tail_counter d \<and>
       k < num_of_objs (wset d c) \<and> p_obj_actual (entry d c k) = ObjP a \<and> obj_h x = CopyP s (ring c) (off k))) \<and>
     free_nodes_size d < RLU_MAX_FREE_NODES \<and>
     (\<forall>i < free_nodes_size d. \<exists>a x. free_nodes d i = ObjP a \<and> objs m a = Some x \<and> obj_h x \<noteq> NullP))"

lemma rest_log_ok:
  assumes "rlu_rest s n V m"
  shows "log_ok s m"
proof -
  obtain d where a: "at_sync s n V d m" "ws_tail_counter d - ws_wb_counter d < max_write_sets d"
    using assms by (auto simp: rlu_rest_def)
  then have c: "core s n V d m" and v: "vmine V = {}" and e: "even (run_counter d)" by (simp_all add: at_sync_def)
  note r = ring_facts[OF c] and d = coreD(1)[OF c]
  have b: "p_cur (wset d x) < RLU_MAX_WRITE_SET_BUFFER_SIZE \<and> (\<forall>k < num_of_objs (wset d x). entry_ok s d m x k)"
    if "ws_wb_counter d \<le> x" "x < ws_tail_counter d" for x
  proof -
    have "ws_ok s d m x" by (rule coreD(10)[OF c that])
    then show ?thesis by (simp add: ws_ok_def ent_at_def RLU_MAX_WRITE_SET_BUFFER_SIZE_def)
  qed
  have l: "\<exists>c k. ws_wb_counter d \<le> c \<and> c < ws_tail_counter d \<and> k < num_of_objs (wset d c) \<and>
      p_obj_actual (entry d c k) = ObjP a \<and> obj_h x = CopyP s (ring c) (off k)"
    if x: "objs m a = Some x" "a \<in> vpend V" for a x
  proof -
    have "a \<in> pending d" using coreD(6)[OF c] x(2) by simp
    then show ?thesis by (rule pending_entry[OF _ c]) (use x(1) in auto)
  qed
  have u: "obj_h x = NullP \<or> a \<in> vpend V" if "objs m a = Some x" for a x
    using coreD(12)[OF c that] v by simp
  obtain as where as: "map (free_nodes d) [0..<free_nodes_size d] = map ObjP as" "distinct as" "set as = vfreed V"
    using coreD(13)[OF c] by (auto simp: frees_ok_def)
  have fr: "\<exists>a x. free_nodes d i = ObjP a \<and> objs m a = Some x \<and> obj_h x \<noteq> NullP" if "i < free_nodes_size d" for i
  proof -
    have len: "length as = free_nodes_size d" using as(1) by (metis length_map length_upt minus_nat.diff_0)
    have f: "free_nodes d i = ObjP (as ! i)" using arg_cong[OF as(1), of "\<lambda>xs. xs ! i"] that len by simp
    have "as ! i \<in> vfreed V" using as(3) that len by (metis nth_mem)
    then have "as ! i \<in> pending d" using coreD(6,14)[OF c] v by auto
    then show ?thesis by (rule pending_entry[OF _ c]) (use f in auto)
  qed
  have "free_nodes_size d < RLU_MAX_FREE_NODES"
    using frees_bound[OF c] v by (simp add: RLU_MAX_FREE_NODES_def)
  then show ?thesis
    unfolding log_ok_def
  proof (intro exI conjI)
    show "tds m s = Some d" "even (run_counter d)" "0 \<le> ws_head_counter d" "ws_head_counter d \<le> ws_wb_counter d"
      "ws_wb_counter d \<le> ws_tail_counter d" by (fact d e r)+
    show "ws_tail_counter d - ws_head_counter d < RLU_MAX_WRITE_SETS"
      using r(5,7) a(2) by (simp add: RLU_MAX_WRITE_SETS_def)
    show "\<forall>a x. objs m a = Some x \<longrightarrow> obj_h x = NullP \<or> (\<exists>c k. ws_wb_counter d \<le> c \<and> c < ws_tail_counter d \<and>
       k < num_of_objs (wset d c) \<and> p_obj_actual (entry d c k) = ObjP a \<and> obj_h x = CopyP s (ring c) (off k))"
      using u l by blast
  qed (use b fr in blast)+
qed

subsection \<open>The end of a thread\<close>

lemma at_sync_data:
  assumes "at_sync s n V d m"
  shows "at_sync s n V d (m\<lparr>g_rlu_data := r\<rparr>)"
proof -
  let ?m = "m\<lparr>g_rlu_data := r\<rparr>"
  have c: "core s n V d m" using assms by (simp add: at_sync_def)
  have l: "lnode ?m = lnode m" by (rule lnode_tds) simp
  have "lheap ?m = lheap m" unfolding lheap_def[abs_def] l by simp
  moreover have "ws_ok s d ?m x = ws_ok s d m x" for x by (rule ws_ok_cong) simp_all
  moreover have "quiet_peers s d ?m" using coreD(2)[OF c] by (simp add: quiet_peers_def)
  moreover have "alloc_ok ?m" using coreD(4)[OF c] by (simp add: alloc_ok_def)
  moreover have "view_of d m V" using c by (simp add: core_def)
  then have "view_of d ?m V" using calculation(1) by (simp add: view_of_def)
  ultimately have "core s n V d ?m" using c by (simp add: core_def)
  then show ?thesis using assms by (simp add: at_sync_def)
qed

lemma sync_any:
  assumes a: "at_sync s n V d m"
  shows "runs t (rlu_sync_and_writeback (Suc g) s) m (\<lambda>_ m'. \<exists>V' d'. at_sync s n V' d' m' \<and> (V' = V \<or> V' = settle V) \<and>
    ws_head_counter d' = ws_wb_counter d \<and> ws_wb_counter d' = ws_tail_counter d \<and> ws_tail_counter d' = ws_tail_counter d)"
proof (cases "ws_tail_counter d = ws_head_counter d")
  case True
  have c: "core s n V d m" and e: "even (run_counter d)" using a by (simp_all add: at_sync_def)
  have "ws_wb_counter d = ws_tail_counter d" using ring_facts(2,3)[OF c] True by simp
  then show ?thesis
    using True a e coreD(1)[OF c] by (auto simp: rlu_sync_and_writeback_def)
next
  case False
  show ?thesis by (rule runs_mono[OF sync_settles[OF a False]]) blast
qed

lemma runs_add_stat:
  "tds m s = Some d \<Longrightarrow> runs t (add_stat s f add) m Q = Q () (m\<lparr>g_rlu_data := add (f d) (g_rlu_data m)\<rparr>)"
  by (simp add: add_stat_def)

lemma runs_finish:
  assumes "rlu_ready s n T S m"
  shows "runs t (rlu_thread_finish (Suc g) s) m (\<lambda>_ m'. rlu_ready s n T S m' \<and> (\<forall>a x. objs m' a = Some x \<longrightarrow> obj_h x = NullP) \<and>
    (\<exists>d. tds m' s = Some d \<and> ws_head_counter d = ws_tail_counter d \<and> free_nodes_size d = 0))"
proof -
  let ?Q = "\<lambda>(_ :: unit) m'. rlu_ready s n T S m' \<and> (\<forall>a x. objs m' a = Some x \<longrightarrow> obj_h x = NullP) \<and>
    (\<exists>d. tds m' s = Some d \<and> ws_head_counter d = ws_tail_counter d \<and> free_nodes_size d = 0)"
  obtain V F d where v: "at_sync s n V d m" "ws_tail_counter d - ws_wb_counter d < max_write_sets d" "rlu_tbl T V F"
    "rlu_keys T F = S" using assms by (auto simp: rlu_ready_def rlu_rest_def)
  have fin: "?Q u (m'\<lparr>g_rlu_data := r\<rparr>)"
    if st: "at_sync s n V' d' m'" "V' = V \<or> V' = settle V" "ws_head_counter d' = ws_tail_counter d'"
      "ws_wb_counter d' = ws_tail_counter d'" for V' d' m' r and u :: unit
  proof -
    have c: "core s n V' d' m'" and mine: "vmine V' = {}" using st(1) by (simp_all add: at_sync_def)
    have p: "vpend V' = {}" using coreD(6)[OF c] st(4) by (simp add: pending_def)
    have "\<forall>a x. objs m' a = Some x \<longrightarrow> obj_h x = NullP" using coreD(12)[OF c] p mine by blast
    moreover have "vfreed V' = {}" using coreD(14)[OF c] p mine by blast
    then have "free_nodes_size d' = 0" using coreD(13)[OF c] by (auto simp: frees_ok_def)
    moreover have "rlu_tbl T V' F" using st(2) tbl_settled[OF settledI(1) v(3)] v(3) by blast
    moreover have "rlu_rest s n V' (m'\<lparr>g_rlu_data := r\<rparr>)"
      unfolding rlu_rest_def using at_sync_data[OF st(1)] st(4) ring_facts(6)[OF c]
      by (intro exI[of _ d']) simp
    ultimately show ?thesis
      using v(4) st(3) coreD(1)[OF c] unfolding rlu_ready_def by auto
  qed
  have stats: "runs t (rlu_thread_finish (Suc g) s) m ?Q" if
    "runs t (rlu_sync_and_writeback (Suc g) s) m (\<lambda>_ m'. runs t (rlu_sync_and_writeback (Suc g) s) m' (\<lambda>_ m'.
      \<exists>d. tds m' s = Some d \<and> (\<forall>r. ?Q () (m'\<lparr>g_rlu_data := r\<rparr>))))"
    unfolding rlu_thread_finish_def runs_bind
    by (rule runs_mono[OF that], erule runs_mono, elim exE conjE) (simp add: runs_add_stat)
  show ?thesis
  proof (rule stats, rule runs_mono[OF sync_any[OF v(1)]], elim exE conjE)
    fix u :: unit and m1 V1 d1
    assume 1: "at_sync s n V1 d1 m1" "V1 = V \<or> V1 = settle V" "ws_head_counter d1 = ws_wb_counter d"
      "ws_wb_counter d1 = ws_tail_counter d" "ws_tail_counter d1 = ws_tail_counter d"
    show "runs t (rlu_sync_and_writeback (Suc g) s) m1 (\<lambda>_ m'. \<exists>d. tds m' s = Some d \<and> (\<forall>r. ?Q () (m'\<lparr>g_rlu_data := r\<rparr>)))"
    proof (rule runs_mono[OF sync_any[OF 1(1)]], elim exE conjE)
      fix u :: unit and m2 V2 d2
      assume 2: "at_sync s n V2 d2 m2" "V2 = V1 \<or> V2 = settle V1" "ws_head_counter d2 = ws_wb_counter d1"
        "ws_wb_counter d2 = ws_tail_counter d1" "ws_tail_counter d2 = ws_tail_counter d1"
      have "V2 = V \<or> V2 = settle V" using 1(2) 2(2) by (auto simp: settle_def restrict_map_def fun_eq_iff)
      then have "?Q () (m2\<lparr>g_rlu_data := r\<rparr>)" for r by (rule fin[OF 2(1)]) (use 1 2 in simp_all)
      moreover have "tds m2 s = Some d2" using 2(1) by (auto simp: at_sync_def dest: coreD(1))
      ultimately show "\<exists>d. tds m2 s = Some d \<and> (\<forall>r. ?Q () (m2\<lparr>g_rlu_data := r\<rparr>))" by blast
    qed
  qed
qed

subsection \<open>Failures\<close>

text \<open>Like its RCU counterpart, \<open>rlu_hash_list_destroy\<close> reads the next pointer of the node it has just freed.\<close>

lemma rlu_destroy_uses_freed_node:
  assumes "rlu_ready s n T S m"
  shows "run t (rlu_hash_list_destroy (Suc w)) m = Faulted"
proof -
  obtain V F where v: "rlu_rest s n V m" "rlu_tbl T V F" using assms by (auto simp: rlu_ready_def)
  have T: "r_hash_list m = Some T" "table_ok T" using v rlu_rest_env[OF v(1)] by (auto simp: rlu_tbl_def)
  then have n: "0 < n_buckets T" by (simp add: table_ok_def)
  have l: "rlist V (buckets T 0) (F 0)" by (rule tblD(1)[OF v(2)]) (use n in simp_all)
  let ?b = "fst (hd (F 0))"
  have h: "rlists m (buckets T 0) = Some (ObjP ?b)" using l rlu_rest_env[OF v(1)] by (simp add: rlist_def)
  have "F 0 \<noteq> []" using l by (cases "F 0") (auto simp: rlist_def)
  then have "vheap V ?b \<noteq> None" using rlist_nodes[OF l, of ?b] by (auto simp: image_iff intro: hd_in_set)
  moreover have "vheap V = lheap m" using v(1) by (auto simp: rlu_rest_def at_sync_def dest: coreD(5))
  ultimately obtain x where "objs m ?b = Some x" by (auto simp: lheap_def)
  moreover have B: "0 < MAX_BUCKETS" by (simp add: MAX_BUCKETS_def)
  ultimately have "run t (rlu_destroy_buckets (Suc w) (Suc MAX_BUCKETS) 0) m = Faulted"
    using T n h B by (simp add: run_bind run_atomic rl_table_def rl_bucket_def rl_head_def rlu_free_def nd_rd.simps(1))
  then show ?thesis by (simp add: rlu_hash_list_destroy_def run_bind)
qed

section \<open>Properties\<close>



text \<open>C17: The blocking RLU calls and the calls of the RCU list with one lock per list return the same values and
  make the same set, when they start from the same set.\<close>

theorem rlu_equals_rcu:
  assumes "rlu_ready s (length cs + n) T (table_set T' m0) m" "\<forall>c \<in> set cs. basic_call c" "2 \<le> f"
    and "table_ok T'" "coarse_idle T' m0"
  shows "\<exists>rs m1 m2. run t (calls (rlu_hash_call (Suc g) f s) (map (map_prod rlu_version id) cs)) m = Returned rs m1 \<and>
    run t' (calls (rcu_hash_call f') cs) m0 = Returned rs m2 \<and> rlu_ready s n T (table_set T' m2) m1"
proof -
  let ?ds = "map (map_prod rlu_version id) cs"
  have "rlu_ready s (length ?ds + n) T (table_set T' m0) m" "\<forall>c \<in> set ?ds. valid_key (snd c)"
    using assms(1,2) by (auto simp: basic_call_def)
  then obtain rs S' m1 where l: "run t (calls (rlu_hash_call (Suc g) f s) ?ds) m = Returned rs m1"
    "rlu_set_steps ?ds (table_set T' m0) rs = Some S'" "rlu_ready s n T S' m1"
    using assms(3) by (rule rlu_calls_run)
  obtain rs' m2 where "run t' (calls (rcu_hash_call f') cs) m0 = Returned rs' m2"
    "(rs', table_set T' m2) = set_specs cs (table_set T' m0)"
    using coarse_calls_set[of cs T' m0 t' f'] assms(2,4,5) basic_call(1) by blast
  then show ?thesis using l rlu_spec_steps[OF assms(2) l(2)] by auto
qed

theorem rlu_equals_rcu_witness:
  "\<exists>rs m1 m2. run 0 (calls (rlu_hash_call 1 2 1) [(RluAdd, 3), (RluContains, 3)]) rlu_ex_mach = Returned rs m1 \<and>
    run 0 (calls (rcu_hash_call 0) [(Add, 3), (Contains, 3)]) ex_mach = Returned rs m2"
proof -
  let ?cs = "[(Add, 3), (Contains, 3)] :: rcu_call list"
  obtain T where "rlu_ready 1 (length ?cs + 998) T (table_set ex_table ex_mach) rlu_ex_mach"
    using rlu_ex_ready ex_ready(5) by auto
  moreover have "\<forall>c \<in> set ?cs. basic_call c" by (simp add: basic_call_def valid_key_def LIST_VAL_MAX_def)
  ultimately have "\<exists>rs m1 m2. run 0 (calls (rlu_hash_call (Suc 0) 2 1) (map (map_prod rlu_version id) ?cs)) rlu_ex_mach =
      Returned rs m1 \<and> run 0 (calls (rcu_hash_call 0) ?cs) ex_mach = Returned rs m2 \<and>
      rlu_ready 1 998 T (table_set ex_table m2) m1"
    by (rule rlu_equals_rcu[OF _ _ _ ex_ready(1,3)]) simp
  then show ?thesis by (auto simp del: calls.simps)
qed

text \<open>C27: \<open>rlu_init\<close>, \<open>rlu_hash_list_init\<close> and \<open>rlu_thread_init\<close> of up to 200 threads make, on a machine
  without lists, a table of the size asked for on which each of the threads is ready, with no keys.\<close>

theorem rlu_init_ready:
  assumes "rlu_blank (set ss) m" "1 \<le> nb" "nb \<le> int MAX_BUCKETS" "length ss \<le> RLU_MAX_THREADS"
    and "ty \<in> {RLU_TYPE_COARSE_GRAINED, RLU_TYPE_FINE_GRAINED}" "1 \<le> ws" "ws * 2 \<le> RLU_MAX_WRITE_SETS" "n < 2 ^ 31"
  shows "\<exists>T m'. run t (bind (rlu_init ty ws) (\<lambda>_. bind (rlu_hash_list_init nb) (\<lambda>_. for_each ss rlu_thread_init))) m =
      Returned () m' \<and> n_buckets T = nb \<and> (\<forall>s \<in> set ss. rlu_ready s n T {} m')"
  using runs_boot[OF assms, of t] by (auto simp: runs_def)

theorem rlu_init_ready_witness:
  "\<exists>T m'. run 0 (bind (rlu_init RLU_TYPE_FINE_GRAINED 10) (\<lambda>_. bind (rlu_hash_list_init 2) (\<lambda>_.
      for_each [1, 2] rlu_thread_init))) rlu_ex_boot = Returned () m' \<and> n_buckets T = 2 \<and> rlu_ready 2 1000 T {} m'"
  using rlu_init_ready[OF rlu_ex_boot, of 2 RLU_TYPE_FINE_GRAINED 10 1000 0]
  by (auto simp: MAX_BUCKETS_def RLU_MAX_THREADS_def RLU_MAX_WRITE_SETS_def)

text \<open>C11: After any calls of a thread its log is well-formed: the counters are in order and the ring of write sets is
  not full, no buffer has overflown, the entries of the write sets not yet written back carry the size, owner and
  mark of a copy and point to the object that points to them, every locked object has such an entry, and the
  objects to be freed are locked.\<close>

theorem rlu_log_wellformed:
  assumes "rlu_ready s (length cs + n) T S m" "\<forall>c \<in> set cs. valid_key (snd c)" "2 \<le> f"
  shows "\<exists>rs m'. run t (calls (rlu_hash_call (Suc g) f s) cs) m = Returned rs m' \<and> log_ok s m'"
proof (rule rlu_calls_run[OF assms])
  fix rs S' m'
  assume "run t (calls (rlu_hash_call (Suc g) f s) cs) m = Returned rs m'" "rlu_ready s n T S' m'"
  then show ?thesis using rest_log_ok by (auto simp: rlu_ready_def)
qed

theorem rlu_log_wellformed_witness:
  "\<exists>rs m'. run 0 (calls (rlu_hash_call 1 2 2) [(RluAdd, 3), (RluTryRemove, 3)]) rlu_ex_mach = Returned rs m' \<and> log_ok 2 m'"
proof -
  let ?cs = "[(RluAdd, 3), (RluTryRemove, 3)]"
  obtain T where "rlu_ready 2 (length ?cs + 998) T {} rlu_ex_mach" using rlu_ex_ready by auto
  moreover have "\<forall>c \<in> set ?cs. valid_key (snd c)" by (simp add: valid_key_def LIST_VAL_MAX_def)
  ultimately show ?thesis using rlu_log_wellformed[of 2 ?cs 998 T "{}" rlu_ex_mach 2 0 0] by (simp del: calls.simps)
qed

text \<open>C22: \<open>rlu_thread_finish\<close> writes everything back: no object is locked any more, nothing waits to be freed, the log
  is empty, and the set of keys is what it was.\<close>

theorem rlu_finish_flushes:
  assumes "rlu_ready s n T S m"
  shows "\<exists>m' d. run t (rlu_thread_finish (Suc g) s) m = Returned () m' \<and> rlu_ready s n T S m' \<and>
    (\<forall>a x. objs m' a = Some x \<longrightarrow> obj_h x = NullP) \<and>
    tds m' s = Some d \<and> ws_head_counter d = ws_tail_counter d \<and> free_nodes_size d = 0"
  using runs_finish[OF assms, of t g] by (auto simp: runs_def)

theorem rlu_finish_flushes_witness:
  "\<exists>m m' T S. run 0 (rlu_hash_call 1 2 1 (RluAdd, 3)) rlu_ex_mach = Returned 0 m \<and> rlu_ready 1 999 T S m \<and> 3 \<in> S \<and>
    run 0 (rlu_thread_finish 1 1) m = Returned () m' \<and> rlu_ready 1 999 T S m' \<and>
    (\<forall>a x. objs m' a = Some x \<longrightarrow> obj_h x = NullP)"
proof -
  obtain T where "rlu_ready 1 (length [(RluAdd, 3 :: int)] + 999) T {} rlu_ex_mach" using rlu_ex_ready by auto
  moreover have "\<forall>c \<in> set [(RluAdd, 3)]. valid_key (snd c)" by (simp add: valid_key_def LIST_VAL_MAX_def)
  ultimately obtain rs S m where r: "run 0 (calls (rlu_hash_call (Suc 0) 2 1) [(RluAdd, 3)]) rlu_ex_mach = Returned rs m"
    "rlu_set_steps [(RluAdd, 3)] {} rs = Some S" "rlu_ready 1 999 T S m"
    by (rule rlu_calls_run[OF _ _ order_refl])
  obtain r1 where "rs = [r1]" using rlu_steps_length[OF r(2)] by (auto simp: length_Suc_conv)
  then have rs: "rs = [0]" "3 \<in> S" using r(2) by (auto split: if_splits)
  have "run 0 (rlu_hash_call 1 2 1 (RluAdd, 3)) rlu_ex_mach = Returned 0 m"
    using r(1) rs(1) by (cases "run 0 (rlu_hash_call 1 2 1 (RluAdd, 3)) rlu_ex_mach") (auto simp: run_bind simp del: rlu_hash_call.simps)
  then show ?thesis using rlu_finish_flushes[OF r(3), of 0 0] rs(2) r(3) by auto
qed

text \<open>C33: Once a thread has committed 2 ^ 31 write sets, \<open>rlu_abort\<close> of a section that has locked something indexes
  the write sets out of bounds: it passes the \<open>long\<close> counter on as an \<open>int\<close>, whose remainder is negative.\<close>

theorem rlu_abort_narrows:
  assumes "tds m s = Some d" "odd (run_counter d)" "is_write_detected d \<noteq> 0" "ws_tail_counter d = 2 ^ 31"
  shows "run t (rlu_abort g s) m = Faulted"
proof -
  have i: "WS_INDEX (to_int32 (2 ^ 31)) = - 48" by (simp add: WS_INDEX_def to_int32_def c_rem_def RLU_MAX_WRITE_SETS_def)
  have "run t (rlu_unlock_objs s (to_int32 (2 ^ 31))) m' = Faulted" for m'
    unfolding rlu_unlock_objs_def Let_def i by (simp add: ws_rd_def)
  then show ?thesis
    using assms by (simp add: rlu_abort_def rlu_unregister_thread_def run_bind td_wr_def td_rd_def run_atomic set_td_def
        rlu_assert_def)
qed

definition rlu_ex_old :: rlu_mach where
  "rlu_ex_old = rlu_ex_boot\<lparr>tds := [1 \<mapsto> zero_td\<lparr>run_counter := 2 ^ 32 + 1, is_write_detected := 1, ws_tail_counter := 2 ^ 31\<rparr>]\<rparr>"

theorem rlu_abort_narrows_witness: "run 0 (rlu_abort 1 1) rlu_ex_old = Faulted"
  by (rule rlu_abort_narrows[where d = "zero_td\<lparr>run_counter := 2 ^ 32 + 1, is_write_detected := 1, ws_tail_counter := 2 ^ 31\<rparr>"])
    (simp_all add: rlu_ex_old_def)

end
