(* ===== verification/Benchmarks.thy ===== *)
theory Benchmarks
  imports Driver RluSpec
begin

text \<open>
  Benchmarks of sync\_test.c on the lists: the lists keep the contract \<open>bench_client\<close> of the driver, so that a run
  with one thread, from the set-up to the end of the thread, returns.
\<close>

subsection \<open>Entries of the list of benchmarks\<close>


text \<open>\<open>rcu\<close>.\<close>

definition rcu_bench :: "mach benchmark_t" where
  "rcu_bench = \<lparr>b_lookup = rcu_hash_list_contains WALK, b_insert = rcu_hash_list_add WALK,
     b_delete = rcu_hash_list_remove WALK\<rparr>"

subsection \<open>The RLU lists\<close>





subsection \<open>The RCU lists\<close>

lemma rcu_call_idle:
  assumes "coarse_call c" "table_ok T" "coarse_idle T m"
  shows "runs t (rcu_hash_call 0 c) m (\<lambda>r m'. coarse_idle T m' \<and> r = fst (set_spec c (table_set T m)))"
proof -
  obtain rs m' where r: "run t (calls (rcu_hash_call 0) [c]) m = Returned rs m'" "coarse_idle T m'"
    "(rs, table_set T m') = set_specs [c] (table_set T m)"
    using coarse_calls_set[of "[c]" T m t 0] assms by auto
  then have "runs t (calls (rcu_hash_call 0) [c]) m (\<lambda>rs m'. coarse_idle T m' \<and> hd rs = fst (set_spec c (table_set T m)))"
    by (simp add: runs_def split_beta Let_def del: calls.simps)
  then show ?thesis by simp
qed

lemma rcu_call_table:
  assumes "table_ok T \<and> coarse_idle T m" "valid_key key" "oper \<in> {Contains, Add, Remove}"
  shows "runs t (rcu_hash_call 0 (oper, key)) m (\<lambda>r m'. table_ok T \<and> coarse_idle T m')"
  by (rule runs_mono[OF rcu_call_idle]) (use assms in \<open>auto simp: coarse_call_def\<close>)

lemma rcu_bench_calls:
  "b_lookup rcu_bench key = rcu_hash_call 0 (Contains, key)" "b_insert rcu_bench key = rcu_hash_call 0 (Add, key)"
  "b_delete rcu_bench key = rcu_hash_call 0 (Remove, key)"
  by (simp_all add: rcu_bench_def)

interpretation rcu_driver: bench_client t rcu_bench "\<lambda>n m. table_ok T \<and> coarse_idle T m" for t T
proof (unfold_locales, goal_cases)
  case (1 n m)
  then show ?case .
next
  case (5 n m key key')
  show ?case
    unfolding rcu_bench_calls
    by (rule runs_mono[OF rcu_call_idle]) (use 5 in \<open>auto simp: coarse_call_def Let_def\<close>)
qed (unfold rcu_bench_calls, (erule rcu_call_table, assumption, simp)+)

subsection \<open>A benchmark with one thread\<close>





end
