(* ===== verification/BenchInit.thy ===== *)
theory BenchInit
  imports Driver RtmDebug
begin

text \<open>
  What sync\_test.c does around the threads of a benchmark: the table of benchmarks and the checks of the module
  parameters, the CPUs the threads are bound to, and the report. Functions that the table points to are given by
  their names, the printed numbers by their labels.
\<close>

subsection \<open>The table of benchmarks and the checks\<close>

record bench_entry =
  e_name :: string
  e_init :: "string option"
  e_lookup :: "string option"
  e_insert :: "string option"
  e_delete :: "string option"
  e_destroy :: "string option"

text \<open>\<open>entry n l x d\<close>: lists of the family \<open>l\<close> with the updates of the variant \<open>x\<close>; \<open>d\<close> says whether \<open>destroy\<close> is
  set. The table has \<open>MAX_BENCHMARKS\<close> entries, of which the last are zero.\<close>

definition entry :: "string \<Rightarrow> string \<Rightarrow> string \<Rightarrow> bool \<Rightarrow> bench_entry" where
  "entry n l x d = \<lparr>e_name = n, e_init = Some (l @ ''_hash_list_init''), e_lookup = Some (l @ ''_hash_list_contains''),
     e_insert = Some (l @ ''_hash_list_'' @ x @ ''add''), e_delete = Some (l @ ''_hash_list_'' @ x @ ''remove''),
     e_destroy = (if d then Some (l @ ''_hash_list_destroy'') else None)\<rparr>"

definition zero_entry :: bench_entry where
  "zero_entry = \<lparr>e_name = [], e_init = None, e_lookup = None, e_insert = None, e_delete = None, e_destroy = None\<rparr>"

definition MAX_BENCHMARKS :: nat where "MAX_BENCHMARKS = 16"

definition named_benchmarks :: "bench_entry list" where
  "named_benchmarks =
    [entry ''rcu'' ''rcu'' '''' True, entry ''rcu-forgive'' ''rcu'' ''try_'' True,
     entry ''rcu-fglock'' ''rcu'' ''fg_'' True, entry ''rcu-numa'' ''rcu'' ''numa_'' True,
     entry ''rlu'' ''rlu'' '''' False, entry ''rlu-forgive'' ''rlu'' ''try_'' False,
     entry ''rcuhtm'' ''rcx'' ''lf_'' True, entry ''forgive'' ''rcx'' ''try_'' True,
     entry ''retry'' ''rcx'' ''retry_'' True, entry ''hwa'' ''rcx'' ''fb1_'' True,
     entry ''rcx-htmlock'' ''rcx'' ''htmlock_'' True, entry ''rcx-hhtmlock'' ''rcx'' ''hhtmlock_'' True,
     entry ''rcx'' ''rcx'' ''numa_'' True]"

definition benchmarks :: "bench_entry list" where
  "benchmarks = named_benchmarks @ replicate (MAX_BENCHMARKS - length named_benchmarks) zero_entry"

datatype errno = EPERM

text \<open>The result is the benchmark and whether it is skipped: \<open>rlu\<close> is, with 144 threads or more.\<close>

definition sync_test_check :: "string \<Rightarrow> int \<Rightarrow> int \<Rightarrow> int \<Rightarrow> errno + bench_entry \<times> bool" where
  "sync_test_check benchmark threads_nb nr_buckets online_cpus =
    (case List.find (\<lambda>e. e_name e = benchmark) benchmarks of
       None \<Rightarrow> Inl EPERM
     | Some bench \<Rightarrow>
         if e_lookup bench = None \<or> e_insert bench = None \<or> e_delete bench = None then Inl EPERM
         else if online_cpus < threads_nb then Inl EPERM
         else if int RLU_MAX_THREADS < threads_nb then Inl EPERM
         else if int MAX_BUCKETS < nr_buckets then Inl EPERM
         else Inr (bench, e_name bench = ''rlu'' \<and> 144 \<le> threads_nb))"

subsection \<open>The CPUs of the threads\<close>

text \<open>The topology: the online nodes and the CPUs of each, in ascending order, and the limits of both.\<close>

record numa_topo =
  online_nodes :: "nat list"
  node_cpus :: "nat \<Rightarrow> nat list"
  nr_cpu_ids :: nat
  MAX_NUMNODES :: nat

definition first_online_node :: "numa_topo \<Rightarrow> nat" where
  "first_online_node tp = (case online_nodes tp of [] \<Rightarrow> MAX_NUMNODES tp | n # _ \<Rightarrow> n)"

definition next_online_node :: "numa_topo \<Rightarrow> nat \<Rightarrow> nat" where
  "next_online_node tp n = (case List.find (\<lambda>n'. n < n') (online_nodes tp) of None \<Rightarrow> MAX_NUMNODES tp | Some n' \<Rightarrow> n')"

definition cpumask_first :: "numa_topo \<Rightarrow> nat list \<Rightarrow> nat" where
  "cpumask_first tp cpus = (case cpus of [] \<Rightarrow> nr_cpu_ids tp | c # _ \<Rightarrow> c)"

definition cpumask_next :: "numa_topo \<Rightarrow> nat \<Rightarrow> nat list \<Rightarrow> nat" where
  "cpumask_next tp c cpus = (case List.find (\<lambda>c'. c < c') cpus of None \<Rightarrow> nr_cpu_ids tp | Some c' \<Rightarrow> c')"

definition bind_node :: "numa_topo \<Rightarrow> nat \<Rightarrow> nat" where
  "bind_node tp node = (let node = next_online_node tp node in
     if node = MAX_NUMNODES tp then first_online_node tp else node)"

text \<open>The last argument counts the threads to go.\<close>

fun cpubind_loop :: "numa_topo \<Rightarrow> nat \<Rightarrow> nat \<Rightarrow> nat list \<Rightarrow> nat \<Rightarrow> nat \<Rightarrow> nat \<Rightarrow> nat list" where
  "cpubind_loop tp node capa cpus cpu thr 0 = []"
| "cpubind_loop tp node capa cpus cpu thr (Suc n) =
    (let (node, capa) = (if capa \<le> thr
           then (bind_node tp node, capa + length (node_cpus tp (bind_node tp node))) else (node, capa));
         (cpus, cpu) = (if nr_cpu_ids tp \<le> cpu
           then (node_cpus tp node, cpumask_first tp (node_cpus tp node)) else (cpus, cpu))
     in cpu # cpubind_loop tp node capa cpus (cpumask_next tp cpu cpus) (thr + 1) n)"

definition cpubind_numa_arr :: "numa_topo \<Rightarrow> nat \<Rightarrow> nat list" where
  "cpubind_numa_arr tp nr_threads =
    (let node = first_online_node tp; cpus = node_cpus tp node
     in cpubind_loop tp node (length cpus) cpus (cpumask_first tp cpus) 0 nr_threads)"

subsection \<open>The report\<close>

definition add_ops :: "bench_ops \<Rightarrow> bench_ops \<Rightarrow> bench_ops" where
  "add_ops b ops = \<lparr>nb_lookup = nb_lookup b + nb_lookup ops, nb_insert = nb_insert b + nb_insert ops,
     nb_delete = nb_delete b + nb_delete ops, nb_ins_abort = nb_ins_abort b + nb_ins_abort ops,
     nb_del_abort = nb_del_abort b + nb_del_abort ops\<rparr>"

definition collect_ops :: "bench_ops list \<Rightarrow> bench_ops" where
  "collect_ops opss = fold (\<lambda>ops b. add_ops b ops) opss no_ops"

text \<open>Division of two \<open>long\<close> values.\<close>

definition long_div :: "64 word \<Rightarrow> 64 word \<Rightarrow> 64 word" where
  "long_div x y = of_int (c_div (sint x) (sint y))"

text \<open>\<open>None\<close> is a division by zero. The numbers that stay \<open>unsigned long\<close> are divided as such, the ones the code
  assigns to \<open>long\<close> as signed numbers.\<close>

definition bench_report :: "int \<Rightarrow> bench_ops \<Rightarrow> ((string \<times> 64 word) list \<times> result_stat) option" where
  "bench_report dur bench =
    (let d = of_int dur;
         nr_aborts = nb_ins_abort bench + nb_del_abort bench;
         nr_ops = at_least_one (nb_lookup bench + nb_insert bench + nb_delete bench + nr_aborts);
         nr_updates = at_least_one (nb_insert bench + nb_delete bench + nr_aborts)
     in if d = 0 then None else Some
       ([(''lookup'', nb_lookup bench * 1000 div d), (''insert'', nb_insert bench * 1000 div d),
         (''delete'', nb_delete bench * 1000 div d), (''update'', (nb_delete bench + nb_insert bench) * 1000 div d),
         (''ops'', long_div (nr_ops * 1000) d), (''success'', long_div ((nr_ops - nr_aborts) * 1000) d),
         (''ins abort'', nb_ins_abort bench * 1000 div d), (''del abort'', nb_del_abort bench * 1000 div d),
         (''abort'', long_div (nr_aborts * 1000) d), (''abort / ops'', long_div (nr_aborts * 1000) nr_ops),
         (''abort / updates'', long_div (nr_aborts * 1000) nr_updates)],
        \<lparr>duration_ms = d, nr_issued_ops = nr_ops, nr_succ_ops = nr_ops - nr_aborts, nr_upd = nr_updates\<rparr>))"

text \<open>The whole output: the report on the threads' counters and the one on the aborts.\<close>

definition sync_test_result :: "nat list \<Rightarrow> (nat \<Rightarrow> rtm_abort_cnt) \<Rightarrow> int \<Rightarrow> bench_ops list \<Rightarrow> (string \<times> 64 word) list option" where
  "sync_test_result online cnts dur opss =
    map_option (\<lambda>(lines, stat). lines @ fst (pr_abort_stat online cnts stat)) (bench_report dur (collect_ops opss))"

subsection \<open>What the checks let pass\<close>

lemma benchmarks_complete:
  "e \<in> set benchmarks \<Longrightarrow> e_lookup e = None \<or> e_insert e = None \<or> e_delete e = None \<longleftrightarrow> e_name e = []"
  by (auto simp: benchmarks_def named_benchmarks_def entry_def zero_entry_def MAX_BENCHMARKS_def)

text \<open>The empty name, which selects an unused entry, is refused; numbers that are 0 or negative are not.\<close>

lemma sync_test_check_passes:
  "sync_test_check n thr nb online = Inr (e, skip) \<longleftrightarrow>
    List.find (\<lambda>e. e_name e = n) benchmarks = Some e \<and> n \<noteq> [] \<and> thr \<le> online \<and> thr \<le> int RLU_MAX_THREADS \<and>
    nb \<le> int MAX_BUCKETS \<and> (skip \<longleftrightarrow> n = ''rlu'' \<and> 144 \<le> thr)"
proof (cases "List.find (\<lambda>e. e_name e = n) benchmarks")
  case None
  then show ?thesis by (simp add: sync_test_check_def)
next
  case (Some e')
  then have e': "e' \<in> set benchmarks" "e_name e' = n" by (auto simp: find_Some_iff)
  show ?thesis using benchmarks_complete[OF e'(1)] e'(2) by (auto simp: sync_test_check_def Some not_less)
qed

subsection \<open>The CPUs of the threads\<close>

text \<open>Every online node has a CPU, and no two nodes share one.\<close>

definition topo_ok :: "numa_topo \<Rightarrow> bool" where
  "topo_ok tp \<longleftrightarrow> online_nodes tp \<noteq> [] \<and> sorted_wrt (<) (online_nodes tp) \<and>
    (\<forall>n \<in> set (online_nodes tp). n < MAX_NUMNODES tp \<and> node_cpus tp n \<noteq> [] \<and> sorted_wrt (<) (node_cpus tp n) \<and>
      (\<forall>c \<in> set (node_cpus tp n). c < nr_cpu_ids tp)) \<and>
    distinct (concat (map (node_cpus tp) (online_nodes tp)))"

lemma find_above:
  assumes "sorted_wrt (<) (pre @ (x :: nat) # post)"
  shows "List.find (\<lambda>y. x < y) (pre @ x # post) = (case post of [] \<Rightarrow> None | y # _ \<Rightarrow> Some y)"
  using assms
proof (induction pre)
  case Nil
  then show ?case by (cases post) auto
next
  case (Cons a pre)
  then show ?case by (auto simp: less_not_sym)
qed

lemma cpumask_next_in:
  "sorted_wrt (<) (pre @ c # rest) \<Longrightarrow> cpumask_next tp c (pre @ c # rest) = cpumask_first tp rest"
  by (simp add: cpumask_next_def cpumask_first_def find_above split: list.splits)

text \<open>Within a node the loop hands out the CPUs that are left.\<close>

lemma cpubind_rest:
  assumes "sorted_wrt (<) (pre @ rest)" "\<forall>c \<in> set rest. c < nr_cpu_ids tp"
  shows "cpubind_loop tp node (thr + length rest) (pre @ rest) (cpumask_first tp rest) thr (length rest + n) =
    rest @ cpubind_loop tp node (thr + length rest) (pre @ rest) (nr_cpu_ids tp) (thr + length rest) n"
  using assms
proof (induction rest arbitrary: pre thr)
  case Nil
  then show ?case by (simp add: cpumask_first_def)
next
  case (Cons c rest)
  have "cpubind_loop tp node (Suc thr + length rest) ((pre @ [c]) @ rest) (cpumask_first tp rest) (Suc thr) (length rest + n) =
      rest @ cpubind_loop tp node (Suc thr + length rest) ((pre @ [c]) @ rest) (nr_cpu_ids tp) (Suc thr + length rest) n"
    by (rule Cons.IH) (use Cons.prems in auto)
  then show ?case using Cons.prems by (simp add: cpumask_next_in cpumask_first_def[of tp "c # rest"] Let_def not_le)
qed

lemma cpubind_short:
  assumes "sorted_wrt (<) (pre @ rest)" "\<forall>c \<in> set rest. c < nr_cpu_ids tp" "n \<le> length rest"
  shows "cpubind_loop tp node (thr + length rest) (pre @ rest) (cpumask_first tp rest) thr n = take n rest"
  using assms
proof (induction rest arbitrary: pre thr n)
  case Nil
  then show ?case by simp
next
  case (Cons c rest)
  show ?case
  proof (cases n)
    case (Suc k)
    have "cpubind_loop tp node (Suc thr + length rest) ((pre @ [c]) @ rest) (cpumask_first tp rest) (Suc thr) k = take k rest"
      by (rule Cons.IH) (use Cons.prems Suc in auto)
    then show ?thesis using Cons.prems Suc by (simp add: cpumask_next_in cpumask_first_def[of tp "c # rest"] Let_def not_le)
  qed simp
qed

lemma next_online:
  assumes "sorted_wrt (<) (ns @ node # node' # ns')" "online_nodes tp = ns @ node # node' # ns'" "node' < MAX_NUMNODES tp"
  shows "bind_node tp node = node'"
  using assms by (simp add: bind_node_def next_online_node_def find_above)

text \<open>After the last CPU of a node the loop goes on as if it began with the next node.\<close>

lemma cpubind_next_node:
  assumes "bind_node tp node = node'" "node_cpus tp node' \<noteq> []" "\<forall>c \<in> set (node_cpus tp node'). c < nr_cpu_ids tp"
  shows "cpubind_loop tp node thr cpus (nr_cpu_ids tp) thr n =
    cpubind_loop tp node' (thr + length (node_cpus tp node')) (node_cpus tp node') (cpumask_first tp (node_cpus tp node')) thr n"
proof (cases n)
  case (Suc k)
  have "cpumask_first tp (node_cpus tp node') < nr_cpu_ids tp" using assms(2,3) by (cases "node_cpus tp node'") (auto simp: cpumask_first_def)
  then show ?thesis using assms Suc by (simp add: Let_def)
qed simp

lemma cpubind_node:
  assumes "topo_ok tp" "online_nodes tp = ns @ node # ns'"
    and "n \<le> length (concat (map (node_cpus tp) (node # ns')))"
  shows "cpubind_loop tp node (thr + length (node_cpus tp node)) (node_cpus tp node) (cpumask_first tp (node_cpus tp node)) thr n =
    take n (concat (map (node_cpus tp) (node # ns')))"
  using assms(2,3)
proof (induction ns' arbitrary: ns node thr n)
  case Nil
  have "node \<in> set (online_nodes tp)" using Nil(1) by simp
  then show ?case using cpubind_short[of "[]" "node_cpus tp node" tp n] Nil(2) assms(1) by (simp add: topo_ok_def)
next
  case (Cons node' ns')
  let ?cpus = "node_cpus tp node" and ?thr = "thr + length (node_cpus tp node)"
  have mem: "node \<in> set (online_nodes tp)" "node' \<in> set (online_nodes tp)" using Cons.prems(1) by auto
  then have ok: "sorted_wrt (<) ?cpus" "\<forall>c \<in> set ?cpus. c < nr_cpu_ids tp"
    "node_cpus tp node' \<noteq> []" "\<forall>c \<in> set (node_cpus tp node'). c < nr_cpu_ids tp" "node' < MAX_NUMNODES tp"
    using assms(1) by (auto simp: topo_ok_def)
  show ?case
  proof (cases "n \<le> length ?cpus")
    case True
    then show ?thesis using cpubind_short[of "[]" ?cpus tp n] ok by simp
  next
    case False
    then obtain k where k: "n = length ?cpus + k" by (metis le_add_diff_inverse nat_le_linear)
    have bn: "bind_node tp node = node'"
      by (rule next_online[OF _ Cons.prems(1)]) (use assms(1) Cons.prems(1) ok(5) in \<open>simp_all add: topo_ok_def\<close>)
    have "cpubind_loop tp node ?thr ?cpus (cpumask_first tp ?cpus) thr n =
        ?cpus @ cpubind_loop tp node ?thr ?cpus (nr_cpu_ids tp) ?thr k"
      using cpubind_rest[of "[]" ?cpus tp node thr k] ok k by simp
    also have "\<dots> = ?cpus @ take k (concat (map (node_cpus tp) (node' # ns')))"
      unfolding cpubind_next_node[OF bn ok(3,4)]
      by (subst Cons.IH[of "ns @ [node]"]) (use Cons.prems k in simp_all)
    finally show ?thesis using k by simp
  qed
qed

text \<open>C35: With no more threads than CPUs, and a CPU on each online node, \<open>cpubind_numa_arr\<close> gives the threads the first
  CPUs of the nodes in their order, one node after the other: each thread has a CPU of its own, and no number is
  out of range.\<close>

theorem cpubind_fills_nodes:
  assumes "topo_ok tp" "n \<le> length (concat (map (node_cpus tp) (online_nodes tp)))"
  shows "cpubind_numa_arr tp n = take n (concat (map (node_cpus tp) (online_nodes tp))) \<and>
    distinct (cpubind_numa_arr tp n) \<and> (\<forall>c \<in> set (cpubind_numa_arr tp n). c < nr_cpu_ids tp)"
proof -
  obtain node ns where o: "online_nodes tp = node # ns" using assms(1) by (cases "online_nodes tp") (auto simp: topo_ok_def)
  have arr: "cpubind_numa_arr tp n = take n (concat (map (node_cpus tp) (online_nodes tp)))"
    using cpubind_node[OF assms(1), of "[]" node ns n 0] assms(2) o
    by (simp add: cpubind_numa_arr_def first_online_node_def Let_def)
  then show ?thesis using assms(1) by (auto simp: topo_ok_def dest!: in_set_takeD)
qed

definition ex_topo :: numa_topo where
  "ex_topo = \<lparr>online_nodes = [0, 2], node_cpus = (\<lambda>n. if n = 0 then [0, 1, 4] else [2, 3]), nr_cpu_ids = 5, MAX_NUMNODES = 8\<rparr>"

theorem cpubind_fills_nodes_witness: "cpubind_numa_arr ex_topo 4 = [0, 1, 4, 2]"
  using cpubind_fills_nodes[of ex_topo 4] by (simp add: ex_topo_def topo_ok_def)

text \<open>A node without CPUs breaks this: after the CPUs of the node before it, the next thread gets \<open>nr_cpu_ids\<close>, which is
  the number of no CPU.\<close>

lemma cpubind_memory_only_node:
  assumes "online_nodes tp = node # node' # ns" "node < node'" "node' < MAX_NUMNODES tp"
    and "sorted_wrt (<) (node_cpus tp node)" "\<forall>c \<in> set (node_cpus tp node). c < nr_cpu_ids tp"
    and "node_cpus tp node' = []" "length (node_cpus tp node) < n"
  shows "cpubind_numa_arr tp n ! length (node_cpus tp node) = nr_cpu_ids tp"
proof -
  let ?cpus = "node_cpus tp node"
  obtain k where k: "n = length ?cpus + Suc k" using assms(7) by (metis add_Suc_right less_imp_Suc_add)
  have bn: "bind_node tp node = node'" using assms(1-3) by (simp add: bind_node_def next_online_node_def)
  have "cpubind_numa_arr tp n = ?cpus @ cpubind_loop tp node (length ?cpus) ?cpus (nr_cpu_ids tp) (length ?cpus) (Suc k)"
    using cpubind_rest[of "[]" ?cpus tp node 0 "Suc k"] assms(1,4,5) k
    by (simp add: cpubind_numa_arr_def first_online_node_def Let_def del: cpubind_loop.simps)
  then show ?thesis using bn assms(6) by (simp add: Let_def nth_append cpumask_first_def)
qed

subsection \<open>The report\<close>

lemma total_add_ops: "total_ops (add_ops b ops) = total_ops b + total_ops ops"
  by (simp add: total_ops_def add_ops_def)

lemma total_collect_ops: "total_ops (collect_ops opss) = sum_list (map total_ops opss)"
proof -
  have "total_ops (fold (\<lambda>ops b. add_ops b ops) opss b) = total_ops b + sum_list (map total_ops opss)" for b
    by (induction opss arbitrary: b) (simp_all add: total_add_ops ac_simps)
  then show ?thesis by (simp add: collect_ops_def total_ops_def no_ops_def)
qed

text \<open>What the report says the threads issued is what their counters add up to; a duration of 0 divides by zero.\<close>

lemma bench_report_issued:
  "bench_report dur (collect_ops opss) = Some (ls, stat) \<Longrightarrow>
    nr_issued_ops stat = at_least_one (sum_list (map total_ops opss)) \<and>
    nr_succ_ops stat + nb_ins_abort (collect_ops opss) + nb_del_abort (collect_ops opss) = nr_issued_ops stat"
  by (auto simp: bench_report_def Let_def total_ops_def ac_simps simp flip: total_collect_ops split: if_splits)

lemma bench_report_zero: "bench_report 0 b = None"
  by (simp add: bench_report_def)

end
