(* ===== verification/Barrier.thy ===== *)
theory Barrier
  imports Logic
begin

text \<open>
  barrier.c: the barrier at which the threads of the benchmark meet before they start. The state is the
  barrier, with the two counters as \<open>int\<close>s; \<open>f\<close> bounds the busy-wait.
\<close>

record barrier_t =
  count :: int
  crossing :: int

definition barrier_init :: "int \<Rightarrow> (barrier_t, unit) proc" where
  "barrier_init n =
    bind (atomic (\<lambda>t m. Some ((), m\<lparr>count := n\<rparr>))) (\<lambda>_.
    atomic (\<lambda>t m. Some ((), m\<lparr>crossing := 0\<rparr>)))"

fun cross_wait :: "nat \<Rightarrow> int \<Rightarrow> int \<Rightarrow> (barrier_t, unit) proc" where
  "cross_wait 0 n c = Diverge"
| "cross_wait (Suc f) n c =
    (if c \<noteq> n then bind (get (\<lambda>t m. crossing m)) (\<lambda>c. cross_wait f n c) else Ret ())"

definition barrier_cross :: "nat \<Rightarrow> (barrier_t, unit) proc" where
  "barrier_cross f =
    bind (get (\<lambda>t m. count m)) (\<lambda>n.
    bind (atomic (\<lambda>t m. let c = to_int32 (crossing m + 1) in Some (c, m\<lparr>crossing := c\<rparr>))) (\<lambda>c.
    cross_wait f n c))"

subsection \<open>Any number of threads\<close>

text \<open>The arrival, the second action of \<open>barrier_cross\<close>.\<close>

definition cross_arrive :: "nat \<Rightarrow> int \<Rightarrow> (barrier_t, unit) proc" where
  "cross_arrive f n =
    bind (atomic (\<lambda>t m. let c = to_int32 (crossing m + 1) in Some (c, m\<lparr>crossing := c\<rparr>))) (\<lambda>c.
    cross_wait f n c)"

definition crossers :: "nat \<Rightarrow> nat \<Rightarrow> (barrier_t, unit) system" where
  "crossers n f t = (if t < n then Some (barrier_cross f) else None)"

text \<open>
  What is true between any two steps of \<open>n\<close> threads: the threads of \<open>A\<close> have arrived and wait or
  have crossed, the others are before their arrival, and the counter says how many have arrived.
\<close>

definition barrier_inv :: "nat \<Rightarrow> nat \<Rightarrow> tid set \<Rightarrow> (barrier_t, unit) system \<times> barrier_t \<Rightarrow> bool" where
  "barrier_inv n f A s \<longleftrightarrow> A \<subseteq> {..<n} \<and> count (snd s) = int n \<and> crossing (snd s) = int (card A) \<and>
    (\<forall>t. n \<le> t \<longrightarrow> fst s t = None) \<and>
    (\<forall>t < n. t \<notin> A \<longrightarrow> fst s t = Some (barrier_cross f) \<or> fst s t = Some (cross_arrive f (int n))) \<and>
    (\<forall>t \<in> A. \<exists>k c. c \<le> int (card A) \<and> fst s t = Some (cross_wait k (int n) c))"

lemma barrier_inv_start: "count m = int n \<Longrightarrow> crossing m = 0 \<Longrightarrow> barrier_inv n f {} (crossers n f, m)"
  by (simp add: barrier_inv_def crossers_def)

lemma cross_wait_act:
  "cross_wait k n c = Act b u nx \<Longrightarrow>
    \<exists>k'. k = Suc k' \<and> c \<noteq> n \<and> (\<forall>t m. u t m = m \<and> nx t m = cross_wait k' n (crossing m))"
  by (cases k) (auto simp: get_def atomic_def split: if_splits)

lemma barrier_cross_act:
  "barrier_cross f = Act b u nx \<Longrightarrow> u t m = m \<and> nx t m = cross_arrive f (count m)"
  by (auto simp: barrier_cross_def cross_arrive_def get_def atomic_def)

lemma cross_arrive_act:
  "cross_arrive f n = Act b u nx \<Longrightarrow>
    u t m = m\<lparr>crossing := to_int32 (crossing m + 1)\<rparr> \<and> nx t m = cross_wait f n (to_int32 (crossing m + 1))"
  by (auto simp: cross_arrive_def atomic_def Let_def)

lemma barrier_inv_thread:
  assumes "barrier_inv n f A (pl, m)" "pl t = Some p"
  shows "t < n"
proof (rule ccontr)
  assume "\<not> t < n"
  then have "pl t = None" using assms(1) by (simp add: barrier_inv_def)
  then show False using assms(2) by simp
qed

lemma barrier_inv_in:
  assumes "barrier_inv n f A (pl, m)" "pl t = Some p" "t \<in> A"
  obtains k c where "c \<le> int (card A)" "p = cross_wait k (int n) c"
proof -
  have "\<exists>k c. c \<le> int (card A) \<and> pl t = Some (cross_wait k (int n) c)"
    using assms(1,3) unfolding barrier_inv_def fst_conv by blast
  then show ?thesis using that assms(2) by auto
qed

lemma barrier_inv_out:
  assumes "barrier_inv n f A (pl, m)" "pl t = Some p" "t \<notin> A"
  shows "p = barrier_cross f \<or> p = cross_arrive f (int n)"
proof -
  have "t < n" by (rule barrier_inv_thread[OF assms(1,2)])
  then have "pl t = Some (barrier_cross f) \<or> pl t = Some (cross_arrive f (int n))"
    using assms(1,3) unfolding barrier_inv_def fst_conv by blast
  then show ?thesis using assms(2) by auto
qed

lemma barrier_inv_arrive:
  assumes "barrier_inv n f A (pl, m)" "t < n" "t \<notin> A"
  shows "barrier_inv n f (insert t A)
    (pl(t \<mapsto> cross_wait f (int n) (int (card (insert t A)))), m\<lparr>crossing := int (card (insert t A))\<rparr>)"
proof -
  note I = assms(1)[unfolded barrier_inv_def fst_conv snd_conv]
  have "\<exists>k c. c \<le> int (card (insert t A)) \<and>
      (pl(t \<mapsto> cross_wait f (int n) (int (card (insert t A))))) u = Some (cross_wait k (int n) c)"
    if u: "u \<in> insert t A" for u
  proof (cases "u = t")
    case False
    then obtain k c where "c \<le> int (card A)" "pl u = Some (cross_wait k (int n) c)" using I u by blast
    moreover have "card A \<le> card (insert t A)" by (rule card_insert_le)
    ultimately show ?thesis using False by (intro exI[of _ k] exI[of _ c]) simp
  qed auto
  then show ?thesis using I assms(2,3) unfolding barrier_inv_def fst_conv snd_conv by simp
qed

lemma barrier_inv_step:
  assumes "barrier_inv n f A s" "sys_step s s'" "n < 2 ^ 31"
  shows "\<exists>A'. barrier_inv n f A' s'"
proof -
  obtain pl m where s: "s = (pl, m)" by (cases s)
  from assms(2) obtain t b u nx where st: "pl t = Some (Act b u nx)" "s' = (pl(t \<mapsto> nx t m), u t m)"
    unfolding s by (auto elim: sys_step.cases)
  note I = assms(1)[unfolded s barrier_inv_def fst_conv snd_conv]
  have t: "t < n" by (rule barrier_inv_thread[OF assms(1)[unfolded s] st(1)])
  have fin: "finite A" using I by (meson finite_lessThan finite_subset)
  show ?thesis
  proof (cases "t \<in> A")
    case True
    then obtain k c where "Act b u nx = cross_wait k (int n) c"
      using barrier_inv_in[OF assms(1)[unfolded s] st(1)] by metis
    then obtain k' where "u t m = m" "nx t m = cross_wait k' (int n) (crossing m)"
      using cross_wait_act by metis
    then have "barrier_inv n f A s'" using I True by (auto simp: barrier_inv_def st(2))
    then show ?thesis ..
  next
    case False
    then consider "barrier_cross f = Act b u nx" | "cross_arrive f (int n) = Act b u nx"
      using barrier_inv_out[OF assms(1)[unfolded s] st(1)] by metis
    then show ?thesis
    proof cases
      case 1
      then have "u t m = m" "nx t m = cross_arrive f (int n)" using barrier_cross_act I by metis+
      then have "barrier_inv n f A s'" using I t False by (auto simp: barrier_inv_def st(2))
      then show ?thesis ..
    next
      case 2
      have A: "insert t A \<subseteq> {..<n}" using I t by blast
      have card: "card (insert t A) = card A + 1" using fin False by simp
      then have "card A + 1 \<le> n" using card_mono[OF finite_lessThan A] by simp
      then have "to_int32 (crossing m + 1) = int (card (insert t A))"
        using I card assms(3) by (simp add: to_int32_id)
      then have "u t m = m\<lparr>crossing := int (card (insert t A))\<rparr>"
          "nx t m = cross_wait f (int n) (int (card (insert t A)))"
        using cross_arrive_act[OF 2, of t m] by simp_all
      then have "barrier_inv n f (insert t A) s'"
        using barrier_inv_arrive[OF assms(1)[unfolded s] t False] by (simp add: st(2))
      then show ?thesis ..
    qed
  qed
qed

lemma barrier_inv_reach:
  assumes "sys_reach (crossers n f, m) s" "count m = int n" "crossing m = 0" "n < 2 ^ 31"
  shows "\<exists>A. barrier_inv n f A s"
  using assms(1)
proof (induction rule: sys_reach.induct)
  case sys_start
  then show ?case using barrier_inv_start assms(2,3) by blast
next
  case (sys_more s s')
  then show ?case using barrier_inv_step assms(4) by blast
qed

lemma barrier_inv_crossed:
  assumes "barrier_inv n f A (pool, m)" "pool t = Some (Ret ())"
  shows "A = {..<n}"
proof -
  have "t \<in> A"
  proof (rule ccontr)
    assume "t \<notin> A"
    then have "Ret () = barrier_cross f \<or> Ret () = cross_arrive f (int n)"
      by (rule barrier_inv_out[OF assms])
    then show False by (auto simp: barrier_cross_def cross_arrive_def get_def atomic_def)
  qed
  then obtain k c where "c \<le> int (card A)" "Ret () = cross_wait k (int n) c"
    using barrier_inv_in[OF assms] by metis
  then have "n \<le> card A" by (cases k) (auto simp: get_def atomic_def split: if_splits)
  then show ?thesis using assms(1)
    by (metis barrier_inv_def card_lessThan card_seteq finite_lessThan)
qed

lemma barrier_inv_no_fault:
  assumes "barrier_inv n f A (pool, m)"
  shows "pool t \<noteq> Some Fault"
proof
  assume p: "pool t = Some Fault"
  show False
  proof (cases "t \<in> A")
    case True
    then obtain k c where "Fault = cross_wait k (int n) c" using barrier_inv_in[OF assms p] by metis
    then show False by (cases k) (auto simp: get_def atomic_def split: if_splits)
  next
    case False
    then show False using barrier_inv_out[OF assms p]
      by (auto simp: barrier_cross_def cross_arrive_def get_def atomic_def)
  qed
qed

lemma run_barrier_init:
  "run t (barrier_init n) m = Returned () m' \<longleftrightarrow> m' = m\<lparr>count := n, crossing := 0\<rparr>"
  by (auto simp: barrier_init_def atomic_def)

lemma cross_wait_returns:
  "crossing m = n \<Longrightarrow> run t (cross_wait (Suc (Suc k)) n c) m = Returned () m"
  by (simp add: get_def atomic_def)

lemma cross_wait_stuck: "crossing m \<noteq> n \<Longrightarrow> c \<noteq> n \<Longrightarrow> run t (cross_wait f n c) m = Diverged"
  by (induction f arbitrary: c) (simp_all add: get_def atomic_def)

subsection \<open>The barrier holds\<close>

text \<open>C24: After \<open>barrier_init(n)\<close>, when \<open>n\<close> threads cross the barrier in any interleaving and one of them has
  come out, all \<open>n\<close> have arrived: each is in the waiting loop or has left it. From then on the loop
  of every thread ends with its next reading of the counter. No thread faults.\<close>

theorem barrier_safe:
  assumes "run t0 (barrier_init (int n)) m0 = Returned () m" "n < 2 ^ 31"
    and "sys_reach (crossers n f, m) (pool, m')" "pool t = Some (Ret ())"
  shows "crossing m' = int n \<and> (\<forall>u < n. \<exists>k c. pool u = Some (cross_wait k (int n) c)) \<and>
    (\<forall>u k c. run u (cross_wait (Suc (Suc k)) (int n) c) m' = Returned () m') \<and> (\<forall>u. pool u \<noteq> Some Fault)"
proof -
  have m: "count m = int n" "crossing m = 0" using assms(1) by (simp_all add: run_barrier_init)
  obtain A where A: "barrier_inv n f A (pool, m')"
    using barrier_inv_reach[OF assms(3) m assms(2)] by blast
  have all: "A = {..<n}" by (rule barrier_inv_crossed[OF A assms(4)])
  then have c: "crossing m' = int n" using A by (simp add: barrier_inv_def)
  have "\<exists>k c. pool u = Some (cross_wait k (int n) c)" if "u < n" for u
    using A that unfolding barrier_inv_def all fst_conv by blast
  moreover have "pool u \<noteq> Some Fault" for u
    using barrier_inv_no_fault[OF A] by blast
  moreover have "run u (cross_wait (Suc (Suc k)) (int n) c) m' = Returned () m'" for u k c
    using cross_wait_returns[OF c] by blast
  ultimately show ?thesis using c by blast
qed

theorem barrier_safe_witness:
  "crossing (snd (sys_exec [0, 0, 1, 0, 1, 0] (crossers 2 5, \<lparr>count = 2, crossing = 0\<rparr>))) = 2"
proof -
  let ?m = "\<lparr>count = 2, crossing = 0\<rparr>"
  let ?s = "sys_exec [0, 0, 1, 0, 1, 0] (crossers 2 5, ?m)"
  have r: "sys_reach (crossers 2 5, ?m) (fst ?s, snd ?s)"
    unfolding prod.collapse by (rule sys_exec_reach[OF sys_start])
  have i: "run 0 (barrier_init (int 2)) ?m = Returned () ?m" by (simp add: run_barrier_init)
  have p: "fst ?s 0 = Some (Ret ())"
    by (simp add: sys_exec1_def crossers_def barrier_cross_def get_def atomic_def Let_def to_int32_def eval_nat_numeral)
  show ?thesis using barrier_safe[OF i _ r p] by simp
qed

text \<open>C34: The barrier serves once: a thread that comes to it when as many threads as it was made for, or
  more, have arrived waits for ever.\<close>

theorem barrier_not_reusable:
  assumes "count m \<le> crossing m" "- (2 ^ 31) \<le> crossing m" "crossing m < 2 ^ 31 - 1"
  shows "run t (barrier_cross f) m = Diverged"
proof -
  have "to_int32 (crossing m + 1) = crossing m + 1" using assms by (simp add: to_int32_id)
  moreover have "run t (cross_wait f (count m) (crossing m + 1)) (m\<lparr>crossing := crossing m + 1\<rparr>) = Diverged"
    by (rule cross_wait_stuck) (use assms in simp_all)
  ultimately show ?thesis by (simp add: barrier_cross_def get_def atomic_def Let_def)
qed

theorem barrier_not_reusable_witness:
  "run 0 (barrier_cross 5) \<lparr>count = 2, crossing = 2\<rparr> = Diverged"
  using barrier_not_reusable[of "\<lparr>count = 2, crossing = 2\<rparr>" 0 5] by simp

end
