(* ===== verification/Spec2Isabelle.thy ===== *)
theory Spec2Isabelle
  imports RcxSystems Benchmarks BenchInit Barrier
begin

text \<open>
  Concurrent hash lists for the Linux kernel (rcx-hashtables): a hash table of sorted linked lists in
  several synchronisation variants, and the benchmark module that compares them.

  \<^bold>\<open>The program.\<close> hash-list.h fixes the layout: a table of at most 1000 buckets, each a sorted list between
  two sentinels, whose nodes carry a \<open>removed\<close> mark and several locks. rcu-hash-list.c implements lookups
  under RCU and updates under one lock per list, or under per-node locks with validation (\<open>fg\<close>), or the
  same taken hierarchically per NUMA node (\<open>numa\<close>). rcx-hash-list.c implements the updates by hardware
  transactions (RTM, rtm.h): plain, with a fallback to the list lock (\<open>lf\<close>, \<open>fb1\<close>), and with transactions
  that only take lock bytes (\<open>htmlock\<close>, \<open>hhtmlock\<close>, \<open>numa\<close>). rtm\_debug.c counts aborts. rlu-hash-list.c
  implements the lists over Read-Log-Update: rlu.c keeps for each thread a log of write sets with copies of the
  objects it has locked, which it writes back once the other threads have left their sections. barrier.c
  is the barrier the threads start from, and sync\_test.c runs the benchmark threads.

  \<^bold>\<open>Model.\<close> Programs are trees of atomic actions on a state (\<open>Prog\<close>), one definition for each function of
  the source, with the source's name (HOL names that clash get the prefix rcx). A shared access is one action, and
  a transaction is one action that either has the whole effect of its body or none and an abort status.
  \<open>Machine\<close> holds the memory of hash-list.h's structures as records and the kernel primitives, \<open>RluMachine\<close>
  the objects, headers, logs and globals of rlu.h and rlu.c. The theories, from the bottom:
  \<^item> \<open>Prelude\<close>: 32-bit C arithmetic on \<open>int\<close>, reachability along a next function. \<open>Prog\<close>: programs.
  \<^item> \<open>RtmDebug\<close>: the status word of rtm.h and all of rtm\_debug.c, in modular counters.
  \<^item> \<open>Machine\<close>, \<open>RcuList\<close>, \<open>RcxList\<close>, \<open>RcxHash\<close>: the code of the RCU and HTM lists, and the benchmark's clock test.
  \<^item> \<open>Logic\<close>: a rely-guarantee logic for programs (\<open>wp\<close>, \<open>hoare\<close>), locales \<open>rg_thread\<close> for one thread and
    \<open>rg_system\<close> for every interleaving of many.
  \<^item> \<open>ListHeap\<close>, \<open>Steps\<close>: the well-formed list heap, its abstract content, the log of updates, and what the
    two structural steps (publish a node, bypass a node) do to them.
  \<^item> \<open>Rely\<close>, \<open>Protocol\<close>, \<open>Shared\<close>, \<open>Walk\<close>, \<open>Updates\<close>, \<open>Locks\<close>, \<open>ListLock\<close>: what a locking protocol provides
    (locale \<open>protocol\<close>), and the subprograms of all operations proved once for every protocol (locales
    \<open>protocol_thread\<close>, \<open>list_op\<close>, \<open>lock_op\<close>).
  \<^item> \<open>RcuCoarse\<close>, \<open>RcuFine\<close>: the update families of rcu-hash-list.c, each an instance of a protocol.
  \<^item> \<open>RcxTx\<close>, \<open>RcxPlain\<close>, \<open>RcxFallback\<close>, \<open>RcxAborts\<close>: transactions, the plain family and the one that falls back to
    the list lock as instances of a protocol, and the transactions that always abort.
  \<^item> \<open>Client\<close>, \<open>RcuTable\<close>, \<open>RcuAlone\<close>, \<open>RcuInit\<close>, \<open>RcuSpec\<close>, \<open>RcxTable\<close>, \<open>RcxSpec\<close>: systems of any number of
    threads that make calls on a table, one thread alone, initialisation and destruction, and the sequential
    sets behind it all.
  \<^item> \<open>Examples\<close>: a concrete machine on which the properties' hypotheses hold. \<open>RcxSystems\<close>: the properties of the HTM lists.
  \<^item> \<open>RluMachine\<close>, \<open>RluEngine\<close>, \<open>RluList\<close>: the code of rlu.h, rlu.c and rlu-hash-list.c.
  \<^item> \<open>RluRun\<close>: total correctness of a run by one thread (\<open>runs\<close>). \<open>RluClient\<close>: the interface between the lists and
    the engine, locale \<open>rlu_engine\<close>, over the thread's view of the heap. \<open>RluTable\<close>, \<open>RluCalls\<close>: the lists
    over that interface as a set.
  \<^item> \<open>RluLog\<close>, \<open>RluSync\<close>, \<open>RluSections\<close>, \<open>RluContract\<close>, \<open>RluLaws\<close>: the ring of write sets, synchronisation and
    write-back, the invariant of the log at rest and in a section, and the proof that rlu.c keeps the laws of
    \<open>rlu_engine\<close>, which the interpretation at the end of \<open>RluLaws\<close> turns into facts about the code.
  \<^item> \<open>RluInit\<close>, \<open>RluSpec\<close>: the set-up of engine, threads and table, and the properties of the RLU lists.
  \<^item> \<open>Driver\<close>, \<open>Benchmarks\<close>: the part of sync\_test.c that works on the lists, what it needs of them (locale
    \<open>bench_client\<close>), and the lists that provide it. \<open>BenchInit\<close>: the checks of the module parameters, the
    CPUs of the threads and the report.
  \<^item> \<open>Barrier\<close>: barrier.c, and what it guarantees to any number of threads.

  \<^bold>\<open>What is assumed.\<close> Sequentially consistent memory, with every pointer write of the source atomic.
  \<open>inv\<close> contains \<open>env_ok\<close>: allocation succeeds with an unused address, and each thread runs on one of at most
  \<open>NR_NUMA_NODES\<close> NUMA nodes that have CPUs. The allocator, the hardware's abort decisions, random numbers,
  the NUMA topology and the clock are parameters, in the machine records or of the driver. A node that \<open>kfree_rcu\<close> queues is not
  given back while the calls run: the grace period is RCU's promise. NULL checks the source omits after
  an allocation fault in the model; under \<open>env_ok\<close> they do not happen. The properties of the RCU and HTM lists
  hold for any number of threads unless they say \<open>alone\<close>; those of the RLU lists are about one thread whose
  peers are registered and outside their sections, so that no busy-wait has to wait (\<open>rlu_ready\<close>).

  \<^bold>\<open>Bounds.\<close> A list walk has \<open>WALK = 2 ^ 32\<close> iterations of fuel, and no call runs out of it: values are 32-bit
  and increase along a list. The retries of the fine-grained updates have the fuel \<open>f\<close>; one attempt is
  enough for a thread that runs alone, among others the number is unbounded, so that there \<open>Diverge\<close> is not
  excluded for them (it is for the others). The blocking RLU calls have the fuel \<open>f\<close> for their restarts, and two
  attempts are enough: the first can only fail on the thread's own deferred writes, which its abort writes back. The
  fuel \<open>g\<close> of the wait for quiescence is at least 1. \<open>rlu_ready\<close> carries a budget of write sets, since
  the counter of write sets has to stay below 2 ^ 31: \<open>rlu_abort\<close> narrows it to \<open>int\<close>.

  \<^bold>\<open>Ghost state.\<close> \<open>own\<close> says which thread or list a node belongs to and \<open>hist\<close> logs the updates at their
  pointer writes; no program reads either.

  \<^bold>\<open>Not modelled.\<close> Of sync\_test.c the module loading, the allocation of the threads' records, the creation
  of kernel threads and completions, which are calls of kernel services; the debug traces of rlu.c; build rules.
\<close>

section \<open>Systems of threads on one RCU table\<close>

text \<open>C1: Whatever calls of the one-lock-per-list family (lookup, add, remove and their try versions) any
  number of threads make on a table, and however they interleave: every reachable state satisfies the
  invariant (sorted lists, sentinels, a legal log whose replay is the content), no call dereferences
  NULL or a freed node, and none runs out of its bound on the list walk.\<close>

theorem coarse_system_safe:
  assumes "inv m" "table_ok T" "table_is T m"
    and "\<And>t l. cs t = Some l \<Longrightarrow> \<forall>c \<in> set l. coarse_call c"
    and "sys_reach (rcu_pool f cs, m) (pool, m')"
  shows "inv m' \<and> table_is T m' \<and> pool t \<noteq> Some Fault \<and> pool t \<noteq> Some Diverge"
proof -
  have "\<forall>c \<in> set l. coarse_call c \<and> table_ok T" if "cs t = Some l" for t l
    using assms(2,4) that by blast
  from coarse_client.sys_safe[OF assms(1,3) this assms(5)[unfolded rcu_pool_def]]
  show ?thesis by (simp add: coarse_mode_def)
qed

theorem coarse_system_safe_witness:
  "\<exists>pool m. sys_reach (rcu_pool 1 ex_coarse, ex_mach) (pool, m) \<and> pool 0 = Some (Ret [0, 0, 0]) \<and>
    inv m \<and> table_is ex_table m \<and> pool 1 \<noteq> Some Fault"
  using ex_coarse_run coarse_system_safe[OF ex_rest(1) ex_ready(1) ex_rest(3) ex_calls(1)] by fastforce







text \<open>C10: In every reachable state the log of each list is a legal sequential history, insertions of absent
  keys and removals of present ones, and its balance for a key says whether the key is in the list.\<close>

theorem coarse_history_balance:
  assumes "inv m" "table_ok T" "table_is T m"
    and "\<And>t l. cs t = Some l \<Longrightarrow> \<forall>c \<in> set l. coarse_call c"
    and "sys_reach (rcu_pool f cs, m) (pool, m')" "valid_key k"
  shows "legal {} (upds (bucket_of T k) (hist m')) \<and>
    count_ins k (upds (bucket_of T k) (hist m')) =
    count_del k (upds (bucket_of T k) (hist m')) + of_bool (k \<in> table_set T m')"
proof -
  have c: "\<forall>c \<in> set l. coarse_call c \<and> table_ok T" if "cs t = Some l" for t l
    using assms(2,4) that by blast
  have i: "inv m'" "table_is T m'"
    using coarse_client.sys_safe(1)[OF assms(1,3) _ assms(5)[unfolded rcu_pool_def]] c by blast+
  have "is_list (bucket_of T k) m'" by (rule bucket_is_list[OF assms(2) i(2) assms(6)])
  then have h: "legal {} (upds (bucket_of T k) (hist m'))"
    "replay {} (upds (bucket_of T k) (hist m')) = contents m' (bucket_of T k)"
    using i(1) by (auto simp: inv_def hist_ok_def is_list_def)
  then show ?thesis
    using legal_balance[OF h(1), of k] assms(6) by (simp add: table_set_def)
qed

theorem coarse_history_balance_witness:
  "\<exists>pool m. sys_reach (rcu_pool 1 ex_coarse, ex_mach) (pool, m) \<and> pool 0 = Some (Ret [0, 0, 0]) \<and>
    legal {} (upds (bucket_of ex_table 3) (hist m))"
proof -
  have "valid_key 3" by (simp add: valid_key_def LIST_VAL_MAX_def)
  from coarse_history_balance[OF ex_rest(1) ex_ready(1) ex_rest(3) ex_calls(1) _ this]
  show ?thesis using ex_coarse_run by fastforce
qed

section \<open>A thread that runs alone\<close>

text \<open>C12: On a table at rest, any sequence of calls of the one-lock-per-list family returns without blocking,
  faulting or running out of a bound, with the values and the effect of a sequential set, and leaves the
  table at rest.\<close>

theorem coarse_calls_refine:
  assumes "table_ok T" "coarse_idle T m" "\<forall>c \<in> set cs. coarse_call c"
  shows "\<exists>m'. run t (calls (rcu_hash_call f) cs) m = Returned (fst (set_specs cs (table_set T m))) m' \<and>
    table_set T m' = snd (set_specs cs (table_set T m)) \<and> coarse_idle T m'"
  using coarse_calls_set[OF assms(3,1,2), of t f] by (metis fst_conv snd_conv)

theorem coarse_calls_refine_witness:
  "\<exists>m'. run 0 (calls (rcu_hash_call 0) [(Add, 3), (TryAdd, 3), (Contains, 3), (Remove, 3), (Contains, 3)]) ex_mach =
      Returned [0, 0, 0, 0, - ENOENT] m' \<and> table_set ex_table m' = {}"
proof -
  let ?cs = "[(Add, 3), (TryAdd, 3), (Contains, 3), (Remove, 3), (Contains, 3)]"
  have "\<forall>c \<in> set ?cs. coarse_call c" by (simp add: coarse_call_def valid_key_def LIST_VAL_MAX_def)
  from coarse_calls_refine[OF ex_ready(1,3) this, of 0 0]
  show ?thesis unfolding ex_ready(5) by (auto simp: Let_def simp del: calls.simps)
qed

text \<open>C13: The same for the fine-grained family, for which one attempt suffices; their return value says
  whether the set changed.\<close>

theorem fine_calls_refine:
  assumes "table_ok T" "fine_idle t T m" "\<forall>c \<in> set cs. fine_call c" "0 < f"
  shows "\<exists>m'. run t (calls (rcu_hash_call f) cs) m = Returned (fst (set_specs cs (table_set T m))) m' \<and>
    table_set T m' = snd (set_specs cs (table_set T m)) \<and> fine_idle t T m'"
  using fine_calls_set[OF assms(3,1,2,4)] by (metis fst_conv snd_conv)

theorem fine_calls_refine_witness:
  "\<exists>m'. run 0 (calls (rcu_hash_call 1) [(FgAdd, 3), (NumaAdd, 3), (Contains, 3), (FgRemove, 3), (NumaRemove, 3)]) ex_mach =
      Returned [1, 0, 0, 1, 0] m' \<and> table_set ex_table m' = {}"
proof -
  let ?cs = "[(FgAdd, 3), (NumaAdd, 3), (Contains, 3), (FgRemove, 3), (NumaRemove, 3)]"
  have "\<forall>c \<in> set ?cs. fine_call c" by (simp add: fine_call_def valid_key_def LIST_VAL_MAX_def)
  from fine_calls_refine[OF ex_ready(1,4) this, of 1 0]
  show ?thesis unfolding ex_ready(5) by (auto simp: Let_def simp del: calls.simps)
qed

text \<open>C15: Replacing each update of the one-lock-per-list family by a fine-grained one gives the same set.\<close>

theorem families_equivalent:
  assumes "table_ok T" "coarse_idle T m" "fine_idle t T m" "\<forall>c \<in> set cs. coarse_call c" "0 < f"
  shows "\<exists>rs m1 rs' m2. run t (calls (rcu_hash_call f) cs) m = Returned rs m1 \<and>
    run t (calls (rcu_hash_call f) (map (map_prod fine_version id) cs)) m = Returned rs' m2 \<and>
    table_set T m1 = table_set T m2"
proof -
  let ?ds = "map (map_prod fine_version id) cs"
  have d: "\<forall>c \<in> set ?ds. fine_call c" using assms(4) fine_version_call by auto
  obtain rs m1 where c: "run t (calls (rcu_hash_call f) cs) m = Returned rs m1"
    "(rs, table_set T m1) = set_specs cs (table_set T m)"
    using coarse_calls_set[OF assms(4,1,2), of t f] by blast
  obtain rs' m2 where g: "run t (calls (rcu_hash_call f) ?ds) m = Returned rs' m2"
    "(rs', table_set T m2) = set_specs ?ds (table_set T m)"
    using fine_calls_set[OF d assms(1,3,5)] by blast
  have "table_set T m1 = table_set T m2" using set_specs_fine[of cs "table_set T m"] c(2) g(2) by (metis snd_conv)
  then show ?thesis using c(1) g(1) by blast
qed

theorem families_equivalent_witness:
  "\<exists>rs m1 rs' m2. run 0 (calls (rcu_hash_call 1) [(Add, 3), (Remove, 4)]) ex_mach = Returned rs m1 \<and>
    run 0 (calls (rcu_hash_call 1) [(FgAdd, 3), (FgRemove, 4)]) ex_mach = Returned rs' m2 \<and>
    table_set ex_table m1 = table_set ex_table m2"
proof -
  have "\<forall>c \<in> set [(Add, 3), (Remove, 4)]. coarse_call c"
    by (simp add: coarse_call_def valid_key_def LIST_VAL_MAX_def)
  from families_equivalent[OF ex_ready(1,3,4) this, of 1] show ?thesis by (simp del: calls.simps)
qed

text \<open>C19: A lookup leaves the machine as it found it, its read-side nesting included, and returns 0 exactly
  for the keys in the table.\<close>

theorem contains_reads:
  assumes "table_ok T" "coarse_idle T m" "valid_key key"
  shows "run t (rcu_hash_list_contains WALK key) m =
    Returned (if key \<in> table_set T m then 0 else - ENOENT) m"
proof -
  have "coarse_call (Contains, key)" using assms(3) by (simp add: coarse_call_def)
  from coarse_call_set[OF this assms(1,2), of t 0] obtain r m' where
    r: "run t (rcu_hash_list_contains WALK key) m = Returned r m'"
      "r = (if key \<in> table_set T m then 0 else - ENOENT)" by auto
  then show ?thesis using run_hash_contains_pure[OF r(1)] by simp
qed

theorem contains_reads_witness:
  "run 0 (rcu_hash_list_contains WALK 3) ex_mach = Returned (- ENOENT) ex_mach"
proof -
  have "valid_key 3" by (simp add: valid_key_def LIST_VAL_MAX_def)
  from contains_reads[OF ex_ready(1,3) this] show ?thesis by (simp add: ex_ready(5))
qed

text \<open>C18: Lookups are wait-free: whatever the other threads of the one-lock-per-list family do, a lookup
  never blocks, faults or exceeds its bound, it updates nothing, and if no other thread updates the key,
  its answer is the one of the set.\<close>

theorem contains_wait_free:
  assumes "table_ok T" "valid_key key"
  shows "hoare wait_free (rely inv K prot_rcu t) (guar inv {} prot_rcu t) t
    (\<lambda>m. inv m \<and> table_is T m \<and> log_is (rely inv K prot_rcu t) K t H m) (rcu_hash_list_contains WALK key)
    (\<lambda>r m. inv m \<and> r \<in> {0, - ENOENT} \<and> (slot T key \<in> K \<longrightarrow> (r = 0) = in_log (slot T key) H))"
proof -
  have k: "a_key key = key" "slot T key = (bucket_of T key, key)"
    using assms(2) valid_key_ok by (auto simp: a_key_def slot_def)
  have v: "valid_key (a_key key)" "bucket_of T key = bucket_of T (a_key key)" using assms k by simp_all
  note sp = coarse_reader.hash_contains[where t = t and K = K and H = H and key = key and
      l = "bucket_of T key" and A = "\<lambda>_. True", OF assms(1) v refl refl _ refl,
      unfolded coarse_reader.triple_def coarse_reader.meets_def, unfolded k]
  have th: "rg_thread (rely inv K prot_rcu t) (guar inv {} prot_rcu t)"
    by unfold_locales (auto intro: rely_refl rely_trans guar_refl)
  show ?thesis
    unfolding k(2)
    by (rule rg_thread.hoare_conseq[OF th sp]) (auto simp: stabJ_def)
qed

theorem contains_wait_free_witness:
  "wp wait_free (rely inv UNIV prot_rcu 0) (guar inv {} prot_rcu 0) 0 (rcu_hash_list_contains WALK 3)
    (\<lambda>r m. inv m \<and> r \<in> {0, - ENOENT} \<and> (r = 0) = in_log (slot ex_table 3) (hist ex_mach)) ex_mach"
proof -
  have "valid_key 3" by (simp add: valid_key_def LIST_VAL_MAX_def)
  from contains_wait_free[OF ex_ready(1) this, of UNIV 0 "hist ex_mach"]
  show ?thesis using ex_rest by (simp add: hoare_def log_is_def when_alone_def)
qed

section \<open>Setting up, measuring and tearing down\<close>

text \<open>C25: On a machine without lists, \<open>rcu_hash_list_init\<close> with 1 to 1000 buckets returns 0 and makes an
  empty table at rest, for either family.\<close>

theorem init_empty_table:
  assumes "boot m" "0 < n" "n \<le> int MAX_BUCKETS"
  shows "\<exists>T m'. run t (rcu_hash_list_init n) m = Returned 0 m' \<and> table_ok T \<and> n_buckets T = n \<and>
    coarse_idle T m' \<and> fine_idle s T m' \<and> table_set T m' = {}"
  using run_init[OF assms, of t] by blast

theorem init_empty_table_witness:
  "\<exists>T m'. run 0 (rcu_hash_list_init 1000) ex_boot = Returned 0 m' \<and> table_ok T \<and> table_set T m' = {}"
  using init_empty_table[OF ex_boot, of 1000 0 0] by (simp add: MAX_BUCKETS_def) blast







text \<open>C29: \<open>rcu_hash_list_destroy\<close> never completes on a table: freeing the first node of the first list, it
  reads that node's next pointer for the loop's next iteration.\<close>

theorem destroy_uses_freed_node:
  assumes "inv m" "table_ok T" "table_is T m"
  shows "run t (rcu_hash_list_destroy WALK) m = Faulted"
  by (rule run_hash_destroy[OF inv_wfm[OF assms(1)] assms(2,3)])

theorem destroy_uses_freed_node_witness:
  "run 0 (rcu_hash_list_destroy WALK) ex_mach = Faulted"
  by (rule destroy_uses_freed_node[OF ex_rest(1) ex_ready(1) ex_rest(3)])

section \<open>Keys and buckets\<close>

text \<open>The bucket of a key that is not negative is inside the table.\<close>

theorem hash_value_bounds:
  assumes "table_ok T" "g_hash_list m = Some T" "0 \<le> key"
  shows "\<exists>h. run t (HASH_VALUE key) m = Returned h m \<and> 0 \<le> h \<and> h < n_buckets T \<and> h < int MAX_BUCKETS \<and>
    h = key mod n_buckets T"
proof -
  have n: "0 < n_buckets T" "n_buckets T \<le> int MAX_BUCKETS" using assms(1) by (simp_all add: table_ok_def)
  have "key mod n_buckets T < n_buckets T" using n(1) by simp
  then have "key mod n_buckets T < int MAX_BUCKETS" using n(2) by linarith
  then show ?thesis using n(1) assms(2) c_rem_eq_mod[OF assms(3) n(1)] by (simp add: run_hash_value)
qed

theorem hash_value_bounds_witness:
  "run 0 (HASH_VALUE 7) ex_mach = Returned 1 ex_mach"
  using hash_value_bounds[OF ex_ready(1), of ex_mach 7 0] ex_rest(3) by (auto simp: table_is_def ex_ready(2))

text \<open>C36: The remainder of C is negative for a negative key that the number of buckets does not divide: every
  call with such a key indexes the bucket array below its start.\<close>

theorem negative_key_out_of_bounds:
  assumes "table_ok T" "table_is T m" "key < 0" "\<not> n_buckets T dvd key"
  shows "run t (rcu_hash_call f (oper, key)) m = Faulted"
proof -
  have n: "0 < n_buckets T" using assms(1) by (simp add: table_ok_def)
  have "(- key) mod n_buckets T \<noteq> 0" using assms(4) by (simp add: dvd_eq_mod_eq_0[symmetric])
  moreover have "0 \<le> (- key) mod n_buckets T" using n by simp
  ultimately have "0 < (- key) mod n_buckets T" by linarith
  then have "c_rem key (n_buckets T) < 0" using assms(3) n by (simp add: c_rem_def)
  note run_negative_key[OF assms(2) n this, simp]
  show ?thesis
    by (cases oper) (simp_all add: rcu_hash_list_contains_def rcu_hash_list_add_def rcu_hash_list_try_add_def
        rcu_hash_list_fg_add_def rcu_hash_list_numa_add_def rcu_hash_list_remove_def
        rcu_hash_list_try_remove_def rcu_hash_list_fg_remove_def rcu_hash_list_numa_remove_def run_bind)
qed

theorem negative_key_out_of_bounds_witness:
  "run 0 (rcu_hash_call 1 (Add, - 1)) ex_mach = Faulted"
  using negative_key_out_of_bounds[OF ex_ready(1) ex_rest(3), of "- 1"]
  by (simp add: ex_ready(2) del: rcu_hash_call.simps)

section \<open>Abort statistics\<close>

text \<open>C37: \<open>record_abort\<close> adds one to exactly the counters whose condition the status satisfies: bit \<open>j\<close> of the
  status for the six reasons of the hardware, the code of an explicit abort for the three of the program.\<close>

theorem record_abort_counts:
  assumes "length (counts cnt) = NR_ABORT_REASONS" "j < NR_ABORT_REASONS"
  shows "counts (record_abort_cnt stat cnt) ! j = counts cnt ! j +
    of_bool ((j < 6 \<and> bit stat j) \<or> (6 \<le> j \<and> XABORT_CODE stat = of_nat j))"
  by (rule record_abort_nth[OF assms])

theorem record_abort_counts_witness:
  "counts (record_abort_cnt (xabort_status 7) zero_abort_cnt) ! 7 = 1"
proof -
  have "length (counts zero_abort_cnt) = NR_ABORT_REASONS" "7 < NR_ABORT_REASONS"
    by (simp_all add: zero_abort_cnt_def reason_defs)
  from record_abort_counts[OF this, of "xabort_status 7"]
  show ?thesis by (simp add: xabort_code zero_abort_cnt_def reason_defs)
qed

text \<open>C38: The code of an explicit abort survives the way through the status word.\<close>

theorem xabort_code_roundtrip: "XABORT_CODE (xabort_status code) = ucast code"
  by (rule xabort_code)




end
